(* ===== verification/Prelude.thy ===== *)
theory Prelude
  imports Main "HOL-Library.Word" "HOL-Library.Monad_Syntax" "HOL-Library.List_Lexorder"
begin

text \<open>
  What every theory of the development shares: the names of the C types, the size arithmetic of a
  64-bit target, the conventions for undefined behaviour, and the loop combinator that the
  component theories use for the counted loops of the source.

  Conventions.  A C function is a HOL function into \<open>option\<close>.  The value \<open>None\<close> is "the C program
  has no defined result here": a read or write outside a live object, a release of something that is
  not owned, a signed overflow, or a recursion that used up its fuel.  Every property of the
  development that says what a function does states that the result is \<open>Some\<close>.
\<close>

section \<open>C types\<close>

type_synonym byte = "8 word"
type_synonym bencode_int_t = "64 word"
type_synonym addr = nat

text \<open>\<open>size_t\<close> values are natural numbers below \<open>2 ^ 64\<close>; where the source adds or multiplies, the
  wrap-around is written with \<open>sz\<close>.\<close>

definition SIZE_MAX :: nat where
  "SIZE_MAX = 2 ^ 64 - 1"

definition sz :: "nat \<Rightarrow> nat" where
  "sz n = n mod 2 ^ 64"

lemma sz_id: "n \<le> SIZE_MAX \<Longrightarrow> sz n = n"
  by (simp add: sz_def SIZE_MAX_def)

lemma sz_le: "sz n \<le> SIZE_MAX"
proof -
  have "sz n < 2 ^ 64" unfolding sz_def by (rule mod_less_divisor) simp
  then show ?thesis by (simp add: SIZE_MAX_def)
qed

text \<open>\<open>int64_t\<close> is a 64-bit word read in two's complement.\<close>

definition INT64_MAX :: int where
  "INT64_MAX = 2 ^ 63 - 1"

definition INT64_MIN :: int where
  "INT64_MIN = - (2 ^ 63)"

lemma sint_int64_bounds: "INT64_MIN \<le> sint (w :: 64 word) \<and> sint w \<le> INT64_MAX"
  using sint_greater_eq [of w] sint_lt [of w] by (simp add: INT64_MIN_def INT64_MAX_def)

section \<open>Slices of byte buffers\<close>

definition slice :: "'a list \<Rightarrow> nat \<Rightarrow> nat \<Rightarrow> 'a list" where
  "slice xs off len = take len (drop off xs)"

lemma slice_0 [simp]: "slice xs off 0 = []"
  by (simp add: slice_def)

lemma length_slice [simp]: "off + len \<le> length xs \<Longrightarrow> length (slice xs off len) = len"
  by (simp add: slice_def)

lemma slice_append_left: "off + len \<le> length xs \<Longrightarrow> slice (xs @ ys) off len = slice xs off len"
  by (simp add: slice_def)

text \<open>"The bytes \<open>ys\<close> stand in \<open>xs\<close> at offset \<open>p\<close>", the form in which the parser's lemmas speak
  of the input.\<close>

definition at_pos :: "'a list \<Rightarrow> nat \<Rightarrow> 'a list \<Rightarrow> bool" where
  "at_pos xs p ys \<longleftrightarrow> p + length ys \<le> length xs \<and> slice xs p (length ys) = ys"

lemma at_pos_Nil [simp]: "at_pos xs p [] \<longleftrightarrow> p \<le> length xs"
  by (simp add: at_pos_def)

lemma at_pos_le: "at_pos xs p ys \<Longrightarrow> p + length ys \<le> length xs"
  by (simp add: at_pos_def)

lemma at_pos_slice: "p + n \<le> length xs \<Longrightarrow> at_pos xs p (slice xs p n)"
  by (simp add: at_pos_def)

lemma at_pos_slice_iff: "at_pos xs p ys \<Longrightarrow> slice xs p (length ys) = ys"
  by (simp add: at_pos_def)

lemma at_pos_append:
  "at_pos xs p (ys @ zs) \<longleftrightarrow> at_pos xs p ys \<and> at_pos xs (p + length ys) zs"
proof -
  have split: "take (length ys + length zs) (drop p xs)
      = take (length ys) (drop p xs) @ take (length zs) (drop (p + length ys) xs)"
    by (simp add: take_add add.commute)
  show ?thesis
  proof (cases "p + length ys + length zs \<le> length xs")
    case True
    then have "length (take (length ys) (drop p xs)) = length ys" by simp
    then show ?thesis using True by (auto simp: at_pos_def slice_def split append_eq_append_conv)
  next
    case False
    then show ?thesis by (auto simp: at_pos_def)
  qed
qed

lemma at_pos_single: "at_pos xs p [y] \<longleftrightarrow> p < length xs \<and> xs ! p = y"
  by (auto simp: at_pos_def slice_def take_Suc_conv_app_nth hd_drop_conv_nth
           Suc_le_eq take_Suc Cons_nth_drop_Suc [symmetric])

lemma at_pos_Cons: "at_pos xs p (y # ys) \<longleftrightarrow> p < length xs \<and> xs ! p = y \<and> at_pos xs (Suc p) ys"
  using at_pos_append [of xs p "[y]" ys] at_pos_single [of xs p y] by simp

lemma at_pos_whole: "at_pos xs 0 ys \<longleftrightarrow> (\<exists>zs. xs = ys @ zs)"
proof
  assume "at_pos xs 0 ys"
  then have "take (length ys) xs = ys" by (simp add: at_pos_def slice_def)
  then have "xs = ys @ drop (length ys) xs" by (metis append_take_drop_id)
  then show "\<exists>zs. xs = ys @ zs" by blast
qed (auto simp: at_pos_def slice_def)

lemma at_pos_prefix: "at_pos inp p xs \<Longrightarrow> \<exists>zs. drop p inp = xs @ zs"
  by (metis append_take_drop_id at_pos_def slice_def)

lemma at_pos_unique: "at_pos xs p ys \<Longrightarrow> at_pos xs p zs \<Longrightarrow> length ys = length zs \<Longrightarrow> ys = zs"
  by (metis at_pos_def)

end
