(* ===== verification/Status.thy ===== *)
theory Status
  imports Prelude
begin

text \<open>
  \<open>bencode_status\<close> and \<open>bencode_type\<close> of \<open>include/bencode/bencode.h\<close>, the message table of
  \<open>src/status.c\<close>, and the counted loop that stops at the first status that is not \<open>BENCODE_OK\<close>.
\<close>

section \<open>Status codes\<close>

datatype bencode_status =
    BENCODE_OK
  | BENCODE_ERR_INVALID_ARG
  | BENCODE_ERR_TRUNCATED
  | BENCODE_ERR_UNEXPECTED_BYTE
  | BENCODE_ERR_INTEGER_OVERFLOW
  | BENCODE_ERR_INTEGER_FORMAT
  | BENCODE_ERR_STRING_LENGTH
  | BENCODE_ERR_DICT_UNSORTED
  | BENCODE_ERR_DICT_DUPLICATE
  | BENCODE_ERR_DICT_BAD_KEY
  | BENCODE_ERR_NESTING_TOO_DEEP
  | BENCODE_ERR_NOMEM
  | BENCODE_ERR_IO
  | BENCODE_ERR_USER_ABORTED
  | BENCODE_ERR_DICT_MISSING_VALUE

fun status_code :: "bencode_status \<Rightarrow> int" where
  "status_code BENCODE_OK = 0"
| "status_code BENCODE_ERR_INVALID_ARG = 1"
| "status_code BENCODE_ERR_TRUNCATED = 2"
| "status_code BENCODE_ERR_UNEXPECTED_BYTE = 3"
| "status_code BENCODE_ERR_INTEGER_OVERFLOW = 4"
| "status_code BENCODE_ERR_INTEGER_FORMAT = 5"
| "status_code BENCODE_ERR_STRING_LENGTH = 6"
| "status_code BENCODE_ERR_DICT_UNSORTED = 7"
| "status_code BENCODE_ERR_DICT_DUPLICATE = 8"
| "status_code BENCODE_ERR_DICT_BAD_KEY = 9"
| "status_code BENCODE_ERR_NESTING_TOO_DEEP = 10"
| "status_code BENCODE_ERR_NOMEM = 11"
| "status_code BENCODE_ERR_IO = 12"
| "status_code BENCODE_ERR_USER_ABORTED = 13"
| "status_code BENCODE_ERR_DICT_MISSING_VALUE = 14"

lemma status_code_inject: "status_code a = status_code b \<longleftrightarrow> a = b"
  by (cases a; cases b; simp)

lemma status_code_range: "0 \<le> status_code s \<and> status_code s \<le> 14"
  by (cases s) simp_all

text \<open>The enum is ordered by its values, as C compares it.\<close>

instantiation bencode_status :: linorder
begin

definition less_eq_bencode_status :: "bencode_status \<Rightarrow> bencode_status \<Rightarrow> bool" where
  "less_eq_bencode_status a b \<longleftrightarrow> status_code a \<le> status_code b"

definition less_bencode_status :: "bencode_status \<Rightarrow> bencode_status \<Rightarrow> bool" where
  "less_bencode_status a b \<longleftrightarrow> status_code a < status_code b"

instance
  by standard
    (auto simp: less_eq_bencode_status_def less_bencode_status_def status_code_inject)

end

lemma BENCODE_OK_least: "BENCODE_OK \<le> s"
  by (cases s) (simp_all add: less_eq_bencode_status_def)

text \<open>\<open>bencode_status_string\<close> takes whatever integer the caller passes for the enum; a value outside
  the enum gets the \<open>default\<close> arm.\<close>

definition bencode_status_string :: "int \<Rightarrow> string" where
  "bencode_status_string c =
     (if c = status_code BENCODE_OK then ''ok''
      else if c = status_code BENCODE_ERR_INVALID_ARG then ''invalid argument''
      else if c = status_code BENCODE_ERR_TRUNCATED then ''input truncated mid-value''
      else if c = status_code BENCODE_ERR_UNEXPECTED_BYTE
        then ''unexpected byte where a value was expected''
      else if c = status_code BENCODE_ERR_INTEGER_OVERFLOW then ''integer outside int64_t range''
      else if c = status_code BENCODE_ERR_INTEGER_FORMAT
        then ''malformed integer (leading zero, -0, or empty)''
      else if c = status_code BENCODE_ERR_STRING_LENGTH
        then ''byte-string length exceeds remaining input''
      else if c = status_code BENCODE_ERR_DICT_UNSORTED
        then ''dictionary keys not in lexicographic order''
      else if c = status_code BENCODE_ERR_DICT_DUPLICATE then ''dictionary contains duplicate key''
      else if c = status_code BENCODE_ERR_DICT_BAD_KEY then ''dictionary key is not a byte string''
      else if c = status_code BENCODE_ERR_NESTING_TOO_DEEP then ''nesting depth exceeded limit''
      else if c = status_code BENCODE_ERR_NOMEM then ''memory allocation failed''
      else if c = status_code BENCODE_ERR_IO then ''I/O error''
      else if c = status_code BENCODE_ERR_USER_ABORTED then ''parse aborted by caller''
      else if c = status_code BENCODE_ERR_DICT_MISSING_VALUE
        then ''dictionary key has no matching value''
      else ''unknown error'')"

section \<open>Value type tags\<close>

datatype bencode_type = BENCODE_INVALID | BENCODE_INT | BENCODE_STRING | BENCODE_LIST | BENCODE_DICT

primrec type_code :: "bencode_type \<Rightarrow> nat" where
  "type_code BENCODE_INVALID = 0"
| "type_code BENCODE_INT = 1"
| "type_code BENCODE_STRING = 2"
| "type_code BENCODE_LIST = 3"
| "type_code BENCODE_DICT = 4"

section \<open>Counted loops with early return\<close>

text \<open>\<open>for (i = lo; i < lo + n; ++i) \<lbrace> st = body(i); if (st != BENCODE_OK) return st; \<rbrace>\<close>, where the body
  may also have no defined result.\<close>

primrec for_ok :: "(nat \<Rightarrow> 's \<Rightarrow> (bencode_status \<times> 's) option) \<Rightarrow> nat \<Rightarrow> nat \<Rightarrow> 's
    \<Rightarrow> (bencode_status \<times> 's) option" where
  "for_ok body lo 0 s = Some (BENCODE_OK, s)"
| "for_ok body lo (Suc n) s = do {
     (st, s') \<leftarrow> body lo s;
     if st \<noteq> BENCODE_OK then Some (st, s') else for_ok body (Suc lo) n s'
   }"

text \<open>The invariant rule: the invariant \<open>I\<close> holds at every index that the loop reaches, and \<open>E\<close> holds
  of the status and state with which it leaves early.\<close>

lemma for_ok_invariant:
  assumes "I lo s"
    and "\<And>i s. lo \<le> i \<Longrightarrow> i < lo + n \<Longrightarrow> I i s \<Longrightarrow>
      \<exists>st s'. body i s = Some (st, s') \<and> (st = BENCODE_OK \<longrightarrow> I (Suc i) s')
        \<and> (st \<noteq> BENCODE_OK \<longrightarrow> E st s')"
  shows "\<exists>st s'. for_ok body lo n s = Some (st, s') \<and> (st = BENCODE_OK \<longrightarrow> I (lo + n) s')
        \<and> (st \<noteq> BENCODE_OK \<longrightarrow> E st s')"
  using assms
proof (induction n arbitrary: lo s)
  case 0
  then show ?case by simp
next
  case (Suc n)
  from Suc.prems(2) [of lo s] Suc.prems(1) obtain st s1
    where b: "body lo s = Some (st, s1)" and ok: "st = BENCODE_OK \<Longrightarrow> I (Suc lo) s1"
      and ko: "st \<noteq> BENCODE_OK \<Longrightarrow> E st s1"
    by auto
  show ?case
  proof (cases "st = BENCODE_OK")
    case True
    have "\<exists>st s'. for_ok body (Suc lo) n s1 = Some (st, s')
        \<and> (st = BENCODE_OK \<longrightarrow> I (Suc lo + n) s') \<and> (st \<noteq> BENCODE_OK \<longrightarrow> E st s')"
      using ok [OF True] Suc.prems(2) by (intro Suc.IH) simp_all
    then show ?thesis using b True by simp
  next
    case False
    then show ?thesis using b ko by simp
  qed
qed

text \<open>A loop whose body always succeeds.\<close>

lemma for_ok_all:
  assumes "I lo s"
    and "\<And>i s. lo \<le> i \<Longrightarrow> i < lo + n \<Longrightarrow> I i s \<Longrightarrow>
      \<exists>s'. body i s = Some (BENCODE_OK, s') \<and> I (Suc i) s'"
  shows "\<exists>s'. for_ok body lo n s = Some (BENCODE_OK, s') \<and> I (lo + n) s'"
proof -
  have "\<exists>st s'. for_ok body lo n s = Some (st, s') \<and> (st = BENCODE_OK \<longrightarrow> I (lo + n) s')
      \<and> (st \<noteq> BENCODE_OK \<longrightarrow> False)"
    using assms by (intro for_ok_invariant) fastforce+
  then show ?thesis by auto
qed

end
