(* ===== verification/Bytes.thy ===== *)
theory Bytes
  imports Status
begin

text \<open>
  Byte strings: the lexicographic comparison that the SAX parser (\<open>bytes_cmp\<close> of
  \<open>src/parse_sax.c\<close>) and the dictionary search (\<open>dict_search\<close> of \<open>src/value.c\<close>) write out, the
  interface \<open>key_order\<close> that both meet, and decimal numerals as the parser reads and \<open>printf\<close>
  writes them.
\<close>

section \<open>Comparison\<close>

text \<open>The standard library's \<open>memcmp\<close>; C fixes the sign of the result only, so the model returns
  a sign.\<close>

fun memcmp :: "byte list \<Rightarrow> byte list \<Rightarrow> nat \<Rightarrow> int" where
  "memcmp (x # xs) (y # ys) n =
     (if n = 0 then 0 else if x < y then -1 else if y < x then 1 else memcmp xs ys (n - 1))"
| "memcmp _ _ _ = 0"

definition bytes_cmp :: "byte list \<Rightarrow> byte list \<Rightarrow> int" where
  "bytes_cmp a b =
     (let alen = length a; blen = length b;
          n = (if alen < blen then alen else blen);
          c = (if n = 0 then 0 else memcmp a b n)
      in if c \<noteq> 0 then c
         else if alen < blen then -1
         else if alen > blen then 1
         else 0)"

text \<open>The comparison in the loop of \<open>dict_search\<close>: the entry's key against the wanted key.\<close>

definition entry_cmp :: "byte list \<Rightarrow> byte list \<Rightarrow> int" where
  "entry_cmp ekey key =
     (let n = (if length ekey < length key then length ekey else length key);
          c = (if n = 0 then 0 else memcmp ekey key n)
      in if c = 0 then
           (if length ekey < length key then -1
            else if length ekey > length key then 1 else c)
         else c)"

lemma entry_cmp_bytes_cmp: "entry_cmp a b = bytes_cmp a b"
  by (simp add: entry_cmp_def bytes_cmp_def Let_def)

text \<open>What a client of a comparison relies on: it is a three-way test of the lexicographic order on
  unsigned bytes, a proper prefix being smaller.\<close>

locale key_order =
  fixes cmp :: "byte list \<Rightarrow> byte list \<Rightarrow> int"
  assumes cmp_less: "cmp a b < 0 \<longleftrightarrow> a < b"
    and cmp_zero: "cmp a b = 0 \<longleftrightarrow> a = b"
begin

lemma cmp_greater: "cmp a b > 0 \<longleftrightarrow> b < a"
proof -
  have "cmp a b > 0 \<longleftrightarrow> \<not> cmp a b < 0 \<and> cmp a b \<noteq> 0" by linarith
  then show ?thesis by (auto simp: cmp_less cmp_zero)
qed

lemma cmp_trans: "cmp a b < 0 \<Longrightarrow> cmp b c < 0 \<Longrightarrow> cmp a c < 0"
  by (auto simp: cmp_less)

text \<open>What one comparison tells about a sorted sequence of keys: the halving step of a binary search.\<close>

lemma cmp_right:
  assumes "sorted_wrt (<) ks" and "mid < length ks" and "cmp (ks ! mid) k < 0" and "j \<le> mid"
  shows "ks ! j < k"
proof -
  have "ks ! j < ks ! mid \<or> ks ! j = ks ! mid"
    using sorted_wrt_nth_less [OF assms(1), of j mid] assms(2,4) by (cases "j = mid") auto
  moreover have "ks ! mid < k" using assms(3) by (simp add: cmp_less)
  ultimately show ?thesis by auto
qed

lemma cmp_left:
  assumes "sorted_wrt (<) ks" and "cmp (ks ! mid) k > 0" and "mid \<le> j" and "j < length ks"
  shows "k < ks ! j"
proof -
  have "ks ! mid < ks ! j \<or> ks ! mid = ks ! j"
    using sorted_wrt_nth_less [OF assms(1), of mid j] assms(3,4) by (cases "j = mid") auto
  moreover have "k < ks ! mid" using assms(2) by (simp add: cmp_greater)
  ultimately show ?thesis by auto
qed

end

lemma memcmp_min_less:
  "(if memcmp a b (min (length a) (length b)) = 0 then length a < length b
    else memcmp a b (min (length a) (length b)) < 0) \<longleftrightarrow> a < b"
proof (induction a arbitrary: b)
  case Nil
  then show ?case by (cases b) simp_all
next
  case (Cons x xs)
  show ?case
  proof (cases b)
    case (Cons y ys)
    then show ?thesis using Cons.IH [of ys] by (cases x y rule: linorder_cases) auto
  qed simp
qed

lemma memcmp_min_zero:
  "memcmp a b (min (length a) (length b)) = 0 \<and> length a = length b \<longleftrightarrow> a = b"
proof (induction a arbitrary: b)
  case Nil
  then show ?case by (cases b) simp_all
next
  case (Cons x xs)
  show ?case
  proof (cases b)
    case (Cons y ys)
    then show ?thesis using Cons.IH [of ys] by (cases x y rule: linorder_cases) auto
  qed simp
qed

lemma bytes_cmp_memcmp:
  "bytes_cmp a b =
     (if memcmp a b (min (length a) (length b)) \<noteq> 0 then memcmp a b (min (length a) (length b))
      else if length a < length b then -1 else if length b < length a then 1 else 0)"
  by (auto simp: bytes_cmp_def Let_def min_def)

interpretation bytes_cmp: key_order bytes_cmp
proof
  fix a b
  show "bytes_cmp a b < 0 \<longleftrightarrow> a < b"
    using memcmp_min_less [of a b] by (auto simp: bytes_cmp_memcmp split: if_splits)
  show "bytes_cmp a b = 0 \<longleftrightarrow> a = b"
    using memcmp_min_zero [of a b] by (auto simp: bytes_cmp_memcmp split: if_splits)
qed

interpretation entry_cmp: key_order entry_cmp
  by unfold_locales (simp_all add: entry_cmp_bytes_cmp bytes_cmp.cmp_less bytes_cmp.cmp_zero)

section \<open>Decimal numerals\<close>

definition is_digit :: "byte \<Rightarrow> bool" where
  "is_digit b \<longleftrightarrow> b \<ge> 48 \<and> b \<le> 57"

definition digit_val :: "byte \<Rightarrow> nat" where
  "digit_val b = unat (b - 48)"

definition digit_byte :: "nat \<Rightarrow> byte" where
  "digit_byte d = word_of_nat (48 + d)"

text \<open>The decimal text of a natural number, as \<open>%zu\<close> and \<open>%PRId64\<close> write it.\<close>

fun dec :: "nat \<Rightarrow> byte list" where
  "dec n = (if n < 10 then [digit_byte n] else dec (n div 10) @ [digit_byte (n mod 10)])"

declare dec.simps [simp del]

definition dval :: "byte list \<Rightarrow> nat" where
  "dval ds = foldl (\<lambda>a b. 10 * a + digit_val b) 0 ds"

text \<open>A canonical numeral: digits, at least one, no leading zero.\<close>

definition numeral_ok :: "byte list \<Rightarrow> bool" where
  "numeral_ok ds \<longleftrightarrow> ds \<noteq> [] \<and> (\<forall>b\<in>set ds. is_digit b) \<and> (hd ds = 48 \<longrightarrow> tl ds = [])"

lemma is_digit_unat: "is_digit b \<longleftrightarrow> 48 \<le> unat b \<and> unat b \<le> 57"
  by (simp add: is_digit_def word_le_nat_alt)

lemma digit_val_unat: "is_digit b \<Longrightarrow> digit_val b = unat b - 48"
  by (simp add: digit_val_def is_digit_def unat_sub word_le_nat_alt)

lemma digit_val_less: "is_digit b \<Longrightarrow> digit_val b < 10"
  by (auto simp: digit_val_unat is_digit_unat)

lemma unat_digit_byte: "d < 10 \<Longrightarrow> unat (digit_byte d) = 48 + d"
  by (simp only: digit_byte_def unat_of_nat) simp

lemma is_digit_byte [simp]: "d < 10 \<Longrightarrow> is_digit (digit_byte d)"
  by (simp add: is_digit_unat unat_digit_byte)

lemma digit_val_byte [simp]: "d < 10 \<Longrightarrow> digit_val (digit_byte d) = d"
  by (simp add: digit_val_unat unat_digit_byte)

lemma digit_byte_val [simp]: "is_digit b \<Longrightarrow> digit_byte (digit_val b) = b"
  by (simp add: digit_byte_def digit_val_unat is_digit_unat)

lemma digit_byte_0 [simp]: "digit_byte 0 = 48"
  by (simp add: digit_byte_def)

lemma digit_byte_eq_48: "d < 10 \<Longrightarrow> digit_byte d = 48 \<longleftrightarrow> d = 0"
  using unat_digit_byte [of d] by auto

lemma digit_val_0: "is_digit b \<Longrightarrow> digit_val b = 0 \<longleftrightarrow> b = 48"
  by (metis digit_byte_0 digit_byte_val digit_val_byte zero_less_numeral)

lemma dval_Nil [simp]: "dval [] = 0"
  by (simp add: dval_def)

lemma dval_snoc [simp]: "dval (ds @ [b]) = 10 * dval ds + digit_val b"
  by (simp add: dval_def)

lemma dec_nonempty [simp]: "dec n \<noteq> []"
  by (subst dec.simps) simp

lemma dec_digits: "b \<in> set (dec n) \<Longrightarrow> is_digit b"
proof (induction n rule: dec.induct)
  case (1 n)
  then show ?case by (subst (asm) (2) dec.simps) (auto split: if_splits)
qed

lemma dval_dec [simp]: "dval (dec n) = n"
proof (induction n rule: dec.induct)
  case (1 n)
  then show ?case
    by (cases "n < 10") (simp_all add: dec.simps [of n] dval_def)
qed

lemma dec_hd_zero: "hd (dec n) = 48 \<longleftrightarrow> n = 0"
proof (induction n rule: dec.induct)
  case (1 n)
  show ?case
  proof (cases "n < 10")
    case True
    then show ?thesis by (simp add: dec.simps [of n] digit_byte_eq_48)
  next
    case False
    then show ?thesis using 1 by (simp add: dec.simps [of n] div_eq_0_iff)
  qed
qed

lemma dec_0 [simp]: "dec 0 = [48]"
  by (simp add: dec.simps)

lemma dec_ok: "numeral_ok (dec n)"
  using dec_digits dec_hd_zero [of n] by (auto simp: numeral_ok_def)

lemma numeral_ok_butlast: "numeral_ok (ds @ [b]) \<Longrightarrow> ds \<noteq> [] \<Longrightarrow> numeral_ok ds \<and> hd ds \<noteq> 48"
  by (cases ds) (auto simp: numeral_ok_def)

lemma dec_dval: "numeral_ok ds \<Longrightarrow> dec (dval ds) = ds"
proof (induction ds rule: rev_induct)
  case Nil
  then show ?case by (simp add: numeral_ok_def)
next
  case (snoc b ds)
  then have b: "is_digit b" by (simp add: numeral_ok_def)
  show ?case
  proof (cases "ds = []")
    case True
    then show ?thesis using b digit_val_less [OF b] by (simp add: dval_def dec.simps)
  next
    case False
    with snoc.prems numeral_ok_butlast have ok: "numeral_ok ds" and hd: "hd ds \<noteq> 48" by blast+
    have IH: "dec (dval ds) = ds" using snoc.IH ok .
    then have "dval ds \<noteq> 0" using hd dec_hd_zero by metis
    moreover have "(10 * dval ds + digit_val b) div 10 = dval ds"
      and "(10 * dval ds + digit_val b) mod 10 = digit_val b"
      using digit_val_less [OF b] by simp_all
    ultimately show ?thesis
      using IH b by (simp add: dec.simps [of "10 * dval ds + digit_val b"])
  qed
qed

lemma dec_inject [simp]: "dec m = dec n \<longleftrightarrow> m = n"
  by (metis dval_dec)

lemma dec_length_le: "n < 10 ^ k \<Longrightarrow> 0 < k \<Longrightarrow> length (dec n) \<le> k"
proof (induction n arbitrary: k rule: dec.induct)
  case (1 n)
  show ?case
  proof (cases "n < 10")
    case True
    then show ?thesis using 1 by (simp add: dec.simps [of n])
  next
    case False
    have "k \<noteq> 1" using 1(2) False by auto
    then obtain j where k: "k = Suc j" and j: "0 < j" using 1(3) by (cases k) auto
    have "n div 10 < 10 ^ j" using 1(2) k by (simp add: less_mult_imp_div_less mult.commute)
    then show ?thesis using 1(1) False j k by (simp add: dec.simps [of n])
  qed
qed

end
