(* ===== verification/Codes.thy ===== *)
theory Codes
  imports Prelude
begin

text \<open>
  Codes that can be read back: no code word is the start of another, and the words of a sequence can be told from
  the mark that ends it.  The encoding of values, the entries of a dictionary and the escaped strings of the printer
  are instances.
\<close>

section \<open>Prefix codes\<close>

text \<open>The law is stated for the words of \<open>A\<close>, so that an induction can use it for the parts of a value.\<close>

locale prefix_code =
  fixes code :: "'a \<Rightarrow> 'b list"
    and A :: "'a set"
  assumes code_split: "a \<in> A \<Longrightarrow> code a @ xs = code b @ ys \<Longrightarrow> a = b \<and> xs = ys"
begin

lemma code_inject: "a \<in> A \<Longrightarrow> code a = code b \<longleftrightarrow> a = b"
  using code_split [of a "[]" b "[]"] by auto

text \<open>At one position at most one word can stand.\<close>

lemma at_pos_code_unique:
  assumes "a \<in> A" and "at_pos inp p (code a)" and "at_pos inp p (code b)"
  shows "a = b"
proof -
  obtain xs ys where "drop p inp = code a @ xs" "drop p inp = code b @ ys"
    using at_pos_prefix assms(2,3) by blast
  then show ?thesis using code_split [OF assms(1), of xs b ys] by simp
qed

end

locale marked_code = prefix_code +
  fixes stop :: 'b
  assumes code_not_stop: "code a @ xs \<noteq> stop # ys"
begin

lemma sequence_split:
  "set as \<subseteq> A \<Longrightarrow> concat (map code as) @ stop # xs = concat (map code bs) @ stop # ys \<Longrightarrow> as = bs \<and> xs = ys"
proof (induction as arbitrary: bs)
  case Nil
  then show ?case using code_not_stop [symmetric] by (cases bs) auto
next
  case (Cons a as)
  show ?case
  proof (cases bs)
    case Nil
    then show ?thesis using Cons.prems(2) code_not_stop by auto
  next
    case bs: (Cons b bs')
    have "a = b \<and> concat (map code as) @ stop # xs = concat (map code bs') @ stop # ys"
      by (rule code_split) (use Cons.prems bs in simp_all)
    then show ?thesis using Cons.IH [of bs'] Cons.prems(1) bs by simp
  qed
qed

end

text \<open>Marked sequences are a prefix code again.\<close>

sublocale marked_code \<subseteq> sequence: prefix_code "\<lambda>as. concat (map code as) @ [stop]" "lists A"
  by unfold_locales (use sequence_split in \<open>fastforce simp: lists_eq_set\<close>)

lemma marked_codeI:
  "(\<And>a xs b ys. a \<in> A \<Longrightarrow> code a @ xs = code b @ ys \<Longrightarrow> a = b \<and> xs = ys) \<Longrightarrow> (\<And>a xs ys. code a @ xs \<noteq> stop # ys)
     \<Longrightarrow> marked_code code A stop"
  by unfold_locales blast+

end
