(* ===== verification/Canonical.thy ===== *)
theory Canonical
  imports Bytes Codes
begin

text \<open>
  The specification side: Bencode values as a datatype, their canonical encoding, which values are
  canonical within a nesting budget, and the events that a streaming parser reports for a value that
  stands at a given offset of the input.  Nothing here mentions the C code; the header comment of
  \<open>include/bencode/bencode.h\<close> is its source.
\<close>

section \<open>Values and their encoding\<close>

datatype bval =
    BInt int
  | BStr "byte list"
  | BList "bval list"
  | BDict "(byte list \<times> bval) list"

definition enc_int :: "int \<Rightarrow> byte list" where
  "enc_int i = (if i < 0 then 45 # dec (nat (- i)) else dec (nat i))"

definition enc_str :: "byte list \<Rightarrow> byte list" where
  "enc_str b = dec (length b) @ 58 # b"

fun encode :: "bval \<Rightarrow> byte list" where
  "encode (BInt i) = 105 # enc_int i @ [101]"
| "encode (BStr b) = enc_str b"
| "encode (BList vs) = 108 # concat (map encode vs) @ [101]"
| "encode (BDict es) = 100 # concat (map (\<lambda>(k, v). enc_str k @ encode v) es) @ [101]"

abbreviation encode_items :: "bval list \<Rightarrow> byte list" where
  "encode_items vs \<equiv> concat (map encode vs)"

abbreviation encode_entries :: "(byte list \<times> bval) list \<Rightarrow> byte list" where
  "encode_entries es \<equiv> concat (map (\<lambda>(k, v). enc_str k @ encode v) es)"

text \<open>Canonical values: integers in the range of \<open>int64_t\<close>, lengths in the range of \<open>size_t\<close>,
  dictionary keys strictly increasing, at most \<open>d\<close> containers around any value.\<close>

fun canonical :: "nat \<Rightarrow> bval \<Rightarrow> bool" where
  "canonical d (BInt i) \<longleftrightarrow> INT64_MIN \<le> i \<and> i \<le> INT64_MAX"
| "canonical d (BStr b) \<longleftrightarrow> length b \<le> SIZE_MAX"
| "canonical d (BList vs) \<longleftrightarrow> 0 < d \<and> (\<forall>v\<in>set vs. canonical (d - 1) v)"
| "canonical d (BDict es) \<longleftrightarrow> 0 < d \<and> sorted_wrt (<) (map fst es)
     \<and> (\<forall>(k, v)\<in>set es. length k \<le> SIZE_MAX \<and> canonical (d - 1) v)"

lemma canonical_mono: "canonical d v \<Longrightarrow> d \<le> d' \<Longrightarrow> canonical d' v"
proof (induction d v arbitrary: d' rule: canonical.induct)
  case (3 d vs)
  have "canonical (d' - 1) v" if "v \<in> set vs" for v
    using 3 that by (auto intro: "3.IH")
  then show ?case using 3 by simp
next
  case (4 d es)
  have "canonical (d' - 1) v" if "(k, v) \<in> set es" for k v
    using 4 that by (fastforce intro: "4.IH")
  then show ?case using 4 by fastforce
qed auto

section \<open>The encoding can be read back\<close>

text \<open>First bytes tell the four kinds of values and the end mark apart.\<close>

fun starts :: "bval \<Rightarrow> byte \<Rightarrow> bool" where
  "starts (BInt _) b \<longleftrightarrow> b = 105"
| "starts (BStr _) b \<longleftrightarrow> is_digit b"
| "starts (BList _) b \<longleftrightarrow> b = 108"
| "starts (BDict _) b \<longleftrightarrow> b = 100"

lemma not_digit_marks [simp]:
  "\<not> is_digit 101" "\<not> is_digit 105" "\<not> is_digit 108" "\<not> is_digit 100" "\<not> is_digit 58" "\<not> is_digit 45"
  by (simp_all add: is_digit_def)

lemma dec_Cons: "\<exists>b bs. dec n = b # bs \<and> is_digit b"
  using dec_digits [of "hd (dec n)" n] by (cases "dec n") auto

lemma enc_str_Cons: "\<exists>b bs. enc_str k = b # bs \<and> is_digit b"
  using dec_Cons [of "length k"] by (auto simp: enc_str_def)

lemma encode_Cons: "\<exists>b bs. encode v = b # bs \<and> starts v b"
  using enc_str_Cons by (cases v) auto

lemma encode_nonempty [simp]: "encode v \<noteq> []"
  using encode_Cons [of v] by auto

lemma starts_not_end: "\<not> starts v 101"
  by (cases v) simp_all

lemma starts_kind:
  "starts v b \<Longrightarrow> starts w b \<Longrightarrow>
     (case v of BInt _ \<Rightarrow> \<exists>i. w = BInt i | BStr _ \<Rightarrow> \<exists>b. w = BStr b
      | BList _ \<Rightarrow> \<exists>vs. w = BList vs | BDict _ \<Rightarrow> \<exists>es. w = BDict es)"
  by (cases v; cases w) auto

lemma encode_same_start:
  assumes "encode v @ xs = encode w @ ys"
  obtains b where "starts v b" and "starts w b"
  using assms encode_Cons [of v] encode_Cons [of w] by auto

lemma encode_not_end: "encode v @ xs \<noteq> 101 # ys"
  using encode_Cons [of v] starts_not_end [of v] by auto

lemma enc_str_not_end: "enc_str k @ xs \<noteq> 101 # ys"
  using enc_str_Cons [of k] not_digit_marks(1) by auto

lemma dec_not_minus: "dec m @ xs \<noteq> 45 # ys"
  using dec_Cons [of m] not_digit_marks(6) by auto

text \<open>A numeral ends where the digits end.\<close>

lemma digits_split:
  assumes "xs @ x # us = ys @ y # vs" and "\<forall>b\<in>set xs. is_digit b" and "\<forall>b\<in>set ys. is_digit b"
    and "\<not> is_digit x" and "\<not> is_digit y"
  shows "xs = ys \<and> x = y \<and> us = vs"
  using assms
proof (induction xs arbitrary: ys)
  case Nil
  then show ?case by (cases ys) auto
next
  case (Cons b bs)
  then show ?case by (cases ys) auto
qed

lemma dec_split:
  assumes "dec m @ x # us = dec n @ y # vs" and "\<not> is_digit x" and "\<not> is_digit y"
  shows "m = n \<and> x = y \<and> us = vs"
  using digits_split [OF assms(1)] assms(2,3) dec_digits by auto

lemma enc_str_split:
  assumes "enc_str a @ xs = enc_str b @ ys"
  shows "a = b \<and> xs = ys"
proof -
  have *: "length a = length b \<and> (58 :: byte) = 58 \<and> a @ xs = b @ ys"
    by (rule dec_split) (use assms in \<open>simp_all add: enc_str_def\<close>)
  then have "length a = length b" and "a @ xs = b @ ys" by blast+
  then show ?thesis by simp
qed

lemma enc_int_split:
  assumes "enc_int i @ 101 # xs = enc_int j @ 101 # ys"
  shows "i = j \<and> xs = ys"
proof (cases "i < 0"; cases "j < 0")
  assume "i < 0" "j < 0"
  then show ?thesis using assms dec_split [of "nat (- i)" 101 xs "nat (- j)" 101 ys]
    by (auto simp: enc_int_def)
next
  assume "\<not> i < 0" "\<not> j < 0"
  then show ?thesis using assms dec_split [of "nat i" 101 xs "nat j" 101 ys]
    by (auto simp: enc_int_def nat_eq_iff)
qed (use assms dec_not_minus dec_not_minus [symmetric] in \<open>auto simp: enc_int_def\<close>)

abbreviation enc_entry :: "byte list \<times> bval \<Rightarrow> byte list" where
  "enc_entry \<equiv> \<lambda>(k, v). enc_str k @ encode v"

lemma entry_split:
  assumes "enc_entry e @ xs = enc_entry f @ ys"
    and "\<And>w us zs. encode (snd e) @ us = encode w @ zs \<Longrightarrow> snd e = w \<and> us = zs"
  shows "e = f \<and> xs = ys"
proof -
  obtain k v k' w where kv: "e = (k, v)" "f = (k', w)" by (cases e; cases f)
  have s: "k = k' \<and> encode v @ xs = encode w @ ys" by (rule enc_str_split) (use assms(1) kv in simp)
  then have "encode (snd e) @ xs = encode w @ ys" using kv by simp
  from assms(2) [OF this] show ?thesis using s kv by simp
qed

lemma entry_not_end: "enc_entry e @ xs \<noteq> 101 # ys"
  using enc_str_not_end by (cases e) auto

text \<open>The encoding is prefix-free: what follows a value does not change how it is read.\<close>

lemma encode_split: "encode v @ xs = encode w @ ys \<Longrightarrow> v = w \<and> xs = ys"
proof (induction v arbitrary: w xs ys rule: encode.induct)
  case (1 i)
  from "1.prems" obtain b where "starts (BInt i) b" "starts w b" by (rule encode_same_start)
  from starts_kind [OF this] obtain j where w: "w = BInt j" by auto
  then show ?case using "1.prems" enc_int_split [of i xs j ys] by simp
next
  case (2 b)
  from "2.prems" obtain c where "starts (BStr b) c" "starts w c" by (rule encode_same_start)
  from starts_kind [OF this] obtain b' where w: "w = BStr b'" by auto
  then show ?case using "2.prems" enc_str_split [of b xs b' ys] by simp
next
  case (3 vs)
  from "3.prems" obtain b where "starts (BList vs) b" "starts w b" by (rule encode_same_start)
  from starts_kind [OF this] obtain ws where w: "w = BList ws" by auto
  have "marked_code encode (set vs) 101" by (rule marked_codeI [OF "3.IH" encode_not_end])
  from marked_code.sequence_split [OF this, of vs xs ws ys] show ?case using "3.prems" w by simp
next
  case (4 es)
  from "4.prems" obtain b where "starts (BDict es) b" "starts w b" by (rule encode_same_start)
  from starts_kind [OF this] obtain fs where w: "w = BDict fs" by auto
  have "marked_code enc_entry (set es) 101"
  proof (rule marked_codeI [OF _ entry_not_end])
    fix e f xs ys
    assume e: "e \<in> set es" and eq: "enc_entry e @ xs = enc_entry f @ ys"
    show "e = f \<and> xs = ys" by (rule entry_split [OF eq]) (rule "4.IH" [OF e prod.collapse])
  qed
  from marked_code.sequence_split [OF this, of es xs fs ys] show ?case using "4.prems" w by simp
qed

text \<open>The codes of the encoding: strings, values, the content of lists, and the content of dictionaries.\<close>

interpretation strings: prefix_code enc_str UNIV
  by unfold_locales (rule enc_str_split)

interpretation encoded: prefix_code encode UNIV
  by unfold_locales (rule encode_split)

interpretation items: marked_code encode UNIV 101
  by unfold_locales (rule encode_not_end)

interpretation entries: marked_code enc_entry UNIV 101
  by unfold_locales (erule entry_split, erule encode_split, rule entry_not_end)

lemma encode_inject: "encode v = encode w \<longleftrightarrow> v = w"
  by (rule encoded.code_inject) simp

section \<open>Dictionaries as sorted association lists\<close>

text \<open>Setting a key: the entry goes where the order wants it, or replaces the one with the same key.\<close>

definition insert_key :: "byte list \<Rightarrow> 'v \<Rightarrow> (byte list \<times> 'v) list \<Rightarrow> (byte list \<times> 'v) list" where
  "insert_key k v es =
     takeWhile (\<lambda>e. fst e < k) es @ (k, v) # dropWhile (\<lambda>e. fst e \<le> k) es"

lemma insert_key_split:
  assumes "\<forall>e\<in>set xs. fst e < k" and "\<forall>e\<in>set mid. fst e = k" and "\<forall>e\<in>set ys. k < fst e"
  shows "insert_key k v (xs @ mid @ ys) = xs @ (k, v) # ys"
proof -
  have "takeWhile (\<lambda>e. fst e < k) (mid @ ys) = []"
    using assms(2,3) by (cases mid; cases ys) auto
  then have "takeWhile (\<lambda>e. fst e < k) (xs @ mid @ ys) = xs"
    using assms(1) by (simp add: takeWhile_append)
  moreover have "dropWhile (\<lambda>e. fst e \<le> k) ys = ys"
    using assms(3) by (cases ys) auto
  then have "dropWhile (\<lambda>e. fst e \<le> k) (xs @ mid @ ys) = ys"
    using assms(1,2) by (auto simp: dropWhile_append)
  ultimately show ?thesis by (simp add: insert_key_def)
qed

lemma insert_key_last: "\<forall>e\<in>set es. fst e < k \<Longrightarrow> insert_key k v es = es @ [(k, v)]"
  using insert_key_split [of es k "[]" "[]" v] by simp

text \<open>Every sorted list splits at a key.\<close>

lemma sorted_split:
  fixes es :: "(byte list \<times> 'v) list"
  assumes "sorted_wrt (<) (map fst es)"
  obtains xs mid ys where "es = xs @ mid @ ys" and "\<forall>e\<in>set xs. fst e < k"
    and "\<forall>e\<in>set mid. fst e = k" and "\<forall>e\<in>set ys. k < fst e"
proof -
  have "\<exists>xs mid ys. es = xs @ mid @ ys \<and> (\<forall>e\<in>set xs. fst e < k)
      \<and> (\<forall>e\<in>set mid. fst e = k) \<and> (\<forall>e\<in>set ys. k < fst e)"
    using assms
  proof (induction es)
    case (Cons e es)
    show ?case
    proof (cases "fst e < k")
      case True
      from Cons obtain xs mid ys where "es = xs @ mid @ ys" "\<forall>e\<in>set xs. fst e < k"
        "\<forall>e\<in>set mid. fst e = k" "\<forall>e\<in>set ys. k < fst e" by auto
      then show ?thesis using True by (intro exI [of _ "e # xs"] exI [of _ mid] exI [of _ ys]) simp
    next
      case False
      show ?thesis
      proof (cases "fst e = k")
        case True
        then show ?thesis using Cons.prems
          by (intro exI [of _ "[]"] exI [of _ "[e]"] exI [of _ es]) auto
      next
        case gt: False
        have "k < fst e" using False gt by (metis linorder_neqE)
        moreover have "k < fst x" if "x \<in> set es" for x
          using Cons.prems that \<open>k < fst e\<close> by fastforce
        ultimately show ?thesis
          by (intro exI [of _ "[]"] exI [of _ "[]"] exI [of _ "e # es"]) simp
      qed
    qed
  qed simp
  then show thesis using that by blast
qed

lemma insert_key_sorted:
  assumes "sorted_wrt (<) (map fst es)"
  shows "sorted_wrt (<) (map fst (insert_key k v es))"
proof -
  obtain xs mid ys where s: "es = xs @ mid @ ys" "\<forall>e\<in>set xs. fst e < k"
    "\<forall>e\<in>set mid. fst e = k" "\<forall>e\<in>set ys. k < fst e" by (rule sorted_split [OF assms])
  have "\<forall>x\<in>set xs. \<forall>y\<in>set ys. fst x < fst y" using s(2,4) by (blast intro: less_trans)
  then show ?thesis using assms s by (auto simp: insert_key_split sorted_wrt_append)
qed

lemma insert_key_map_of:
  assumes "sorted_wrt (<) (map fst es)"
  shows "map_of (insert_key k v es) = (map_of es)(k \<mapsto> v)"
proof -
  obtain xs mid ys where s: "es = xs @ mid @ ys" "\<forall>e\<in>set xs. fst e < k"
    "\<forall>e\<in>set mid. fst e = k" "\<forall>e\<in>set ys. k < fst e" by (rule sorted_split [OF assms])
  have "map_of ys x = None" if "x \<le> k" for x
    using s(4) that by (auto simp: map_of_eq_None_iff dest: leD)
  moreover have "map_of mid x = None" if "x \<noteq> k" for x
    using s(3) that by (auto simp: map_of_eq_None_iff)
  moreover have "map_of xs k = None" using s(2) by (auto simp: map_of_eq_None_iff)
  ultimately show ?thesis unfolding s(1) insert_key_split [OF s(2-4)]
    by (auto simp: map_add_def fun_eq_iff split: option.splits)
qed

section \<open>Events\<close>

text \<open>One event per callback invocation; a string event carries the offset and length of its bytes in
  the input.\<close>

datatype event =
    EInt bencode_int_t
  | EStr nat nat
  | EListBegin
  | EListEnd
  | EDictBegin
  | EDictEnd

fun events :: "nat \<Rightarrow> bval \<Rightarrow> event list"
  and events_items :: "nat \<Rightarrow> bval list \<Rightarrow> event list"
  and events_entries :: "nat \<Rightarrow> (byte list \<times> bval) list \<Rightarrow> event list" where
  "events p (BInt i) = [EInt (word_of_int i)]"
| "events p (BStr b) = [EStr (p + length (dec (length b)) + 1) (length b)]"
| "events p (BList vs) = EListBegin # events_items (p + 1) vs @ [EListEnd]"
| "events p (BDict es) = EDictBegin # events_entries (p + 1) es @ [EDictEnd]"
| "events_items p [] = []"
| "events_items p (v # vs) = events p v @ events_items (p + length (encode v)) vs"
| "events_entries p [] = []"
| "events_entries p ((k, v) # es) =
     EStr (p + length (dec (length k)) + 1) (length k) # events (p + length (enc_str k)) v
       @ events_entries (p + length (enc_str k) + length (encode v)) es"

text \<open>Each event stands for at least one byte.\<close>

lemma length_events:
  "length (events p v) \<le> length (encode v)"
  "length (events_items p vs) \<le> length (encode_items vs)"
  "length (events_entries p es) \<le> length (encode_entries es)"
proof (induction p v and p vs and p es rule: events_events_items_events_entries.induct)
  case (2 p b)
  then show ?case by (simp add: enc_str_def)
next
  case (8 p k v es)
  then show ?case by (simp add: enc_str_def)
qed auto

end
