(* ===== verification/Sax.thy ===== *)
theory Sax
  imports Canonical
begin

text \<open>
  The SAX parser, \<open>src/parse_sax.c\<close>, function by function.

  The input buffer is a byte list \<open>inp\<close>; a pointer into it is an offset from \<open>origin\<close>, so \<open>s->p\<close> is
  \<open>cur s\<close> and \<open>s->end\<close> is \<open>lim s\<close>.  \<open>peek\<close> outside the buffer, and a scope index outside the
  256-entry scope array or of an entry that was never written, is undefined (\<open>None\<close>).  The callback
  table is a parameter: every callback may change the user state \<open>'u\<close>, return any status, or have no
  defined result.

  \<open>parse_value\<close> spends one unit of fuel per level of nesting, and the \<open>while (1)\<close> loops of \<open>parse_list\<close>
  and \<open>parse_dict\<close> one unit per iteration.  The entry point starts with \<open>input_size + 1\<close>, which theory
  \<open>Sax_Run\<close> proves to be enough, because a level and an iteration consume at least one byte each.
\<close>

section \<open>State and callbacks\<close>

record sax_scope =
  is_dict :: bool
  expecting_key :: bool
  last_key :: "nat option"
  last_key_len :: nat

record sax_state =
  cur :: nat
  lim :: nat
  depth :: nat
  max_depth :: nat
  scopes :: "sax_scope option list"

definition BENCODE_DEFAULT_MAX_DEPTH :: nat where
  "BENCODE_DEFAULT_MAX_DEPTH = 64"

definition BENCODE_INTERNAL_MAX_DEPTH :: nat where
  "BENCODE_INTERNAL_MAX_DEPTH = 256"

text \<open>A field of the table is \<open>None\<close> where the C pointer is NULL.\<close>

record 'u bencode_callbacks =
  on_int :: "(bencode_int_t \<Rightarrow> 'u \<Rightarrow> (bencode_status \<times> 'u) option) option"
  on_string :: "(nat \<Rightarrow> nat \<Rightarrow> 'u \<Rightarrow> (bencode_status \<times> 'u) option) option"
  on_list_begin :: "('u \<Rightarrow> (bencode_status \<times> 'u) option) option"
  on_list_end :: "('u \<Rightarrow> (bencode_status \<times> 'u) option) option"
  on_dict_begin :: "('u \<Rightarrow> (bencode_status \<times> 'u) option) option"
  on_dict_end :: "('u \<Rightarrow> (bencode_status \<times> 'u) option) option"

text \<open>\<open>if (s->cb != NULL && s->cb->f != NULL) return s->cb->f(..., s->user); return BENCODE_OK;\<close>, once
  per kind of event.\<close>

definition callback :: "('u bencode_callbacks \<Rightarrow> ('u \<Rightarrow> (bencode_status \<times> 'u) option) option)
    \<Rightarrow> 'u bencode_callbacks option \<Rightarrow> 'u \<Rightarrow> (bencode_status \<times> 'u) option" where
  "callback field cb u =
     (case cb of
        None \<Rightarrow> Some (BENCODE_OK, u)
      | Some c \<Rightarrow> (case field c of None \<Rightarrow> Some (BENCODE_OK, u) | Some f \<Rightarrow> f u))"

fun deliver :: "'u bencode_callbacks option \<Rightarrow> event \<Rightarrow> 'u \<Rightarrow> (bencode_status \<times> 'u) option" where
  "deliver cb (EInt v) u = callback (\<lambda>c. map_option (\<lambda>f. f v) (on_int c)) cb u"
| "deliver cb (EStr off len) u = callback (\<lambda>c. map_option (\<lambda>f. f off len) (on_string c)) cb u"
| "deliver cb EListBegin u = callback on_list_begin cb u"
| "deliver cb EListEnd u = callback on_list_end cb u"
| "deliver cb EDictBegin u = callback on_dict_begin cb u"
| "deliver cb EDictEnd u = callback on_dict_end cb u"

section \<open>Cursor helpers\<close>

definition at_end :: "sax_state \<Rightarrow> bool" where
  "at_end s \<longleftrightarrow> cur s \<ge> lim s"

definition peek :: "byte list \<Rightarrow> sax_state \<Rightarrow> byte option" where
  "peek inp s = (if cur s < length inp then Some (inp ! cur s) else None)"

definition advance :: "nat \<Rightarrow> sax_state \<Rightarrow> sax_state" where
  "advance n s = s\<lparr>cur := cur s + n\<rparr>"

definition read_input :: "byte list \<Rightarrow> nat \<Rightarrow> nat \<Rightarrow> byte list option" where
  "read_input inp off len = (if off + len \<le> length inp then Some (slice inp off len) else None)"

section \<open>Integers\<close>

text \<open>The loop of \<open>parse_unsigned\<close>, on 64-bit words.\<close>

function parse_digits :: "byte list \<Rightarrow> sax_state \<Rightarrow> 64 word \<Rightarrow> 64 word
    \<Rightarrow> (bencode_status \<times> 64 word \<times> sax_state) option" where
  "parse_digits inp s acc max_mag =
     (if at_end s then Some (BENCODE_OK, acc, s)
      else do {
        b \<leftarrow> peek inp s;
        if \<not> is_digit b then Some (BENCODE_OK, acc, s)
        else let digit = (ucast (b - 48) :: 64 word) in
          if acc > (max_mag - digit) div 10 then Some (BENCODE_ERR_INTEGER_OVERFLOW, acc, s)
          else parse_digits inp (advance 1 s) (acc * 10 + digit) max_mag
      })"
  by pat_completeness auto
termination
  by (relation "measure (\<lambda>(inp, s, acc, max_mag). lim s - cur s)") (auto simp: at_end_def advance_def)

declare parse_digits.simps [simp del]

text \<open>On failure the out-parameter keeps the 0 with which both callers initialise it.\<close>

definition parse_unsigned :: "byte list \<Rightarrow> sax_state \<Rightarrow> 64 word
    \<Rightarrow> (bencode_status \<times> 64 word \<times> sax_state) option" where
  "parse_unsigned inp s max_mag =
     (if at_end s then Some (BENCODE_ERR_TRUNCATED, 0, s)
      else do {
        first \<leftarrow> peek inp s;
        if \<not> is_digit first then Some (BENCODE_ERR_INTEGER_FORMAT, 0, s)
        else do {
          let s1 = advance 1 s;
          let acc = (ucast (first - 48) :: 64 word);
          leading \<leftarrow> (if first = 48 \<and> \<not> at_end s1
                      then do { b \<leftarrow> peek inp s1; Some (is_digit b) } else Some False);
          if leading then Some (BENCODE_ERR_INTEGER_FORMAT, 0, s1)
          else do {
            (st, mag, s2) \<leftarrow> parse_digits inp s1 acc max_mag;
            if st \<noteq> BENCODE_OK then Some (st, 0, s2) else Some (BENCODE_OK, mag, s2)
          }
        }
      })"

text \<open>Negating an \<open>int64_t\<close>: undefined for \<open>INT64_MIN\<close>.\<close>

definition neg_int64 :: "bencode_int_t \<Rightarrow> bencode_int_t option" where
  "neg_int64 v = (if sint v = INT64_MIN then None else Some (- v))"

definition parse_int :: "byte list \<Rightarrow> 'u bencode_callbacks option \<Rightarrow> sax_state \<Rightarrow> 'u
    \<Rightarrow> (bencode_status \<times> sax_state \<times> 'u) option" where
  "parse_int inp cb s0 u = do {
     let s1 = advance 1 s0;
     negative \<leftarrow> (if at_end s1 then Some False else do { b \<leftarrow> peek inp s1; Some (b = 45) });
     let s2 = (if negative then advance 1 s1 else s1);
     if at_end s2 then Some (BENCODE_ERR_TRUNCATED, s2, u)
     else do {
       b \<leftarrow> peek inp s2;
       if \<not> is_digit b then Some (BENCODE_ERR_INTEGER_FORMAT, s2, u)
       else do {
         let pos_max = (word_of_int INT64_MAX :: 64 word);
         let neg_max = pos_max + 1;
         (st, mag, s3) \<leftarrow> parse_unsigned inp s2 (if negative then neg_max else pos_max);
         if st \<noteq> BENCODE_OK then Some (st, s3, u)
         else if negative \<and> mag = 0 then Some (BENCODE_ERR_INTEGER_FORMAT, s3, u)
         else if at_end s3 then Some (BENCODE_ERR_TRUNCATED, s3, u)
         else do {
           e \<leftarrow> peek inp s3;
           if e \<noteq> 101 then Some (BENCODE_ERR_UNEXPECTED_BYTE, s3, u)
           else do {
             let s4 = advance 1 s3;
             value \<leftarrow> (if negative
                       then if mag = neg_max then Some (word_of_int INT64_MIN) else neg_int64 mag
                       else Some mag);
             (st, u) \<leftarrow> deliver cb (EInt value) u;
             Some (st, s4, u)
           }
         }
       }
     }
   }"

section \<open>Strings\<close>

text \<open>The result is the status, the offset and length of the payload, and the state.\<close>

definition parse_string :: "byte list \<Rightarrow> sax_state
    \<Rightarrow> (bencode_status \<times> nat \<times> nat \<times> sax_state) option" where
  "parse_string inp s = do {
     (st, mag, s1) \<leftarrow> parse_unsigned inp s (word_of_nat SIZE_MAX);
     if st \<noteq> BENCODE_OK then Some (st, 0, 0, s1)
     else if at_end s1 then Some (BENCODE_ERR_TRUNCATED, 0, 0, s1)
     else do {
       b \<leftarrow> peek inp s1;
       if b \<noteq> 58 then Some (BENCODE_ERR_UNEXPECTED_BYTE, 0, 0, s1)
       else do {
         let s2 = advance 1 s1;
         let len = unat mag;
         let remaining = lim s2 - cur s2;
         if len > remaining then Some (BENCODE_ERR_STRING_LENGTH, 0, 0, s2)
         else Some (BENCODE_OK, cur s2, len, advance len s2)
       }
     }
   }"

section \<open>Scopes\<close>

definition get_scope :: "sax_state \<Rightarrow> nat \<Rightarrow> sax_scope option" where
  "get_scope s i = (if i < length (scopes s) then scopes s ! i else None)"

definition put_scope :: "sax_state \<Rightarrow> nat \<Rightarrow> sax_scope \<Rightarrow> sax_state option" where
  "put_scope s i sc =
     (if i < length (scopes s) then Some (s\<lparr>scopes := (scopes s)[i := Some sc]\<rparr>) else None)"

definition push_scope :: "sax_state \<Rightarrow> bool \<Rightarrow> (bencode_status \<times> sax_state) option" where
  "push_scope s dict =
     (if depth s \<ge> max_depth s then Some (BENCODE_ERR_NESTING_TOO_DEEP, s)
      else do {
        s1 \<leftarrow> put_scope s (depth s)
               \<lparr>is_dict = dict, expecting_key = dict, last_key = None, last_key_len = 0\<rparr>;
        Some (BENCODE_OK, s1\<lparr>depth := depth s1 + 1\<rparr>)
      })"

definition pop_scope :: "sax_state \<Rightarrow> sax_state" where
  "pop_scope s = s\<lparr>depth := depth s - 1\<rparr>"

section \<open>Containers\<close>

text \<open>\<open>parse_dict_key\<close>: the scope \<open>sc\<close> is the array entry at index \<open>i\<close>.\<close>

definition parse_dict_key :: "byte list \<Rightarrow> 'u bencode_callbacks option \<Rightarrow> sax_state \<Rightarrow> nat \<Rightarrow> 'u
    \<Rightarrow> (bencode_status \<times> sax_state \<times> 'u) option" where
  "parse_dict_key inp cb s i u = do {
     b \<leftarrow> peek inp s;
     if \<not> is_digit b then Some (BENCODE_ERR_DICT_BAD_KEY, s, u)
     else do {
       (st, key, key_len, s1) \<leftarrow> parse_string inp s;
       if st \<noteq> BENCODE_OK then Some (st, s1, u)
       else do {
         sc \<leftarrow> get_scope s1 i;
         c \<leftarrow> (case last_key sc of
                 None \<Rightarrow> Some (-1)
               | Some lk \<Rightarrow> do {
                   prev \<leftarrow> read_input inp lk (last_key_len sc);
                   this \<leftarrow> read_input inp key key_len;
                   Some (bytes_cmp prev this)
                 });
         if c = 0 then Some (BENCODE_ERR_DICT_DUPLICATE, s1, u)
         else if c > 0 then Some (BENCODE_ERR_DICT_UNSORTED, s1, u)
         else do {
           s2 \<leftarrow> put_scope s1 i
                  (sc\<lparr>last_key := Some key, last_key_len := key_len, expecting_key := False\<rparr>);
           (st, u) \<leftarrow> deliver cb (EStr key key_len) u;
           Some (st, s2, u)
         }
       }
     }
   }"

text \<open>The string arm of \<open>parse_value\<close>.\<close>

definition parse_string_value :: "byte list \<Rightarrow> 'u bencode_callbacks option \<Rightarrow> sax_state \<Rightarrow> 'u
    \<Rightarrow> (bencode_status \<times> sax_state \<times> 'u) option" where
  "parse_string_value inp cb s u = do {
     (st, bytes, len, s1) \<leftarrow> parse_string inp s;
     if st \<noteq> BENCODE_OK then Some (st, s1, u)
     else do {
       (st, u) \<leftarrow> deliver cb (EStr bytes len) u;
       Some (st, s1, u)
     }
   }"

text \<open>
  \<open>parse_value\<close> and the container parsers call each other.  The loops of \<open>parse_list\<close> and \<open>parse_dict\<close>
  are written over the value parser \<open>pv\<close> that they call, and count their iterations down; \<open>parse_value\<close>
  then closes the recursion, handing the loops itself with one unit of fuel less.
\<close>

type_synonym 'u sax_parser = "sax_state \<Rightarrow> 'u \<Rightarrow> (bencode_status \<times> sax_state \<times> 'u) option"

primrec parse_list_loop :: "'u sax_parser \<Rightarrow> byte list \<Rightarrow> 'u bencode_callbacks option \<Rightarrow> nat
    \<Rightarrow> 'u sax_parser" where
  "parse_list_loop pv inp cb 0 s u = None"
| "parse_list_loop pv inp cb (Suc n) s u =
     (if at_end s then Some (BENCODE_ERR_TRUNCATED, pop_scope s, u)
      else do {
        b \<leftarrow> peek inp s;
        if b = 101 then do {
          (st, u) \<leftarrow> deliver cb EListEnd u;
          Some (st, pop_scope (advance 1 s), u)
        }
        else do {
          (st, s, u) \<leftarrow> pv s u;
          if st \<noteq> BENCODE_OK then Some (st, pop_scope s, u)
          else parse_list_loop pv inp cb n s u
        }
      })"

definition parse_list :: "'u sax_parser \<Rightarrow> byte list \<Rightarrow> 'u bencode_callbacks option \<Rightarrow> nat
    \<Rightarrow> 'u sax_parser" where
  "parse_list pv inp cb n s u = do {
     (st, s) \<leftarrow> push_scope (advance 1 s) False;
     if st \<noteq> BENCODE_OK then Some (st, s, u)
     else do {
       (st, u) \<leftarrow> deliver cb EListBegin u;
       if st \<noteq> BENCODE_OK then Some (st, pop_scope s, u)
       else parse_list_loop pv inp cb n s u
     }
   }"

primrec parse_dict_loop :: "'u sax_parser \<Rightarrow> byte list \<Rightarrow> 'u bencode_callbacks option \<Rightarrow> nat
    \<Rightarrow> 'u sax_parser" where
  "parse_dict_loop pv inp cb 0 s u = None"
| "parse_dict_loop pv inp cb (Suc n) s u =
     (if at_end s then Some (BENCODE_ERR_TRUNCATED, pop_scope s, u)
      else do {
        let i = depth s - 1;
        sc \<leftarrow> get_scope s i;
        b \<leftarrow> peek inp s;
        if b = 101 then
          (if \<not> expecting_key sc then Some (BENCODE_ERR_DICT_MISSING_VALUE, pop_scope s, u)
           else do {
             (st, u) \<leftarrow> deliver cb EDictEnd u;
             Some (st, pop_scope (advance 1 s), u)
           })
        else if expecting_key sc then do {
          (st, s, u) \<leftarrow> parse_dict_key inp cb s i u;
          if st \<noteq> BENCODE_OK then Some (st, pop_scope s, u)
          else parse_dict_loop pv inp cb n s u
        }
        else do {
          (st, s, u) \<leftarrow> pv s u;
          if st \<noteq> BENCODE_OK then Some (st, pop_scope s, u)
          else do {
            sc \<leftarrow> get_scope s i;
            s \<leftarrow> put_scope s i (sc\<lparr>expecting_key := True\<rparr>);
            parse_dict_loop pv inp cb n s u
          }
        }
      })"

definition parse_dict :: "'u sax_parser \<Rightarrow> byte list \<Rightarrow> 'u bencode_callbacks option \<Rightarrow> nat
    \<Rightarrow> 'u sax_parser" where
  "parse_dict pv inp cb n s u = do {
     (st, s) \<leftarrow> push_scope (advance 1 s) True;
     if st \<noteq> BENCODE_OK then Some (st, s, u)
     else do {
       (st, u) \<leftarrow> deliver cb EDictBegin u;
       if st \<noteq> BENCODE_OK then Some (st, pop_scope s, u)
       else parse_dict_loop pv inp cb n s u
     }
   }"

primrec parse_value :: "byte list \<Rightarrow> 'u bencode_callbacks option \<Rightarrow> nat \<Rightarrow> 'u sax_parser" where
  "parse_value inp cb 0 = (\<lambda>s u. None)"
| "parse_value inp cb (Suc n) = (\<lambda>s u.
     if at_end s then Some (BENCODE_ERR_TRUNCATED, s, u)
     else do {
       b \<leftarrow> peek inp s;
       if b = 105 then parse_int inp cb s u
       else if b = 108 then parse_list (parse_value inp cb n) inp cb n s u
       else if b = 100 then parse_dict (parse_value inp cb n) inp cb n s u
       else if is_digit b then parse_string_value inp cb s u
       else Some (BENCODE_ERR_UNEXPECTED_BYTE, s, u)
     })"

section \<open>Entry point\<close>

text \<open>The effective nesting limit: \<open>0\<close> selects the default, and nothing exceeds the internal cap.\<close>

definition effective_depth :: "nat \<Rightarrow> nat" where
  "effective_depth md =
     (let effective = (if md = 0 then BENCODE_DEFAULT_MAX_DEPTH else md)
      in if effective > BENCODE_INTERNAL_MAX_DEPTH then BENCODE_INTERNAL_MAX_DEPTH else effective)"

definition init_state :: "nat \<Rightarrow> nat \<Rightarrow> sax_state" where
  "init_state input_size md =
     \<lparr>cur = 0, lim = input_size, depth = 0, max_depth = effective_depth md,
      scopes = replicate BENCODE_INTERNAL_MAX_DEPTH None\<rparr>"

text \<open>\<open>input = None\<close> is a NULL pointer.  The result is the status, the value stored through
  \<open>consumed\<close> (when that pointer is not NULL) and the final user state.\<close>

definition bencode_parse_sax :: "byte list option \<Rightarrow> nat \<Rightarrow> 'u bencode_callbacks option \<Rightarrow> 'u \<Rightarrow> nat
    \<Rightarrow> (bencode_status \<times> nat \<times> 'u) option" where
  "bencode_parse_sax input input_size cb user md =
     (if input = None \<and> input_size \<noteq> 0 then Some (BENCODE_ERR_INVALID_ARG, 0, user)
      else if input_size = 0 then Some (BENCODE_ERR_TRUNCATED, 0, user)
      else do {
        inp \<leftarrow> input;
        (st, s, u) \<leftarrow> parse_value inp cb (input_size + 1) (init_state input_size md) user;
        Some (st, cur s, u)
      })"

end
