(* ===== verification/Sax_Lex.thy ===== *)
theory Sax_Lex
  imports Sax
begin

text \<open>
  The scanners of \<open>src/parse_sax.c\<close> against the text they read: \<open>parse_unsigned\<close> on every input, the
  exactness of its overflow guard on 64-bit words, and \<open>parse_int\<close> and \<open>parse_string\<close> as "either the
  canonical text of a value stands at the cursor and is consumed, or no such text stands there and the
  scanner fails without calling back".
\<close>

section \<open>Cursor lemmas\<close>

lemma advance_simps [simp]:
  "cur (advance n s) = cur s + n" "lim (advance n s) = lim s" "depth (advance n s) = depth s"
  "max_depth (advance n s) = max_depth s" "scopes (advance n s) = scopes s"
  "advance 0 s = s" "advance m (advance n s) = advance (n + m) s"
  by (simp_all add: advance_def add.assoc)

lemma at_end_advance [simp]: "at_end (advance n s) \<longleftrightarrow> lim s \<le> cur s + n"
  by (simp add: at_end_def)

lemma peek_Some: "cur s < length inp \<Longrightarrow> peek inp s = Some (inp ! cur s)"
  by (simp add: peek_def)

text \<open>The states the parser works on: a cursor inside a buffer whose size is a \<open>size_t\<close>, and a scope
  array that is long enough for the nesting limit.\<close>

definition wf_state :: "byte list \<Rightarrow> sax_state \<Rightarrow> bool" where
  "wf_state inp s \<longleftrightarrow> cur s \<le> lim s \<and> lim s = length inp \<and> length inp \<le> SIZE_MAX
     \<and> depth s \<le> max_depth s \<and> max_depth s \<le> length (scopes s)"

section \<open>Numerals\<close>

text \<open>The digits at offset \<open>p\<close>.\<close>

definition digits_at :: "byte list \<Rightarrow> nat \<Rightarrow> byte list" where
  "digits_at inp p = takeWhile is_digit (drop p inp)"

lemma digits_at_step:
  assumes "p < length inp"
  shows "digits_at inp p = (if is_digit (inp ! p) then inp ! p # digits_at inp (Suc p) else [])"
proof -
  have "drop p inp = inp ! p # drop (Suc p) inp" using assms by (simp add: Cons_nth_drop_Suc)
  then show ?thesis by (simp add: digits_at_def)
qed

lemma digits_at_end: "length inp \<le> p \<Longrightarrow> digits_at inp p = []"
  by (simp add: digits_at_def)

lemma digits_at_digits: "b \<in> set (digits_at inp p) \<Longrightarrow> is_digit b"
  unfolding digits_at_def by (blast dest: set_takeWhileD)

lemma at_pos_digits_at:
  assumes "p \<le> length inp"
  shows "at_pos inp p (digits_at inp p)"
proof -
  have "length (digits_at inp p) \<le> length inp - p"
    using length_takeWhile_le [of is_digit "drop p inp"] by (simp add: digits_at_def)
  moreover have "take (length (digits_at inp p)) (drop p inp) = digits_at inp p"
    unfolding digits_at_def by (rule takeWhile_eq_take [symmetric])
  ultimately show ?thesis using assms by (simp add: at_pos_def slice_def)
qed

lemma digits_at_length: "p \<le> length inp \<Longrightarrow> p + length (digits_at inp p) \<le> length inp"
  using at_pos_digits_at at_pos_le by blast

lemma digits_at_stop:
  assumes "p + length (digits_at inp p) < length inp"
  shows "\<not> is_digit (inp ! (p + length (digits_at inp p)))"
proof -
  have "length (takeWhile is_digit (drop p inp)) < length (drop p inp)"
    using assms by (simp add: digits_at_def)
  from nth_length_takeWhile [OF this] show ?thesis using assms by (simp add: digits_at_def)
qed

lemma digits_at_numeral:
  assumes "at_pos inp p (ds @ x # xs)" and "\<forall>b\<in>set ds. is_digit b" and "\<not> is_digit x"
  shows "digits_at inp p = ds"
  using assms(1,2)
proof (induction ds arbitrary: p)
  case Nil
  then show ?case using assms(3) by (simp add: at_pos_Cons digits_at_step)
next
  case (Cons d ds)
  then show ?case by (simp add: at_pos_Cons digits_at_step)
qed

lemma digits_at_dec: "at_pos inp p (dec n @ x # xs) \<Longrightarrow> \<not> is_digit x \<Longrightarrow> digits_at inp p = dec n"
  using digits_at_numeral dec_digits by blast

text \<open>Accumulating digits from \<open>a\<close>.\<close>

definition accum :: "nat \<Rightarrow> byte list \<Rightarrow> nat" where
  "accum a ds = foldl (\<lambda>a b. 10 * a + digit_val b) a ds"

lemma accum_simps [simp]:
  "accum a [] = a" "accum a (b # ds) = accum (10 * a + digit_val b) ds"
  by (simp_all add: accum_def)

lemma accum_ge: "a \<le> accum a ds"
proof (induction ds arbitrary: a)
  case (Cons b ds)
  have "10 * a + digit_val b \<le> accum (10 * a + digit_val b) ds" by (rule Cons.IH)
  then show ?case by simp
qed simp

lemma dval_accum: "dval ds = accum 0 ds"
  by (simp add: dval_def accum_def)

lemma dval_Cons: "dval (b # ds) = accum (digit_val b) ds"
  by (simp add: dval_accum)

section \<open>The overflow guard\<close>

lemma unat_ucast_digit: "is_digit b \<Longrightarrow> unat (ucast (b - 48) :: 64 word) = digit_val b"
proof -
  have "unat (b - 48) < 2 ^ 64"
    by (rule less_trans [OF unsigned_less]) simp
  then show ?thesis by (simp add: digit_val_def unsigned_ucast_eq take_bit_nat_eq_self)
qed

text \<open>"\<open>acc * 10 + digit > max_mag\<close> iff \<open>acc > (max_mag - digit) / 10\<close>", on machine words.\<close>

lemma overflow_guard:
  fixes acc max_mag digit :: "64 word"
  assumes "unat digit \<le> unat max_mag"
  shows "acc > (max_mag - digit) div 10 \<longleftrightarrow> unat max_mag < 10 * unat acc + unat digit"
proof -
  have "unat ((max_mag - digit) div 10) = (unat max_mag - unat digit) div 10"
    using assms by (simp add: unat_div_distrib unat_sub word_le_nat_alt)
  then have "acc > (max_mag - digit) div 10 \<longleftrightarrow> (unat max_mag - unat digit) div 10 < unat acc"
    by (simp add: word_less_nat_alt)
  also have "\<dots> \<longleftrightarrow> unat max_mag - unat digit < unat acc * 10"
    by (simp add: div_less_iff_less_mult)
  also have "\<dots> \<longleftrightarrow> unat max_mag < 10 * unat acc + unat digit"
    using assms by arith
  finally show ?thesis .
qed

lemma accumulate_step:
  fixes acc max_mag digit :: "64 word"
  assumes "10 * unat acc + unat digit \<le> unat max_mag"
  shows "unat (acc * 10 + digit) = 10 * unat acc + unat digit"
proof -
  have "10 * unat acc + unat digit < 2 ^ LENGTH(64)"
    using assms unsigned_less [of max_mag, where 'a = nat] by linarith
  then show ?thesis
    by (simp add: unat_word_ariths mod_simps mult.commute)
qed

text \<open>One round of the loop on a digit.\<close>

lemma parse_digits_digit:
  assumes "cur s < length inp" and "lim s = length inp" and "is_digit (inp ! cur s)" and "9 \<le> unat max_mag"
    and "unat acc \<le> unat max_mag"
  defines "v \<equiv> digit_val (inp ! cur s)" and "acc1 \<equiv> acc * 10 + (ucast (inp ! cur s - 48) :: 64 word)"
  shows "unat max_mag < 10 * unat acc + v \<Longrightarrow> parse_digits inp s acc max_mag = Some (BENCODE_ERR_INTEGER_OVERFLOW, acc, s)"
    and "\<not> unat max_mag < 10 * unat acc + v \<Longrightarrow>
      parse_digits inp s acc max_mag = parse_digits inp (advance 1 s) acc1 max_mag \<and> unat acc1 = 10 * unat acc + v"
proof -
  note unfold = parse_digits.simps [of inp s acc max_mag]
  let ?digit = "ucast (inp ! cur s - 48) :: 64 word"
  have pk: "peek inp s = Some (inp ! cur s)" and ne: "\<not> at_end s" using assms(1,2) by (simp_all add: peek_def at_end_def)
  have dg: "unat ?digit = v" "unat ?digit < 10"
    using assms(3) digit_val_less unat_ucast_digit unfolding v_def by auto
  then have le: "unat ?digit \<le> unat max_mag" using assms(4) by linarith
  note guard = overflow_guard [OF le, of acc, unfolded dg(1)]
  show "parse_digits inp s acc max_mag = Some (BENCODE_ERR_INTEGER_OVERFLOW, acc, s)" if "unat max_mag < 10 * unat acc + v"
    using that guard pk ne assms(3) by (simp add: unfold Let_def)
  show "parse_digits inp s acc max_mag = parse_digits inp (advance 1 s) acc1 max_mag \<and> unat acc1 = 10 * unat acc + v"
    if "\<not> unat max_mag < 10 * unat acc + v"
    using that guard pk ne assms(3) accumulate_step [of acc ?digit max_mag] dg(1) unfolding acc1_def
    by (simp add: unfold Let_def)
qed

definition digits_read :: "byte list \<Rightarrow> sax_state \<Rightarrow> nat \<Rightarrow> 64 word
    \<Rightarrow> (bencode_status \<times> 64 word \<times> sax_state) option \<Rightarrow> bool" where
  "digits_read inp s n max_mag r \<longleftrightarrow> (\<exists>st acc' k. r = Some (st, acc', advance k s)
     \<and> k \<le> length (digits_at inp (cur s))
     \<and> (if accum n (digits_at inp (cur s)) \<le> unat max_mag
        then st = BENCODE_OK \<and> k = length (digits_at inp (cur s)) \<and> unat acc' = accum n (digits_at inp (cur s))
        else st = BENCODE_ERR_INTEGER_OVERFLOW))"

lemma digits_read_next:
  assumes "digits_read inp (advance 1 s) (10 * n + digit_val (inp ! cur s)) max_mag r"
    and "digits_at inp (cur s) = inp ! cur s # digits_at inp (Suc (cur s))"
  shows "digits_read inp s n max_mag r"
proof -
  obtain st acc' k where "r = Some (st, acc', advance (Suc k) s)" "k \<le> length (digits_at inp (Suc (cur s)))"
    "if accum (10 * n + digit_val (inp ! cur s)) (digits_at inp (Suc (cur s))) \<le> unat max_mag
     then st = BENCODE_OK \<and> k = length (digits_at inp (Suc (cur s)))
       \<and> unat acc' = accum (10 * n + digit_val (inp ! cur s)) (digits_at inp (Suc (cur s)))
     else st = BENCODE_ERR_INTEGER_OVERFLOW"
    using assms(1) by (auto simp: digits_read_def)
  then show ?thesis unfolding digits_read_def
    by (intro exI [of _ st] exI [of _ acc'] exI [of _ "Suc k"]) (auto simp: assms(2))
qed

lemma parse_digits_result:
  assumes "cur s \<le> lim s" and "lim s = length inp" and "9 \<le> unat max_mag" and "unat acc \<le> unat max_mag"
  shows "digits_read inp s (unat acc) max_mag (parse_digits inp s acc max_mag)"
  using assms
proof (induction "lim s - cur s" arbitrary: s acc rule: less_induct)
  case (less s acc)
  show ?case
  proof (cases "cur s < length inp \<and> is_digit (inp ! cur s)")
    case False
    have "parse_digits inp s acc max_mag = Some (BENCODE_OK, acc, advance 0 s)"
      using False less.prems by (auto simp: parse_digits.simps [of inp s] at_end_def peek_def)
    moreover have "digits_at inp (cur s) = []"
      using False by (cases "cur s < length inp") (simp_all add: digits_at_step digits_at_end)
    ultimately show ?thesis using less.prems by (auto simp: digits_read_def)
  next
    case True
    let ?v = "digit_val (inp ! cur s)" and ?acc = "acc * 10 + (ucast (inp ! cur s - 48) :: 64 word)"
    have ds: "digits_at inp (cur s) = inp ! cur s # digits_at inp (Suc (cur s))" using True digits_at_step by auto
    note round = parse_digits_digit [OF conjunct1 [OF True] less.prems(2) conjunct2 [OF True] less.prems(3,4)]
    show ?thesis
    proof (cases "unat max_mag < 10 * unat acc + ?v")
      case over: True
      then have "\<not> accum (unat acc) (digits_at inp (cur s)) \<le> unat max_mag"
        using accum_ge [of "10 * unat acc + ?v" "digits_at inp (Suc (cur s))"] ds by simp
      then show ?thesis using round(1) [OF over] unfolding digits_read_def
        by (intro exI [of _ BENCODE_ERR_INTEGER_OVERFLOW] exI [of _ acc] exI [of _ 0]) simp
    next
      case fits: False
      note go = round(2) [OF this]
      have "digits_read inp (advance 1 s) (unat ?acc) max_mag (parse_digits inp (advance 1 s) ?acc max_mag)"
        by (rule less.hyps) (use less.prems True go fits in \<open>simp_all add: diff_less_mono2\<close>)
      then show ?thesis using digits_read_next [OF _ ds] go by simp
    qed
  qed
qed

section \<open>Unsigned magnitudes\<close>

lemma numeral_ok_digits_at:
  assumes "digits_at inp p = b # ds"
  shows "numeral_ok (digits_at inp p) \<longleftrightarrow> \<not> (b = 48 \<and> ds \<noteq> [])"
  using assms digits_at_digits [of _ inp p] by (auto simp: numeral_ok_def)

text \<open>What follows the first digit.\<close>

lemma after_first_digit:
  assumes "cur s < length inp" and "lim s = length inp" and "is_digit (inp ! cur s)"
  defines "ds \<equiv> digits_at inp (Suc (cur s))"
  shows "digits_at inp (cur s) = inp ! cur s # ds"
    and "\<not> lim s \<le> Suc (cur s) \<Longrightarrow> \<exists>c. peek inp (advance (Suc 0) s) = Some c \<and> (is_digit c \<longleftrightarrow> ds \<noteq> [])"
    and "lim s \<le> Suc (cur s) \<Longrightarrow> ds = []"
    and "numeral_ok (digits_at inp (cur s)) \<longleftrightarrow> \<not> (inp ! cur s = 48 \<and> ds \<noteq> [])"
proof -
  show all: "digits_at inp (cur s) = inp ! cur s # ds" using assms(1,3) by (simp add: digits_at_step ds_def)
  show "numeral_ok (digits_at inp (cur s)) \<longleftrightarrow> \<not> (inp ! cur s = 48 \<and> ds \<noteq> [])" by (rule numeral_ok_digits_at [OF all])
qed (use assms(2) in \<open>auto simp: ds_def peek_def digits_at_step digits_at_end\<close>)

lemma parse_unsigned_numeral:
  assumes "cur s < length inp" and "lim s = length inp" and "is_digit (inp ! cur s)" and "9 \<le> unat max_mag"
    and "numeral_ok (digits_at inp (cur s))"
  shows "\<exists>st mag k. parse_unsigned inp s max_mag = Some (st, mag, advance k s) \<and> k \<le> length (digits_at inp (cur s))
    \<and> (if dval (digits_at inp (cur s)) \<le> unat max_mag
       then st = BENCODE_OK \<and> k = length (digits_at inp (cur s)) \<and> unat mag = dval (digits_at inp (cur s))
       else st = BENCODE_ERR_INTEGER_OVERFLOW)"
proof -
  let ?b = "inp ! cur s" and ?ds = "digits_at inp (Suc (cur s))"
  note first = after_first_digit [OF assms(1-3)]
  define acc where "acc = (ucast (?b - 48) :: 64 word)"
  have acc: "unat acc = digit_val ?b" using assms(3) unat_ucast_digit acc_def by simp
  then have "unat acc \<le> unat max_mag" using digit_val_less [OF assms(3)] assms(4) by linarith
  from parse_digits_result [of "advance 1 s" inp max_mag acc, OF _ _ assms(4) this] assms(1,2)
  obtain st mag k where
    r: "parse_digits inp (advance 1 s) acc max_mag = Some (st, mag, advance (Suc k) s)" and k: "k \<le> length ?ds"
    and v: "if accum (digit_val ?b) ?ds \<le> unat max_mag
         then st = BENCODE_OK \<and> k = length ?ds \<and> unat mag = accum (digit_val ?b) ?ds else st = BENCODE_ERR_INTEGER_OVERFLOW"
    by (auto simp: digits_read_def acc)
  have "parse_unsigned inp s max_mag = Some (st, if st = BENCODE_OK then mag else 0, advance (Suc k) s)"
    using assms(1-3) first(2,4) assms(5) r by (auto simp: parse_unsigned_def at_end_def peek_def [of inp s] Let_def acc_def)
  moreover have "dval (?b # ?ds) = accum (digit_val ?b) ?ds" by (rule dval_Cons)
  ultimately show ?thesis using k v
    by (intro exI [of _ st] exI [of _ "if st = BENCODE_OK then mag else 0"] exI [of _ "Suc k"])
      (auto simp: first(1) split: if_splits)
qed

lemma parse_unsigned_result:
  assumes "cur s \<le> lim s" and "lim s = length inp" and "9 \<le> unat max_mag"
  shows "\<exists>st mag k. parse_unsigned inp s max_mag = Some (st, mag, advance k s)
      \<and> k \<le> length (digits_at inp (cur s))
      \<and> (if cur s = lim s then st = BENCODE_ERR_TRUNCATED
         else if \<not> numeral_ok (digits_at inp (cur s)) then st = BENCODE_ERR_INTEGER_FORMAT
         else if dval (digits_at inp (cur s)) \<le> unat max_mag
         then st = BENCODE_OK \<and> k = length (digits_at inp (cur s))
              \<and> unat mag = dval (digits_at inp (cur s))
         else st = BENCODE_ERR_INTEGER_OVERFLOW)"
proof (cases "cur s = lim s")
  case True
  then have "parse_unsigned inp s max_mag = Some (BENCODE_ERR_TRUNCATED, 0, advance 0 s)"
    by (simp add: parse_unsigned_def at_end_def)
  then show ?thesis using True by force
next
  case False
  then have lt: "cur s < length inp" using assms by simp
  have pk: "peek inp s = Some (inp ! cur s)" and ne: "\<not> at_end s" using lt assms by (simp_all add: peek_def at_end_def)
  show ?thesis
  proof (cases "is_digit (inp ! cur s)")
    case False
    then have "parse_unsigned inp s max_mag = Some (BENCODE_ERR_INTEGER_FORMAT, 0, advance 0 s)"
      using ne pk by (simp add: parse_unsigned_def)
    moreover have "\<not> numeral_ok (digits_at inp (cur s))"
      using False lt by (simp add: digits_at_step numeral_ok_def)
    ultimately show ?thesis using \<open>cur s \<noteq> lim s\<close> by force
  next
    case digit: True
    note first = after_first_digit [OF lt assms(2) digit]
    show ?thesis
    proof (cases "numeral_ok (digits_at inp (cur s))")
      case True
      from parse_unsigned_numeral [OF lt assms(2) digit assms(3) True] show ?thesis
        using True \<open>cur s \<noteq> lim s\<close> by simp
    next
      case False
      then have "parse_unsigned inp s max_mag = Some (BENCODE_ERR_INTEGER_FORMAT, 0, advance 1 s)"
        using ne pk digit first(2,3,4) by (auto simp: parse_unsigned_def Let_def)
      moreover have "1 \<le> length (digits_at inp (cur s))" using first(1) by simp
      ultimately show ?thesis using False \<open>cur s \<noteq> lim s\<close> by force
    qed
  qed
qed

section \<open>Statuses\<close>

text \<open>The statuses with which scanning and structure checks fail; the parser itself never returns
  another one.\<close>

definition scan_errors :: "bencode_status set" where
  "scan_errors = {BENCODE_ERR_TRUNCATED, BENCODE_ERR_UNEXPECTED_BYTE, BENCODE_ERR_INTEGER_OVERFLOW,
     BENCODE_ERR_INTEGER_FORMAT, BENCODE_ERR_STRING_LENGTH}"

definition parse_errors :: "bencode_status set" where
  "parse_errors = scan_errors \<union> {BENCODE_ERR_DICT_UNSORTED, BENCODE_ERR_DICT_DUPLICATE,
     BENCODE_ERR_DICT_BAD_KEY, BENCODE_ERR_NESTING_TOO_DEEP, BENCODE_ERR_DICT_MISSING_VALUE}"

lemma scan_errors_simps [simp]:
  "BENCODE_ERR_TRUNCATED \<in> scan_errors" "BENCODE_ERR_UNEXPECTED_BYTE \<in> scan_errors"
  "BENCODE_ERR_INTEGER_OVERFLOW \<in> scan_errors" "BENCODE_ERR_INTEGER_FORMAT \<in> scan_errors"
  "BENCODE_ERR_STRING_LENGTH \<in> scan_errors" "BENCODE_OK \<notin> scan_errors"
  by (simp_all add: scan_errors_def)

lemma parse_errors_simps [simp]:
  "st \<in> scan_errors \<Longrightarrow> st \<in> parse_errors" "BENCODE_OK \<notin> parse_errors"
  "BENCODE_ERR_DICT_UNSORTED \<in> parse_errors" "BENCODE_ERR_DICT_DUPLICATE \<in> parse_errors"
  "BENCODE_ERR_DICT_BAD_KEY \<in> parse_errors" "BENCODE_ERR_NESTING_TOO_DEEP \<in> parse_errors"
  "BENCODE_ERR_DICT_MISSING_VALUE \<in> parse_errors"
  by (simp_all add: parse_errors_def)

end
