(* ===== verification/Sax_Scan.thy ===== *)
theory Sax_Scan
  imports Sax_Lex
begin

text \<open>
  The scanners \<open>parse_string\<close> and \<open>parse_int\<close> of \<open>src/parse_sax.c\<close>: which status they return on which bytes, and
  that they accept exactly the encodings of strings and of integers.
\<close>

section \<open>Strings\<close>

text \<open>The status of a string, from the digits at the cursor and the bytes after them.\<close>

definition str_verdict :: "byte list \<Rightarrow> byte list \<Rightarrow> bencode_status" where
  "str_verdict ds after =
     (if ds = [] then if after = [] then BENCODE_ERR_TRUNCATED else BENCODE_ERR_INTEGER_FORMAT
      else if \<not> numeral_ok ds then BENCODE_ERR_INTEGER_FORMAT
      else if SIZE_MAX < dval ds then BENCODE_ERR_INTEGER_OVERFLOW
      else if after = [] then BENCODE_ERR_TRUNCATED
      else if hd after \<noteq> 58 then BENCODE_ERR_UNEXPECTED_BYTE
      else if length (tl after) < dval ds then BENCODE_ERR_STRING_LENGTH
      else BENCODE_OK)"

lemma str_verdict_error: "str_verdict ds after \<noteq> BENCODE_OK \<Longrightarrow> str_verdict ds after \<in> scan_errors"
  by (simp add: str_verdict_def split: if_splits)

lemma unat_SIZE_MAX: "unat (word_of_nat SIZE_MAX :: 64 word) = SIZE_MAX"
  by (simp add: SIZE_MAX_def unat_of_nat)

lemma digits_at_end_iff: "p \<le> length inp \<Longrightarrow> digits_at inp p = [] \<and> drop p inp = [] \<longleftrightarrow> p = length inp"
  by (auto simp: digits_at_def)

text \<open>Where the digits end.\<close>

lemma peek_after:
  assumes "cur s = q" and "q \<le> lim s" and "lim s = length inp"
  shows "at_end s \<longleftrightarrow> drop q inp = []" and "drop q inp \<noteq> [] \<Longrightarrow> peek inp s = Some (hd (drop q inp))"
    and "length (tl (drop q inp)) = lim s - (q + 1)"
  using assms by (auto simp: at_end_def peek_def hd_drop_conv_nth)

lemma parse_string_table:
  assumes "cur s \<le> lim s" and "lim s = length inp"
  defines "ds \<equiv> digits_at inp (cur s)"
  defines "after \<equiv> drop (cur s + length ds) inp"
  shows "if str_verdict ds after = BENCODE_OK
     then parse_string inp s = Some (BENCODE_OK, cur s + length ds + 1, dval ds, advance (length ds + 1 + dval ds) s)
     else \<exists>k. parse_string inp s = Some (str_verdict ds after, 0, 0, advance k s) \<and> k \<le> length ds + 1 \<and> cur s + k \<le> lim s"
proof -
  have "9 \<le> unat (word_of_nat SIZE_MAX :: 64 word)" unfolding unat_SIZE_MAX by (simp add: SIZE_MAX_def)
  from parse_unsigned_result [OF assms(1,2) this] obtain st mag k where
    u: "parse_unsigned inp s (word_of_nat SIZE_MAX) = Some (st, mag, advance k s)" and k: "k \<le> length ds"
    and v: "if cur s = lim s then st = BENCODE_ERR_TRUNCATED
         else if \<not> numeral_ok ds then st = BENCODE_ERR_INTEGER_FORMAT
         else if dval ds \<le> SIZE_MAX then st = BENCODE_OK \<and> k = length ds \<and> unat mag = dval ds
         else st = BENCODE_ERR_INTEGER_OVERFLOW"
    unfolding unat_SIZE_MAX ds_def [symmetric] by blast
  have q: "cur s + length ds \<le> length inp" using digits_at_length assms(1,2) by (simp add: ds_def)
  show ?thesis
  proof (cases "st = BENCODE_OK")
    case False
    then have "parse_string inp s = Some (st, 0, 0, advance k s)" using u by (simp add: parse_string_def)
    moreover have "str_verdict ds after = st"
      using v False digits_at_end_iff [of "cur s" inp] assms(1,2)
      by (auto simp: str_verdict_def ds_def after_def numeral_ok_def split: if_splits)
    ultimately show ?thesis using False k q assms(2) by auto
  next
    case True
    then have ok: "numeral_ok ds" "dval ds \<le> SIZE_MAX" and kk: "k = length ds" and mag: "unat mag = dval ds"
      using v by (auto split: if_splits)
    have ds: "ds \<noteq> []" using ok(1) by (simp add: numeral_ok_def)
    note after = peek_after [of "advance k s" "cur s + length ds" inp, folded after_def]
    show ?thesis
    proof (cases "after = [] \<or> hd after \<noteq> 58")
      case True
      then show ?thesis using u \<open>st = BENCODE_OK\<close> after q assms(2) ok ds
        by (auto simp: parse_string_def str_verdict_def kk)
    next
      case False
      then have len: "length (tl after) = lim s - (cur s + length ds + 1)" "cur s + length ds < lim s"
        using q assms(2) by (auto simp: after_def)
      show ?thesis using u \<open>st = BENCODE_OK\<close> after q assms(2) ok ds False len
        by (auto simp: parse_string_def str_verdict_def kk mag Let_def not_less)
    qed
  qed
qed

text \<open>The table accepts the encodings of strings.\<close>

lemma str_verdict_text:
  assumes "at_pos inp p (enc_str b)" and "length inp \<le> SIZE_MAX"
  shows "digits_at inp p = dec (length b)"
    and "str_verdict (digits_at inp p) (drop (p + length (digits_at inp p)) inp) = BENCODE_OK"
proof -
  show ds: "digits_at inp p = dec (length b)"
    using assms(1) digits_at_dec [of inp p "length b" 58 b] by (simp add: enc_str_def)
  obtain zs where "drop (p + length (dec (length b))) inp = 58 # b @ zs"
    using at_pos_prefix [of inp "p + length (dec (length b))" "58 # b"] assms(1)
    by (auto simp: enc_str_def at_pos_append)
  moreover have "length b \<le> SIZE_MAX" using at_pos_le [OF assms(1)] assms(2) by (simp add: enc_str_def)
  ultimately show "str_verdict (digits_at inp p) (drop (p + length (digits_at inp p)) inp) = BENCODE_OK"
    using dec_ok [of "length b"] by (simp add: ds str_verdict_def)
qed

lemma str_verdict_accepts:
  assumes "str_verdict (digits_at inp p) (drop (p + length (digits_at inp p)) inp) = BENCODE_OK"
  obtains b where "at_pos inp p (enc_str b)" and "digits_at inp p = dec (length b)" and "length b = dval (digits_at inp p)"
proof -
  define ds where "ds = digits_at inp p"
  define b where "b = slice inp (p + length ds + 1) (dval ds)"
  note verdict = assms [folded ds_def]
  have ok: "numeral_ok ds" and q: "drop (p + length ds) inp \<noteq> []" and colon: "hd (drop (p + length ds) inp) = 58"
    and fits: "dval ds \<le> length (tl (drop (p + length ds) inp))"
    using verdict by (simp_all add: str_verdict_def split: if_splits)
  have v: "numeral_ok ds" "p + length ds < length inp" "inp ! (p + length ds) = 58" "p + length ds + 1 + dval ds \<le> length inp"
    using ok q colon fits by (simp_all add: hd_drop_conv_nth)
  have b: "length b = dval ds" "at_pos inp (p + length ds + 1) b" using v(4) by (auto simp: b_def intro: at_pos_slice)
  have ds: "ds = dec (length b)" using b v(1) dec_dval by simp
  have "at_pos inp p ds" using at_pos_digits_at v(2) by (simp add: ds_def)
  then have "at_pos inp p (ds @ 58 # b)" using b v by (simp add: at_pos_append at_pos_Cons)
  then have "at_pos inp p (enc_str b)" unfolding enc_str_def ds [symmetric] .
  then show thesis by (rule that [OF _ ds [unfolded ds_def] b(1) [unfolded ds_def]])
qed

lemma parse_string_cases:
  assumes "cur s \<le> lim s" and "lim s = length inp" and "length inp \<le> SIZE_MAX"
  obtains (string) b where "at_pos inp (cur s) (enc_str b)"
      and "parse_string inp s = Some (BENCODE_OK, cur s + length (dec (length b)) + 1, length b,
            advance (length (enc_str b)) s)"
  | (error) st k where "parse_string inp s = Some (st, 0, 0, advance k s)"
      and "st \<in> scan_errors" and "cur s + k \<le> lim s"
      and "\<And>b. \<not> at_pos inp (cur s) (enc_str b)"
proof (cases "str_verdict (digits_at inp (cur s)) (drop (cur s + length (digits_at inp (cur s))) inp) = BENCODE_OK")
  case True
  obtain b where b: "at_pos inp (cur s) (enc_str b)" "digits_at inp (cur s) = dec (length b)"
    "length b = dval (digits_at inp (cur s))" by (rule str_verdict_accepts [OF True])
  have "parse_string inp s = Some (BENCODE_OK, cur s + length (digits_at inp (cur s)) + 1, dval (digits_at inp (cur s)),
      advance (length (digits_at inp (cur s)) + 1 + dval (digits_at inp (cur s))) s)"
    using parse_string_table [OF assms(1,2)] unfolding True by (simp only: simp_thms if_True)
  then show thesis using b(1) unfolding b(3) [symmetric] b(2)
    by (intro string [of b]) (simp_all add: enc_str_def add.commute add.left_commute)
next
  case False
  have none: "\<not> at_pos inp (cur s) (enc_str b)" for b using str_verdict_text(2) [OF _ assms(3)] False by blast
  from parse_string_table [OF assms(1,2)] False obtain k where
    "parse_string inp s = Some (str_verdict (digits_at inp (cur s)) (drop (cur s + length (digits_at inp (cur s))) inp),
       0, 0, advance k s)" "cur s + k \<le> lim s" by (simp only: if_False) blast
  then show thesis using error [OF _ str_verdict_error [OF False] _ none] by blast
qed

section \<open>Integers\<close>

text \<open>\<open>parse_int\<close>: where the sign, the digits and the end mark of an integer stand.\<close>

definition minus_at :: "byte list \<Rightarrow> nat \<Rightarrow> bool" where
  "minus_at inp p \<longleftrightarrow> p < length inp \<and> inp ! p = 45"

definition int_digits :: "byte list \<Rightarrow> nat \<Rightarrow> nat" where
  "int_digits inp p = p + (if minus_at inp (p + 1) then 2 else 1)"

lemma int_text:
  assumes "at_pos inp p (encode (BInt i))"
  shows "minus_at inp (p + 1) \<longleftrightarrow> i < 0" and "digits_at inp (int_digits inp p) = dec (nat \<bar>i\<bar>)"
    and "at_pos inp (int_digits inp p + length (dec (nat \<bar>i\<bar>))) [101]"
proof -
  obtain b bs where b: "dec (nat i) = b # bs" "is_digit b" using dec_Cons by blast
  then have "b \<noteq> 45" using not_digit_marks(6) by blast
  then show m: "minus_at inp (p + 1) \<longleftrightarrow> i < 0"
    using assms b by (auto simp: minus_at_def enc_int_def at_pos_Cons split: if_splits)
  show "digits_at inp (int_digits inp p) = dec (nat \<bar>i\<bar>)"
  proof (rule digits_at_dec)
    show "at_pos inp (int_digits inp p) (dec (nat \<bar>i\<bar>) @ 101 # [])"
      using assms m by (auto simp: int_digits_def enc_int_def at_pos_Cons)
  qed simp
  show "at_pos inp (int_digits inp p + length (dec (nat \<bar>i\<bar>))) [101]"
    using assms m by (auto simp: int_digits_def enc_int_def at_pos_Cons at_pos_append)
qed

lemma int_text_intro:
  assumes "p < length inp" "inp ! p = 105"
    and "at_pos inp (int_digits inp p) (dec n @ [101])" and "minus_at inp (p + 1) \<Longrightarrow> 0 < n"
  shows "at_pos inp p (encode (BInt (if minus_at inp (p + 1) then - int n else int n)))"
  using assms by (auto simp: int_digits_def enc_int_def at_pos_Cons minus_at_def)

text \<open>The conversions of the magnitude at the end of \<open>parse_int\<close>, with the \<open>INT64_MIN\<close> special case.\<close>

lemma int64_pos_max: "unat (word_of_int INT64_MAX :: 64 word) = 2 ^ 63 - 1"
  by (simp add: INT64_MAX_def)

lemma int64_neg_max: "unat (word_of_int INT64_MAX + 1 :: 64 word) = 2 ^ 63"
  by (simp add: INT64_MAX_def)

lemma word_of_int_mag: "unat (mag :: 64 word) = n \<Longrightarrow> word_of_int (int n) = mag"
  by (metis of_nat_unat word_of_int_uint uint_nat)

lemma negative_value:
  fixes mag :: "64 word"
  assumes "unat mag = n" and "n \<le> 2 ^ 63" and "n \<noteq> 0"
  shows "(if mag = word_of_int INT64_MAX + 1 then Some (word_of_int INT64_MIN) else neg_int64 mag)
     = Some (word_of_int (- int n))"
proof (cases "n = 2 ^ 63")
  case True
  then have "mag = word_of_int INT64_MAX + 1"
    using assms(1) int64_neg_max by (metis word_unat_eq_iff)
  then show ?thesis using True by (simp add: INT64_MIN_def)
next
  case False
  then have ne: "mag \<noteq> word_of_int INT64_MAX + 1" using assms(1) int64_neg_max by auto
  have "sint mag \<noteq> INT64_MIN"
  proof
    assume "sint mag = INT64_MIN"
    then have "uint mag = 2 ^ 63" using uint_sint [of mag] by (simp add: INT64_MIN_def take_bit_int_def)
    then have "int (unat mag) = 2 ^ 63" by simp
    then show False using False assms(1) by (simp del: uint_nat of_nat_unat)
  qed
  then show ?thesis using ne word_of_int_mag [OF assms(1)] by (simp add: neg_int64_def)
qed

text \<open>The status of an integer, from its sign, its digits and the bytes after them.\<close>

definition int_limit :: "bool \<Rightarrow> nat" where
  "int_limit neg = (if neg then 2 ^ 63 else 2 ^ 63 - 1)"

definition int_verdict :: "bool \<Rightarrow> byte list \<Rightarrow> byte list \<Rightarrow> bencode_status" where
  "int_verdict neg ds after =
     (if ds = [] then if after = [] then BENCODE_ERR_TRUNCATED else BENCODE_ERR_INTEGER_FORMAT
      else if \<not> numeral_ok ds then BENCODE_ERR_INTEGER_FORMAT
      else if int_limit neg < dval ds then BENCODE_ERR_INTEGER_OVERFLOW
      else if neg \<and> dval ds = 0 then BENCODE_ERR_INTEGER_FORMAT
      else if after = [] then BENCODE_ERR_TRUNCATED
      else if hd after \<noteq> 101 then BENCODE_ERR_UNEXPECTED_BYTE
      else BENCODE_OK)"

lemma int_verdict_error: "int_verdict neg ds after \<noteq> BENCODE_OK \<Longrightarrow> int_verdict neg ds after \<in> scan_errors"
  by (simp add: int_verdict_def split: if_splits)

abbreviation int_of :: "bool \<Rightarrow> byte list \<Rightarrow> int" where
  "int_of neg ds \<equiv> if neg then - int (dval ds) else int (dval ds)"

abbreviation int_top :: "bool \<Rightarrow> 64 word" where
  "int_top neg \<equiv> if neg then word_of_int INT64_MAX + 1 else word_of_int INT64_MAX"

lemma unat_int_top: "unat (int_top neg) = int_limit neg"
  by (cases neg) (simp_all add: int_limit_def int64_pos_max int64_neg_max)

text \<open>\<open>parse_int\<close> after the sign.\<close>

lemma parse_int_sign:
  assumes "lim s = length inp" and "cur s < length inp" and "inp ! cur s = 105"
  defines "neg \<equiv> minus_at inp (cur s + 1)" and "s2 \<equiv> advance (int_digits inp (cur s) - cur s) s"
  shows "parse_int inp cb s u =
    (if at_end s2 then Some (BENCODE_ERR_TRUNCATED, s2, u)
     else do {
       b \<leftarrow> peek inp s2;
       if \<not> is_digit b then Some (BENCODE_ERR_INTEGER_FORMAT, s2, u)
       else do {
         (st, mag, s3) \<leftarrow> parse_unsigned inp s2 (int_top neg);
         if st \<noteq> BENCODE_OK then Some (st, s3, u)
         else if neg \<and> mag = 0 then Some (BENCODE_ERR_INTEGER_FORMAT, s3, u)
         else if at_end s3 then Some (BENCODE_ERR_TRUNCATED, s3, u)
         else do {
           e \<leftarrow> peek inp s3;
           if e \<noteq> 101 then Some (BENCODE_ERR_UNEXPECTED_BYTE, s3, u)
           else do {
             value \<leftarrow> (if neg then if mag = word_of_int INT64_MAX + 1 then Some (word_of_int INT64_MIN) else neg_int64 mag
                       else Some mag);
             (st, u) \<leftarrow> deliver cb (EInt value) u;
             Some (st, advance 1 s3, u)
           }
         }
       }
     })"
proof -
  have sign: "(if at_end (advance 1 s) then Some False
       else do { b \<leftarrow> peek inp (advance 1 s); Some (b = 45) }) = Some neg"
    using assms(1-3) by (auto simp: neg_def minus_at_def peek_def)
  have s2: "(if neg then advance 1 (advance 1 s) else advance 1 s) = s2"
    by (simp add: s2_def int_digits_def neg_def)
  show ?thesis by (simp only: parse_int_def Let_def sign s2 Option.bind.simps)
qed

text \<open>The conversions at the end.\<close>

lemma int_value:
  assumes "unat mag = dval ds" and "dval ds \<le> int_limit neg" and "\<not> (neg \<and> dval ds = 0)"
  shows "(if neg then if mag = word_of_int INT64_MAX + 1 then Some (word_of_int INT64_MIN) else neg_int64 mag
      else Some mag) = Some (word_of_int (int_of neg ds))"
proof (cases neg)
  case True
  then show ?thesis using negative_value [OF assms(1)] assms(2,3) by (simp add: int_limit_def)
next
  case False
  then show ?thesis using word_of_int_mag [OF assms(1)] by simp
qed

text \<open>An integer ends in the status \<open>st\<close> after at most \<open>n\<close> bytes, or is \<open>i\<close>, reported after \<open>n + 1\<close> bytes.\<close>

type_synonym 'u callback_parser = "'u bencode_callbacks option \<Rightarrow> 'u sax_parser"

definition int_outcome :: "'u callback_parser \<Rightarrow> sax_state \<Rightarrow> bencode_status \<Rightarrow> int \<Rightarrow> nat \<Rightarrow> bool" where
  "int_outcome scan s st i n \<longleftrightarrow>
     (if st = BENCODE_OK
      then \<forall>cb u. scan cb s u = do {
             (st, u) \<leftarrow> deliver cb (EInt (word_of_int i)) u;
             Some (st, advance (n + 1) s, u) }
      else \<exists>k. (\<forall>cb u. scan cb s u = Some (st, advance k s, u)) \<and> 0 < k \<and> k \<le> n)"

lemma int_outcome_error:
  "\<forall>cb u. scan cb s u = Some (st, advance k s, u) \<Longrightarrow> st \<noteq> BENCODE_OK \<Longrightarrow> 0 < k \<Longrightarrow> k \<le> n \<Longrightarrow> int_outcome scan s st i n"
  unfolding int_outcome_def by auto

text \<open>A magnitude that has digits.\<close>

lemma parse_int_magnitude:
  assumes go: "\<And>(cb :: 'u bencode_callbacks option) u. parse_int inp cb s u = do {
         (st, mag, s3) \<leftarrow> parse_unsigned inp (advance k0 s) (int_top neg);
         if st \<noteq> BENCODE_OK then Some (st, s3, u)
         else if neg \<and> mag = 0 then Some (BENCODE_ERR_INTEGER_FORMAT, s3, u)
         else if at_end s3 then Some (BENCODE_ERR_TRUNCATED, s3, u)
         else do {
           e \<leftarrow> peek inp s3;
           if e \<noteq> 101 then Some (BENCODE_ERR_UNEXPECTED_BYTE, s3, u)
           else do {
             value \<leftarrow> (if neg then if mag = word_of_int INT64_MAX + 1 then Some (word_of_int INT64_MIN) else neg_int64 mag
                       else Some mag);
             (st, u) \<leftarrow> deliver cb (EInt value) u;
             Some (st, advance 1 s3, u)
           }
         }
       }"
    and "lim s = length inp" and "0 < k0" and p: "p = cur s + k0" "p < length inp"
  defines "ds \<equiv> digits_at inp p"
  defines "after \<equiv> drop (p + length ds) inp"
  assumes ds: "ds \<noteq> []"
  shows "int_outcome (parse_int inp :: 'u callback_parser) s (int_verdict neg ds after) (int_of neg ds) (k0 + length ds)"
proof -
  have "9 \<le> unat (int_top neg)" unfolding unat_int_top by (simp add: int_limit_def)
  from parse_unsigned_result [of "advance k0 s" inp, OF _ _ this] obtain st mag k where
    u: "parse_unsigned inp (advance k0 s) (int_top neg) = Some (st, mag, advance (k0 + k) s)" and k: "k \<le> length ds"
    and v: "if \<not> numeral_ok ds then st = BENCODE_ERR_INTEGER_FORMAT
       else if dval ds \<le> int_limit neg then st = BENCODE_OK \<and> k = length ds \<and> unat mag = dval ds
       else st = BENCODE_ERR_INTEGER_OVERFLOW"
    unfolding unat_int_top using p assms(2) by (auto simp: ds_def)
  have q: "p + length ds \<le> length inp" using digits_at_length p by (simp add: ds_def)
  note go = go [unfolded u Option.bind.simps prod.case]
  show ?thesis
  proof (cases "st = BENCODE_OK")
    case False
    then have "int_verdict neg ds after = st" using v ds by (simp add: int_verdict_def split: if_splits)
    moreover have "\<forall>(cb :: 'u bencode_callbacks option) u. parse_int inp cb s u = Some (st, advance (k0 + k) s, u)" using go False by simp
    ultimately show ?thesis using False assms(3) k by (intro int_outcome_error [where k = "k0 + k"]) simp_all
  next
    case ok: True
    then have num: "numeral_ok ds" "dval ds \<le> int_limit neg" "k = length ds" "unat mag = dval ds"
      using v by (auto split: if_splits)
    then have zero: "mag = 0 \<longleftrightarrow> dval ds = 0" by (metis unsigned_eq_0_iff)
    have tail: "at_end (advance (k0 + k) s) \<longleftrightarrow> after = []"
      "after \<noteq> [] \<Longrightarrow> peek inp (advance (k0 + k) s) = Some (hd after)"
      using peek_after [of "advance (k0 + k) s" "p + length ds" inp, folded after_def] p q num(3) assms(2) by simp_all
    show ?thesis
    proof (cases "int_verdict neg ds after = BENCODE_OK")
      case True
      then have nz: "\<not> (neg \<and> dval ds = 0)" and e: "after \<noteq> []" "hd after = 101"
        using ds num by (auto simp: int_verdict_def split: if_splits)
      have now: "\<not> (neg \<and> mag = 0)" "\<not> at_end (advance (k0 + k) s)" "peek inp (advance (k0 + k) s) = Some 101"
        using nz zero tail e by simp_all
      have "parse_int inp cb s u = do {
          (st, u) \<leftarrow> deliver cb (EInt (word_of_int (int_of neg ds))) u;
          Some (st, advance (k0 + length ds + 1) s, u) }" for cb :: "'u bencode_callbacks option" and u
        by (simp only: go ok now [unfolded num(3)] int_value [OF num(4,2) nz] if_False Option.bind.simps simp_thms num(3) advance_simps(7))
      then show ?thesis unfolding True int_outcome_def by (simp only: if_True simp_thms)
    next
      case False
      then have "\<forall>(cb :: 'u bencode_callbacks option) u. parse_int inp cb s u = Some (int_verdict neg ds after, advance (k0 + k) s, u)"
        using go ok zero tail ds num by (auto simp: int_verdict_def)
      then show ?thesis using False assms(3) k by (intro int_outcome_error [where k = "k0 + k"]) simp_all
    qed
  qed
qed

lemma parse_int_table:
  assumes "lim s = length inp" and "cur s < length inp" and "inp ! cur s = 105"
  defines "neg \<equiv> minus_at inp (cur s + 1)" and "p \<equiv> int_digits inp (cur s)"
  defines "ds \<equiv> digits_at inp p"
  defines "after \<equiv> drop (p + length ds) inp"
  shows "int_outcome (parse_int inp :: 'u callback_parser) s (int_verdict neg ds after) (int_of neg ds) (p - cur s + length ds)"
proof -
  define k0 where "k0 = p - cur s"
  have p: "p = cur s + k0" "p \<le> length inp" "0 < k0"
    using assms(1-3) by (auto simp: k0_def p_def int_digits_def minus_at_def)
  note go = parse_int_sign [OF assms(1-3), folded p_def neg_def k0_def]
  show ?thesis unfolding k0_def [symmetric]
  proof (cases "ds = []")
    case True
    have "\<not> is_digit (inp ! p)" if "p < length inp" using True digits_at_step [OF that] by (auto simp: ds_def split: if_splits)
    then have "\<forall>(cb :: 'u bencode_callbacks option) u. parse_int inp cb s u = Some (int_verdict neg ds after, advance k0 s, u)"
      using True p assms(1) by (auto simp: go peek_def int_verdict_def after_def)
    then show "int_outcome (parse_int inp :: 'u callback_parser) s (int_verdict neg ds after) (int_of neg ds) (k0 + length ds)"
      by (rule int_outcome_error) (use p True in \<open>auto simp: int_verdict_def\<close>)
  next
    case False
    have digit: "p < length inp" "is_digit (inp ! p)"
    proof -
      show lt: "p < length inp" using False digits_at_end [of inp p] by (auto simp: ds_def not_le [symmetric])
      show "is_digit (inp ! p)" using False digits_at_step [OF lt] by (auto simp: ds_def split: if_splits)
    qed
    have now: "\<not> at_end (advance k0 s)" "peek inp (advance k0 s) = Some (inp ! p)"
      using p digit assms(1) by (simp_all add: peek_def)
    have "parse_int inp cb s u = do {
         (st, mag, s3) \<leftarrow> parse_unsigned inp (advance k0 s) (int_top neg);
         if st \<noteq> BENCODE_OK then Some (st, s3, u)
         else if neg \<and> mag = 0 then Some (BENCODE_ERR_INTEGER_FORMAT, s3, u)
         else if at_end s3 then Some (BENCODE_ERR_TRUNCATED, s3, u)
         else do {
           e \<leftarrow> peek inp s3;
           if e \<noteq> 101 then Some (BENCODE_ERR_UNEXPECTED_BYTE, s3, u)
           else do {
             value \<leftarrow> (if neg then if mag = word_of_int INT64_MAX + 1 then Some (word_of_int INT64_MIN) else neg_int64 mag
                       else Some mag);
             (st, u) \<leftarrow> deliver cb (EInt value) u;
             Some (st, advance 1 s3, u)
           }
         }
       }" for cb :: "'u bencode_callbacks option" and u
      using now digit(2) by (simp only: go Option.bind.simps if_False simp_thms)
    then show "int_outcome (parse_int inp :: 'u callback_parser) s (int_verdict neg ds after) (int_of neg ds) (k0 + length ds)"
      unfolding after_def ds_def by (rule parse_int_magnitude [OF _ assms(1) p(3,1) digit(1) False [unfolded ds_def]])
  qed
qed

text \<open>The table accepts the encodings of the integers of \<open>int64_t\<close>.\<close>

lemma int_verdict_text:
  assumes "at_pos inp p (encode (BInt i))" and "INT64_MIN \<le> i" and "i \<le> INT64_MAX"
  defines "q \<equiv> int_digits inp p"
  shows "int_verdict (minus_at inp (p + 1)) (digits_at inp q) (drop (q + length (digits_at inp q)) inp) = BENCODE_OK"
proof -
  note t = int_text [OF assms(1), folded q_def]
  obtain zs where zs: "drop (q + length (dec (nat \<bar>i\<bar>))) inp = 101 # zs" using at_pos_prefix [OF t(3)] by auto
  have "nat \<bar>i\<bar> \<le> int_limit (i < 0)" using assms(2,3) by (auto simp: int_limit_def INT64_MIN_def INT64_MAX_def)
  then show ?thesis unfolding t(1,2) zs using dec_ok [of "nat \<bar>i\<bar>"] by (auto simp: int_verdict_def)
qed

lemma int_verdict_accepts:
  assumes "p < length inp" and "inp ! p = 105"
  defines "neg \<equiv> minus_at inp (p + 1)" and "q \<equiv> int_digits inp p"
  defines "ds \<equiv> digits_at inp q"
  assumes "int_verdict neg ds (drop (q + length ds) inp) = BENCODE_OK"
  shows "at_pos inp p (encode (BInt (int_of neg ds)))" and "INT64_MIN \<le> int_of neg ds" and "int_of neg ds \<le> INT64_MAX"
    and "length (encode (BInt (int_of neg ds))) = q - p + length ds + 1"
proof -
  have v: "numeral_ok ds" "dval ds \<le> int_limit neg" "\<not> (neg \<and> dval ds = 0)" "drop (q + length ds) inp \<noteq> []"
    "hd (drop (q + length ds) inp) = 101"
    using assms(6) by (auto simp: int_verdict_def split: if_splits)
  have dec: "dec (dval ds) = ds" by (rule dec_dval [OF v(1)])
  have "at_pos inp q ds" using at_pos_digits_at v(4) by (simp add: ds_def)
  then have at: "at_pos inp q (dec (dval ds) @ [101])"
    using v(4,5) by (simp add: dec at_pos_append at_pos_single hd_drop_conv_nth)
  show "at_pos inp p (encode (BInt (int_of neg ds)))" unfolding neg_def
    by (rule int_text_intro [OF assms(1,2)]) (use at v(3) in \<open>auto simp: q_def neg_def\<close>)
  show "INT64_MIN \<le> int_of neg ds" "int_of neg ds \<le> INT64_MAX"
    using v(2) by (auto simp: int_limit_def INT64_MIN_def INT64_MAX_def split: if_splits)
  show "length (encode (BInt (int_of neg ds))) = q - p + length ds + 1"
    using v(3) dec by (auto simp: enc_int_def q_def int_digits_def neg_def)
qed

lemma parse_int_cases:
  assumes "lim s = length inp" and "cur s < length inp" and "inp ! cur s = 105"
  obtains (int) i where "INT64_MIN \<le> i" and "i \<le> INT64_MAX" and "at_pos inp (cur s) (encode (BInt i))"
      and "\<And>(cb :: 'u bencode_callbacks option) u. parse_int inp cb s u = do {
             (st, u) \<leftarrow> deliver cb (EInt (word_of_int i)) u;
             Some (st, advance (length (encode (BInt i))) s, u) }"
  | (error) st k where "\<And>(cb :: 'u bencode_callbacks option) u. parse_int inp cb s u = Some (st, advance k s, u)"
      and "st \<in> scan_errors" and "cur s + k \<le> lim s"
      and "\<And>i. INT64_MIN \<le> i \<Longrightarrow> i \<le> INT64_MAX \<Longrightarrow> \<not> at_pos inp (cur s) (encode (BInt i))"
proof -
  define q where "q = int_digits inp (cur s)"
  define ds where "ds = digits_at inp q"
  define st where "st = int_verdict (minus_at inp (cur s + 1)) ds (drop (q + length ds) inp)"
  have q: "cur s \<le> q" "q + length ds \<le> length inp"
    using digits_at_length [of q inp] assms(1,2) by (auto simp: q_def ds_def int_digits_def minus_at_def)
  have out: "int_outcome (parse_int inp :: 'u callback_parser) s st (int_of (minus_at inp (cur s + 1)) ds) (q - cur s + length ds)"
    unfolding st_def ds_def q_def by (rule parse_int_table [OF assms])
  show thesis
  proof (cases "st = BENCODE_OK")
    case True
    note ok = int_verdict_accepts [OF assms(2,3), folded q_def, folded ds_def, folded st_def, OF True]
    show thesis using out [unfolded int_outcome_def ok(4) [symmetric]] True by (intro int [OF ok(2,3,1)]) simp
  next
    case False
    have none: "\<not> at_pos inp (cur s) (encode (BInt i))" if "INT64_MIN \<le> i" "i \<le> INT64_MAX" for i
      using int_verdict_text [OF _ that, of inp "cur s"] False unfolding st_def ds_def q_def by blast
    obtain k where "\<forall>(cb :: 'u bencode_callbacks option) u. parse_int inp cb s u = Some (st, advance k s, u)" "k \<le> q - cur s + length ds"
      using out False unfolding int_outcome_def by auto
    then show thesis using error [OF _ int_verdict_error [OF False [unfolded st_def], folded st_def] _ none] q assms(1) by simp
  qed
qed

end
