(* ===== verification/Sax_Outcome.thy ===== *)
theory Sax_Outcome
  imports Sax_Scan "HOL-Library.Sublist"
begin

text \<open>
  How a run of the SAX parser is described (\<open>src/parse_sax.c\<close>): as the replay of a list of events into
  the callbacks, cut short by the first that does not return \<open>BENCODE_OK\<close>, and as an outcome that says which
  value, list tail or dictionary tail was walked, or that there is none.  The rules at the end put the
  outcome of an operation together from those of its parts.
\<close>

section \<open>Feeding events to the callbacks\<close>

primrec feed :: "'u bencode_callbacks option \<Rightarrow> event list \<Rightarrow> 'u \<Rightarrow> (bencode_status \<times> 'u) option" where
  "feed cb [] u = Some (BENCODE_OK, u)"
| "feed cb (e # es) u = do {
     (st, u') \<leftarrow> deliver cb e u;
     if st \<noteq> BENCODE_OK then Some (st, u') else feed cb es u'
   }"

lemma feed_append:
  "feed cb (es @ fs) u = do {
     (st, u') \<leftarrow> feed cb es u;
     if st \<noteq> BENCODE_OK then Some (st, u') else feed cb fs u'
   }"
proof (induction es arbitrary: u)
  case (Cons e es)
  then show ?case by (cases "deliver cb e u") (auto split: prod.splits)
qed simp

lemma feed_null [simp]: "feed None es u = Some (BENCODE_OK, u)"
proof (induction es)
  case (Cons e es)
  then show ?case by (cases e) (simp_all add: callback_def)
qed simp

text \<open>\<open>replay hi cb es st s' u r\<close>: the result \<open>r\<close> is that of reporting the events \<open>es\<close> and, if no
  callback objects, ending with status \<open>st\<close> in state \<open>s'\<close>.\<close>

definition replay :: "nat \<Rightarrow> 'u bencode_callbacks option \<Rightarrow> event list \<Rightarrow> bencode_status \<Rightarrow> sax_state
    \<Rightarrow> 'u \<Rightarrow> (bencode_status \<times> sax_state \<times> 'u) option \<Rightarrow> bool" where
  "replay hi cb es st s' u r \<longleftrightarrow>
     (case feed cb es u of
        None \<Rightarrow> r = None
      | Some (e, u') \<Rightarrow>
          if e = BENCODE_OK then r = Some (st, s', u')
          else \<exists>s''. r = Some (e, s'', u') \<and> cur s'' \<le> hi)"

lemma replay_Nil: "replay hi cb [] st s' u (Some (st, s', u))"
  by (simp add: replay_def)

lemma replay_event:
  "cur s' \<le> hi \<Longrightarrow> replay hi cb [e] BENCODE_OK s' u (do { (st, u) \<leftarrow> deliver cb e u; Some (st, s', u) })"
  by (cases "deliver cb e u") (auto simp: replay_def)

lemma replay_deliver:
  assumes "cur s1 \<le> hi" and "\<And>u. replay hi cb es st s' u (k u)"
  shows "replay hi cb (e # es) st s' u
    (do { (st, u) \<leftarrow> deliver cb e u; if st \<noteq> BENCODE_OK then Some (st, s1, u) else k u })"
proof (cases "deliver cb e u")
  case None
  then show ?thesis by (simp add: replay_def)
next
  case (Some x)
  then show ?thesis using assms(1) assms(2) [of "snd x"] by (cases x) (auto simp: replay_def)
qed

lemma replay_bind:
  assumes "replay hi cb es BENCODE_OK s1 u r" and "\<And>u. replay hi cb fs st s' u (k s1 u)"
    and "\<And>s. cur (g s) = cur s"
  shows "replay hi cb (es @ fs) st s' u
    (do { (st, s, u) \<leftarrow> r; if st \<noteq> BENCODE_OK then Some (st, g s, u) else k s u })"
proof (cases "feed cb es u")
  case None
  then show ?thesis using assms(1) by (simp add: replay_def feed_append)
next
  case (Some x)
  obtain e u' where x: "x = (e, u')" by (cases x)
  show ?thesis
  proof (cases "e = BENCODE_OK")
    case True
    then show ?thesis using Some x assms(1) assms(2) [of u'] by (auto simp: replay_def feed_append)
  next
    case False
    then show ?thesis using Some x assms(1,3) by (auto simp: replay_def feed_append)
  qed
qed

lemma replay_bind_fail:
  assumes "replay hi cb es st s1 u r" and "st \<noteq> BENCODE_OK" and "\<And>s. cur (g s) = cur s"
  shows "replay hi cb es st (g s1) u
    (do { (st, s, u) \<leftarrow> r; if st \<noteq> BENCODE_OK then Some (st, g s, u) else k s u })"
proof (cases "feed cb es u")
  case None
  then show ?thesis using assms(1) by (simp add: replay_def)
next
  case (Some x)
  obtain e u' where x: "x = (e, u')" by (cases x)
  show ?thesis
  proof (cases "e = BENCODE_OK")
    case True
    then show ?thesis using Some x assms(1,2) by (auto simp: replay_def)
  next
    case False
    then show ?thesis using Some x assms(1,3) by (auto simp: replay_def)
  qed
qed

section \<open>Reported events\<close>

text \<open>The strings that a list of events points to lie in the input.\<close>

definition in_input :: "'a list \<Rightarrow> event list \<Rightarrow> bool" where
  "in_input inp es \<longleftrightarrow> (\<forall>off len. EStr off len \<in> set es \<longrightarrow> off + len \<le> length inp)"

lemma in_input_simps [simp]:
  "in_input inp []" "in_input inp (es @ fs) \<longleftrightarrow> in_input inp es \<and> in_input inp fs"
  "in_input inp (EInt i # es) \<longleftrightarrow> in_input inp es"
  "in_input inp (EStr off len # es) \<longleftrightarrow> off + len \<le> length inp \<and> in_input inp es"
  "in_input inp (EListBegin # es) \<longleftrightarrow> in_input inp es" "in_input inp (EListEnd # es) \<longleftrightarrow> in_input inp es"
  "in_input inp (EDictBegin # es) \<longleftrightarrow> in_input inp es" "in_input inp (EDictEnd # es) \<longleftrightarrow> in_input inp es"
  by (auto simp: in_input_def)

lemma in_input_begin: "in_input inp [EListBegin]" "in_input inp [EDictBegin]"
  by simp_all

lemma events_in_input:
  "at_pos inp p (encode v) \<Longrightarrow> in_input inp (events p v)"
  "at_pos inp p (encode_items vs) \<Longrightarrow> in_input inp (events_items p vs)"
  "at_pos inp p (encode_entries es) \<Longrightarrow> in_input inp (events_entries p es)"
proof (induction p v and p vs and p es rule: events_events_items_events_entries.induct)
  case (2 p b)
  then show ?case using at_pos_le [OF 2] by (simp add: enc_str_def)
next
  case (8 p k v es)
  then show ?case using at_pos_le [of inp p "enc_str k"]
    by (simp add: at_pos_append add.assoc) (simp add: enc_str_def)
qed (simp_all add: at_pos_append at_pos_Cons)

text \<open>\<open>es\<close> is what was reported of \<open>all\<close>.\<close>

definition reported :: "'a list \<Rightarrow> event list \<Rightarrow> event list \<Rightarrow> bool" where
  "reported inp es all \<longleftrightarrow> prefix es all \<and> in_input inp es"

lemma reported_simps [simp]:
  "reported inp [] all" "reported inp (e # es) (e # all) \<longleftrightarrow> in_input inp [e] \<and> reported inp es all"
  "in_input inp evs \<Longrightarrow> reported inp (evs @ es) (evs @ all) \<longleftrightarrow> reported inp es all"
  by (auto simp: reported_def in_input_def)

lemma reported_append: "reported inp es all \<Longrightarrow> reported inp es (all @ rest)"
  by (simp add: reported_def)

section \<open>Outcomes\<close>

definition same_frame :: "sax_state \<Rightarrow> sax_state \<Rightarrow> bool" where
  "same_frame s s' \<longleftrightarrow> lim s' = lim s \<and> max_depth s' = max_depth s \<and> depth s' = depth s
     \<and> length (scopes s') = length (scopes s) \<and> (\<forall>i<depth s. scopes s' ! i = scopes s ! i)"

lemma same_frame_refl [simp]: "same_frame s s"
  by (simp add: same_frame_def)

lemma same_frame_advance [simp]: "same_frame s (advance n s') \<longleftrightarrow> same_frame s s'"
  by (simp add: same_frame_def)

lemma same_frame_trans: "same_frame s s' \<Longrightarrow> same_frame s' s'' \<Longrightarrow> same_frame s s''"
  by (simp add: same_frame_def)

lemma wf_state_frame: "wf_state inp s \<Longrightarrow> same_frame s s' \<Longrightarrow> cur s' \<le> length inp \<Longrightarrow> wf_state inp s'"
  by (simp add: wf_state_def same_frame_def)

text \<open>\<open>ok\<close> describes the values, \<open>text_of\<close> their text and \<open>evs\<close> their events; the three kinds of
  outcome below are instances.\<close>

definition outcome :: "byte list \<Rightarrow> ('x \<Rightarrow> bool) \<Rightarrow> ('x \<Rightarrow> byte list) \<Rightarrow> (nat \<Rightarrow> 'x \<Rightarrow> event list)
    \<Rightarrow> sax_state \<Rightarrow> sax_state \<Rightarrow> bencode_status \<Rightarrow> sax_state \<Rightarrow> event list \<Rightarrow> bool" where
  "outcome inp ok text_of evs s0 s st s' es \<longleftrightarrow>
     cur s \<le> cur s' \<and> cur s' \<le> length inp
     \<and> (if st = BENCODE_OK
        then same_frame s0 s' \<and> (\<exists>x. ok x \<and> at_pos inp (cur s) (text_of x)
               \<and> cur s' = cur s + length (text_of x) \<and> es = evs (cur s) x)
        else st \<in> parse_errors \<and> cur s + length es \<le> cur s' \<and> (\<forall>x. ok x \<longrightarrow> \<not> at_pos inp (cur s) (text_of x))
               \<and> (\<exists>x. ok x \<and> reported inp es (evs (cur s) x)))"

lemma outcome_okI:
  assumes "ok x" and "at_pos inp (cur s) (text_of x)" and "cur s' = cur s + length (text_of x)"
    and "es = evs (cur s) x" and "same_frame s0 s'"
  shows "outcome inp ok text_of evs s0 s BENCODE_OK s' es"
  using assms at_pos_le [OF assms(2)] by (auto simp: outcome_def)

lemma outcome_errorI:
  assumes "st \<in> parse_errors" and "\<And>x. ok x \<Longrightarrow> \<not> at_pos inp (cur s) (text_of x)"
    and "cur s + length es \<le> cur s'" and "cur s' \<le> length inp" and "ok x0" and "reported inp es (evs (cur s) x0)"
  shows "outcome inp ok text_of evs s0 s st s' es"
  using assms by (auto simp: outcome_def)

lemma replay_done:
  assumes "outcome inp ok text_of evs s0 s st s' []"
  shows "\<exists>st' s'' es. (\<forall>(cb :: 'u bencode_callbacks option) u. replay hi cb es st' s'' u (Some (st, s', u)))
     \<and> outcome inp ok text_of evs s0 s st' s'' es"
  by (intro exI [of _ st] exI [of _ s'] exI [of _ "[]"]) (simp add: assms replay_def)

lemma outcome_okE:
  assumes "outcome inp ok text_of evs s0 s BENCODE_OK s' es"
  obtains x where "ok x" and "at_pos inp (cur s) (text_of x)" and "cur s' = cur s + length (text_of x)"
    and "es = evs (cur s) x" and "same_frame s0 s'"
  using assms by (auto simp: outcome_def)

lemma outcome_errorE:
  assumes "outcome inp ok text_of evs s0 s st s' es" and "st \<noteq> BENCODE_OK"
  obtains x0 where "st \<in> parse_errors" and "\<And>x. ok x \<Longrightarrow> \<not> at_pos inp (cur s) (text_of x)"
    and "cur s + length es \<le> cur s'" and "cur s' \<le> length inp" and "ok x0" and "reported inp es (evs (cur s) x0)"
  using assms by (auto simp: outcome_def)

abbreviation value_outcome :: "byte list \<Rightarrow> nat \<Rightarrow> sax_state \<Rightarrow> bencode_status \<Rightarrow> sax_state
    \<Rightarrow> event list \<Rightarrow> bool" where
  "value_outcome inp d s \<equiv> outcome inp (canonical d) encode events s s"

definition value_spec :: "byte list \<Rightarrow> nat \<Rightarrow> 'u callback_parser \<Rightarrow> bool" where
  "value_spec inp n pv \<longleftrightarrow>
     (\<forall>s. wf_state inp s \<and> length inp - cur s < n \<longrightarrow>
        (\<exists>st s' es. (\<forall>cb u. replay (length inp) cb es st s' u (pv cb s u))
           \<and> value_outcome inp (max_depth s - depth s) s st s' es))"

lemma value_specD:
  assumes "value_spec inp n pv" and "wf_state inp s" and "length inp - cur s < n"
  obtains (parsed) s' v where "\<And>cb u. replay (length inp) cb (events (cur s) v) BENCODE_OK s' u (pv cb s u)"
      and "canonical (max_depth s - depth s) v" and "at_pos inp (cur s) (encode v)"
      and "cur s' = cur s + length (encode v)" and "same_frame s s'" and "cur s' \<le> length inp"
  | (error) st s' es w where "\<And>cb u. replay (length inp) cb es st s' u (pv cb s u)" and "st \<in> parse_errors"
      and "\<And>v. canonical (max_depth s - depth s) v \<Longrightarrow> \<not> at_pos inp (cur s) (encode v)"
      and "cur s + length es \<le> cur s'" and "cur s' \<le> length inp" and "st \<noteq> BENCODE_OK"
      and "canonical (max_depth s - depth s) w" and "reported inp es (events (cur s) w)"
proof -
  obtain st s' es where r: "\<And>cb u. replay (length inp) cb es st s' u (pv cb s u)"
    and out: "value_outcome inp (max_depth s - depth s) s st s' es"
    using assms unfolding value_spec_def by blast
  show thesis
  proof (cases "st = BENCODE_OK")
    case True
    with out obtain v where v: "canonical (max_depth s - depth s) v" "at_pos inp (cur s) (encode v)"
        "cur s' = cur s + length (encode v)" "es = events (cur s) v"
        and fr: "same_frame s s'" "cur s' \<le> length inp"
      by (auto simp: outcome_def)
    have "\<And>cb u. replay (length inp) cb (events (cur s) v) BENCODE_OK s' u (pv cb s u)"
      using r v True by simp
    then show thesis using v(1-3) fr by (rule parsed)
  next
    case False
    obtain w where w: "st \<in> parse_errors"
      "\<And>v. canonical (max_depth s - depth s) v \<Longrightarrow> \<not> at_pos inp (cur s) (encode v)"
      "cur s + length es \<le> cur s'" "cur s' \<le> length inp"
      "canonical (max_depth s - depth s) w" "reported inp es (events (cur s) w)"
      by (rule outcome_errorE [OF out False]) (rule that)
    show thesis using error [OF r w(1-4) False w(5,6)] .
  qed
qed

text \<open>At one position at most one value, or one string, can stand.\<close>

lemmas at_pos_encode_unique = encoded.at_pos_code_unique [OF UNIV_I]
lemmas at_pos_enc_str_unique = strings.at_pos_code_unique [OF UNIV_I]

lemma pop_scope_simps [simp]:
  "cur (pop_scope s) = cur s" "lim (pop_scope s) = lim s" "max_depth (pop_scope s) = max_depth s"
  "depth (pop_scope s) = depth s - 1" "scopes (pop_scope s) = scopes s"
  "pop_scope (advance n s) = advance n (pop_scope s)"
  by (simp_all add: pop_scope_def advance_def)

lemma same_frame_pop: "same_frame s s' \<Longrightarrow> same_frame (pop_scope s) (pop_scope s')"
  by (simp add: same_frame_def)

section \<open>Composing outcomes\<close>

text \<open>The operation \<open>p\<close> reports one list of events to every callback table, and ends in one outcome.\<close>

abbreviation specified :: "nat \<Rightarrow> ('u bencode_callbacks option \<Rightarrow> 'u \<Rightarrow> (bencode_status \<times> sax_state \<times> 'u) option)
    \<Rightarrow> (bencode_status \<Rightarrow> sax_state \<Rightarrow> event list \<Rightarrow> bool) \<Rightarrow> bool" where
  "specified hi p out \<equiv> \<exists>st s' es. (\<forall>cb u. replay hi cb es st s' u (p cb u)) \<and> out st s' es"

lemma specified_mono: "specified hi p out1 \<Longrightarrow> (\<And>st s' es. out1 st s' es \<Longrightarrow> out st s' es) \<Longrightarrow> specified hi p out"
  by blast

lemma specified_event:
  assumes "outcome inp ok text_of evs s0 s BENCODE_OK s' [ev]"
  shows "specified (length inp) (\<lambda>(cb :: 'u bencode_callbacks option) u. do { (st, u) \<leftarrow> deliver cb ev u; Some (st, s', u) })
    (outcome inp ok text_of evs s0 s)"
proof -
  have "cur s' \<le> length inp" using assms by (simp add: outcome_def)
  then show ?thesis
    by (intro exI [of _ BENCODE_OK] exI [of _ s'] exI [of _ "[ev]"]) (simp add: assms replay_event)
qed

text \<open>One step in front of a known rest: \<open>front\<close> is the text that the step consumed and \<open>ev\<close> its events;
  \<open>grow\<close> puts what it read in front of what remains.\<close>

lemma outcome_step:
  assumes out: "outcome inp ok1 text1 evs1 s01 s1 st s' es"
    and fr: "same_frame s0 s01" and c1: "cur s1 = cur s + length front"
    and at: "at_pos inp (cur s) front" and ev: "in_input inp ev" "length ev \<le> length front"
    and grow: "\<And>x. ok1 x \<Longrightarrow>
       ok (grow x) \<and> text_of (grow x) = front @ text1 x \<and> evs (cur s) (grow x) = ev @ evs1 (cur s1) x"
    and shrink: "\<And>x. ok x \<Longrightarrow> at_pos inp (cur s) (text_of x) \<Longrightarrow> \<exists>y. ok1 y \<and> at_pos inp (cur s1) (text1 y)"
  shows "outcome inp ok text_of evs s0 s st s' (ev @ es)"
proof (cases "st = BENCODE_OK")
  case True
  from outcome_okE [OF out [unfolded True]]
  obtain x where x: "ok1 x" "at_pos inp (cur s1) (text1 x)" "cur s' = cur s1 + length (text1 x)"
    "es = evs1 (cur s1) x" "same_frame s01 s'" .
  have "at_pos inp (cur s) (text_of (grow x))" using grow [OF x(1)] at x(2) c1 by (simp add: at_pos_append)
  then show ?thesis unfolding True
    using grow [OF x(1)] x c1 same_frame_trans [OF fr] by (intro outcome_okI [of _ "grow x"]) auto
next
  case False
  obtain x where
    e: "st \<in> parse_errors" "cur s1 + length es \<le> cur s'" "cur s' \<le> length inp"
    and none: "\<And>y. ok1 y \<Longrightarrow> \<not> at_pos inp (cur s1) (text1 y)"
    and x: "ok1 x" "reported inp es (evs1 (cur s1) x)"
    by (rule outcome_errorE [OF out False]) (rule that)
  show ?thesis
  proof (rule outcome_errorI [where ?x0.0 = "grow x", OF e(1)])
    show "reported inp (ev @ es) (evs (cur s) (grow x))" using grow [OF x(1)] x(2) ev(1) by simp
  qed (use grow [OF x(1)] shrink none e c1 ev(2) in \<open>blast, simp_all\<close>)
qed

text \<open>A value in front of a known rest: \<open>k\<close> is what the parser does after it.\<close>

lemma value_step:
  fixes pv :: "'u callback_parser"
  assumes pv: "value_spec inp n pv" and wf: "wf_state inp s" and fuel: "length inp - cur s < n"
    and error: "\<And>st s' es w. st \<in> parse_errors \<Longrightarrow>
        (\<And>v. canonical (max_depth s - depth s) v \<Longrightarrow> \<not> at_pos inp (cur s) (encode v)) \<Longrightarrow>
        cur s + length es \<le> cur s' \<Longrightarrow> cur s' \<le> length inp \<Longrightarrow> canonical (max_depth s - depth s) w \<Longrightarrow>
        reported inp es (events (cur s) w) \<Longrightarrow> out st (pop_scope s') es"
    and rest: "\<And>s1 v. canonical (max_depth s - depth s) v \<Longrightarrow> at_pos inp (cur s) (encode v) \<Longrightarrow>
        cur s1 = cur s + length (encode v) \<Longrightarrow> same_frame s s1 \<Longrightarrow> wf_state inp s1 \<Longrightarrow>
        specified (length inp) (\<lambda>cb. k cb s1) (\<lambda>st s' es. out st s' (events (cur s) v @ es))"
  shows "specified (length inp) (\<lambda>cb u. do { (st, s', u) \<leftarrow> pv cb s u;
        if st \<noteq> BENCODE_OK then Some (st, pop_scope s', u) else k cb s' u }) out"
proof (rule value_specD [OF pv wf fuel])
  fix st s' es w
  assume r: "\<And>cb u. replay (length inp) cb es st s' u (pv cb s u)" and ne: "st \<noteq> BENCODE_OK"
    and e: "st \<in> parse_errors" "\<And>v. canonical (max_depth s - depth s) v \<Longrightarrow> \<not> at_pos inp (cur s) (encode v)"
      "cur s + length es \<le> cur s'" "cur s' \<le> length inp" "canonical (max_depth s - depth s) w"
      "reported inp es (events (cur s) w)"
  have "out st (pop_scope s') es" by (rule error [OF e])
  moreover have "replay (length inp) cb es st (pop_scope s') u (do { (st, s', u) \<leftarrow> pv cb s u;
      if st \<noteq> BENCODE_OK then Some (st, pop_scope s', u) else k cb s' u })" for cb u
    by (rule replay_bind_fail [OF r ne]) simp
  ultimately show ?thesis by blast
next
  fix s1 v
  assume r: "\<And>cb u. replay (length inp) cb (events (cur s) v) BENCODE_OK s1 u (pv cb s u)"
    and v: "canonical (max_depth s - depth s) v" "at_pos inp (cur s) (encode v)" "cur s1 = cur s + length (encode v)"
    and fr: "same_frame s s1" and le: "cur s1 \<le> length inp"
  obtain st s' es where r2: "\<And>cb u. replay (length inp) cb es st s' u (k cb s1 u)"
    and out: "out st s' (events (cur s) v @ es)" using rest [OF v fr wf_state_frame [OF wf fr le]] by blast
  have "replay (length inp) cb (events (cur s) v @ es) st s' u (do { (st, s', u) \<leftarrow> pv cb s u;
      if st \<noteq> BENCODE_OK then Some (st, pop_scope s', u) else k cb s' u })" for cb u
    by (rule replay_bind [where k = "k cb", OF r r2]) simp
  then show ?thesis using out by blast
qed

end
