(* ===== verification/Sax_Loops.thy ===== *)
theory Sax_Loops
  imports Sax_Outcome
begin

text \<open>
  The loops of the SAX parser over the items of a list and over the entries of a dictionary: each
  iteration is one step in front of an outcome of the rest of the loop.
\<close>

section \<open>Lists\<close>

abbreviation items_text :: "bval list \<Rightarrow> byte list" where
  "items_text vs \<equiv> encode_items vs @ [101]"

abbreviation items_outcome :: "byte list \<Rightarrow> nat \<Rightarrow> sax_state \<Rightarrow> bencode_status \<Rightarrow> sax_state
    \<Rightarrow> event list \<Rightarrow> bool" where
  "items_outcome inp d s \<equiv> outcome inp (\<lambda>vs. \<forall>v\<in>set vs. canonical d v) items_text
     (\<lambda>p vs. events_items p vs @ [EListEnd]) (pop_scope s) s"

lemma at_pos_items:
  assumes "at_pos inp p (items_text vs)" and "inp ! p \<noteq> 101"
  obtains v ws where "vs = v # ws" and "at_pos inp p (encode v)" and "at_pos inp (p + length (encode v)) (items_text ws)"
  using assms by (cases vs) (auto simp: at_pos_single at_pos_append add.assoc)

text \<open>One iteration at an item; \<open>k\<close> is the rest of the loop.\<close>

lemma list_item_step:
  fixes pv :: "'u callback_parser"
  assumes "value_spec inp n pv" and wf: "wf_state inp s" and "length inp - cur s < n" and ne: "inp ! cur s \<noteq> 101"
    and IH: "\<And>s1. wf_state inp s1 \<Longrightarrow> depth s1 = depth s \<Longrightarrow> max_depth s1 = max_depth s \<Longrightarrow> cur s < cur s1 \<Longrightarrow>
        specified (length inp) (\<lambda>cb. k cb s1) (items_outcome inp (max_depth s - depth s) s1)"
  shows "specified (length inp) (\<lambda>cb u. do { (st, s', u) \<leftarrow> pv cb s u;
        if st \<noteq> BENCODE_OK then Some (st, pop_scope s', u) else k cb s' u }) (items_outcome inp (max_depth s - depth s) s)"
proof (rule value_step [OF assms(1-3)])
  fix st es w and s' :: sax_state
  assume e: "st \<in> parse_errors" "\<And>v. canonical (max_depth s - depth s) v \<Longrightarrow> \<not> at_pos inp (cur s) (encode v)"
    "cur s + length es \<le> cur s'" "cur s' \<le> length inp"
    and w: "canonical (max_depth s - depth s) w" "reported inp es (events (cur s) w)"
  have "\<not> at_pos inp (cur s) (items_text vs)" if "\<forall>v\<in>set vs. canonical (max_depth s - depth s) v" for vs
    using at_pos_items [OF _ ne, of vs] that e(2) by fastforce
  then show "items_outcome inp (max_depth s - depth s) s st (pop_scope s') es"
    using e w reported_append by (intro outcome_errorI [where ?x0.0 = "[w]"]) auto
next
  fix v and s1 :: sax_state
  assume v: "canonical (max_depth s - depth s) v" and at: "at_pos inp (cur s) (encode v)"
    and c1: "cur s1 = cur s + length (encode v)" and fr: "same_frame s s1" and wf1: "wf_state inp s1"
  have s1: "depth s1 = depth s" "max_depth s1 = max_depth s" "cur s < cur s1" using fr c1 by (simp_all add: same_frame_def)
  show "specified (length inp) (\<lambda>cb. k cb s1)
      (\<lambda>st s' es. items_outcome inp (max_depth s - depth s) s st s' (events (cur s) v @ es))"
  proof (rule specified_mono [OF IH [OF wf1 s1]])
    show "items_outcome inp (max_depth s - depth s) s st s' (events (cur s) v @ es)"
      if "items_outcome inp (max_depth s - depth s) s1 st s' es" for st s' es
    proof (rule outcome_step [where grow = "(#) v",
        OF that same_frame_pop [OF fr] c1 at events_in_input(1) [OF at] length_events(1)], goal_cases)
      case (1 vs)
      then show ?case using v c1 by simp
    next
      case (2 vs)
      from at_pos_items [OF 2(2) ne] obtain w ws where w: "vs = w # ws" "at_pos inp (cur s) (encode w)"
        "at_pos inp (cur s + length (encode w)) (items_text ws)" .
      then have "w = v" using at_pos_encode_unique [OF at] by simp
      then show ?case using w 2(1) c1 by (intro exI [of _ ws]) simp
    qed
  qed
qed

lemma parse_list_loop_spec:
  fixes pv :: "'u callback_parser"
  assumes "value_spec inp n pv" and "wf_state inp s" and "0 < depth s"
    and "length inp - cur s < m" and "length inp - cur s < n"
  shows "specified (length inp) (\<lambda>cb u. parse_list_loop (pv cb) inp cb m s u) (items_outcome inp (max_depth s - depth s) s)"
  using assms(2-)
proof (induction m arbitrary: s)
  case 0
  then show ?case by simp
next
  case (Suc m)
  note wf = Suc.prems(1)
  have lim: "lim s = length inp" "cur s \<le> length inp" using wf by (simp_all add: wf_state_def)
  consider (cut) "\<not> cur s < length inp" | (close) "cur s < length inp" "inp ! cur s = 101"
    | (item) "cur s < length inp" "inp ! cur s \<noteq> 101" by blast
  then show ?case
  proof cases
    case cut
    then have go: "parse_list_loop (pv cb) inp cb (Suc m) s u = Some (BENCODE_ERR_TRUNCATED, pop_scope s, u)" for cb u
      using lim by (simp add: at_end_def)
    have "\<not> at_pos inp (cur s) (items_text vs)" for vs
      using cut at_pos_le [of inp "cur s" "items_text vs"] by auto
    then have "items_outcome inp (max_depth s - depth s) s BENCODE_ERR_TRUNCATED (pop_scope s) []"
      using lim by (intro outcome_errorI [where ?x0.0 = "[]"]) auto
    then show ?thesis unfolding go by (rule replay_done)
  next
    case close
    then have go: "parse_list_loop (pv cb) inp cb (Suc m) s u = do {
        (st, u) \<leftarrow> deliver cb EListEnd u; Some (st, advance 1 (pop_scope s), u) }" for cb u
      using lim by (simp add: at_end_def peek_def)
    have "items_outcome inp (max_depth s - depth s) s BENCODE_OK (advance 1 (pop_scope s)) [EListEnd]"
      using close by (intro outcome_okI [of _ "[]"]) (auto simp: at_pos_single)
    then show ?thesis unfolding go by (rule specified_event)
  next
    case item
    then have go: "parse_list_loop (pv cb) inp cb (Suc m) s u = do {
        (st, s, u) \<leftarrow> pv cb s u;
        if st \<noteq> BENCODE_OK then Some (st, pop_scope s, u) else parse_list_loop (pv cb) inp cb m s u }" for cb u
      using lim by (simp add: at_end_def peek_def)
    show ?thesis unfolding go
    proof (rule list_item_step [where k = "\<lambda>cb. parse_list_loop (pv cb) inp cb m", OF assms(1) wf Suc.prems(4) item(2)])
      fix s1
      assume s1: "wf_state inp s1" "depth s1 = depth s" "max_depth s1 = max_depth s" "cur s < cur s1"
      then have "0 < depth s1" "length inp - cur s1 < m" "length inp - cur s1 < n" using Suc.prems item(1) by linarith+
      from Suc.IH [OF s1(1) this] show "specified (length inp) (\<lambda>cb. parse_list_loop (pv cb) inp cb m s1)
          (items_outcome inp (max_depth s - depth s) s1)" unfolding s1(2,3) .
    qed
  qed
qed

section \<open>Dictionaries\<close>

text \<open>The entries that may follow the key \<open>lk\<close>.\<close>

fun entries_ok :: "nat \<Rightarrow> byte list option \<Rightarrow> (byte list \<times> bval) list \<Rightarrow> bool" where
  "entries_ok d lk [] \<longleftrightarrow> True"
| "entries_ok d lk ((k, v) # es) \<longleftrightarrow> (\<forall>l. lk = Some l \<longrightarrow> l < k) \<and> length k \<le> SIZE_MAX
     \<and> canonical d v \<and> entries_ok d (Some k) es"

lemma entries_ok_canonical:
  "entries_ok d lk es \<longleftrightarrow> sorted_wrt (<) (map fst es) \<and> (\<forall>l. lk = Some l \<longrightarrow> (\<forall>k\<in>fst ` set es. l < k))
     \<and> (\<forall>(k, v)\<in>set es. length k \<le> SIZE_MAX \<and> canonical d v)"
proof (induction d lk es rule: entries_ok.induct)
  case (2 d lk k v es)
  then show ?case by (cases lk) (fastforce intro: less_trans)+
qed simp

text \<open>The key that a scope remembers, and when the stored pointer is readable.\<close>

definition remembered :: "byte list \<Rightarrow> sax_scope \<Rightarrow> byte list option" where
  "remembered inp sc = map_option (\<lambda>off. slice inp off (last_key_len sc)) (last_key sc)"

definition scope_ok :: "byte list \<Rightarrow> sax_scope \<Rightarrow> bool" where
  "scope_ok inp sc \<longleftrightarrow> (\<forall>off. last_key sc = Some off \<longrightarrow> off + last_key_len sc \<le> length inp)"

text \<open>The state after a key \<open>k\<close> has been accepted into the scope \<open>sc\<close> at index \<open>i\<close>.\<close>

definition after_key :: "sax_state \<Rightarrow> nat \<Rightarrow> sax_scope \<Rightarrow> byte list \<Rightarrow> sax_state" where
  "after_key s i sc k = (advance (length (enc_str k)) s)
     \<lparr>scopes := (scopes s)[i := Some (sc\<lparr>last_key := Some (cur s + length (dec (length k)) + 1),
        last_key_len := length k, expecting_key := False\<rparr>)]\<rparr>"

lemma at_pos_enc_str_payload:
  "at_pos inp p (enc_str k) \<Longrightarrow> at_pos inp (p + length (dec (length k)) + 1) k"
  by (simp add: enc_str_def at_pos_append at_pos_Cons)

lemma read_payload:
  assumes "at_pos inp p (enc_str k)"
  shows "read_input inp (p + length (dec (length k)) + 1) (length k) = Some k"
  using at_pos_enc_str_payload [OF assms] by (simp add: read_input_def at_pos_def)

lemma parse_dict_key_at:
  assumes "wf_state inp s" and "get_scope s i = Some sc" and "scope_ok inp sc"
    and at: "at_pos inp (cur s) (enc_str k)"
  shows "parse_dict_key inp cb s i u =
    (if remembered inp sc = Some k then Some (BENCODE_ERR_DICT_DUPLICATE, advance (length (enc_str k)) s, u)
     else if \<exists>l. remembered inp sc = Some l \<and> k < l
     then Some (BENCODE_ERR_DICT_UNSORTED, advance (length (enc_str k)) s, u)
     else do {
       (st, u) \<leftarrow> deliver cb (EStr (cur s + length (dec (length k)) + 1) (length k)) u;
       Some (st, after_key s i sc k, u) })"
proof -
  have lim: "lim s = length inp" "cur s \<le> lim s" "length inp \<le> SIZE_MAX"
    using assms(1) by (simp_all add: wf_state_def)
  obtain b bs where b: "enc_str k = b # bs" "is_digit b" using enc_str_Cons by blast
  then have pk: "peek inp s = Some b" using at by (simp add: peek_def at_pos_Cons)
  have ps: "parse_string inp s = Some (BENCODE_OK, cur s + length (dec (length k)) + 1, length k,
      advance (length (enc_str k)) s)"
  proof (rule parse_string_cases [OF lim(2,1,3)])
    fix b
    assume "at_pos inp (cur s) (enc_str b)"
      and "parse_string inp s = Some (BENCODE_OK, cur s + length (dec (length b)) + 1, length b,
            advance (length (enc_str b)) s)"
    then show ?thesis using at_pos_enc_str_unique [OF at] by simp
  next
    fix st n
    assume "\<And>b. \<not> at_pos inp (cur s) (enc_str b)"
    then show ?thesis using at by blast
  qed
  have i: "i < length (scopes s)" using assms(2) by (simp add: get_scope_def split: if_splits)
  have sc: "get_scope (advance n s) i = Some sc" for n
    using assms(2) by (simp add: get_scope_def split: if_splits)
  define c where "c = (case remembered inp sc of None \<Rightarrow> -1 | Some l \<Rightarrow> bytes_cmp l k)"
  have cmp: "(case last_key sc of None \<Rightarrow> Some (-1)
      | Some lk \<Rightarrow> do {
          prev \<leftarrow> read_input inp lk (last_key_len sc);
          this \<leftarrow> read_input inp (cur s + length (dec (length k)) + 1) (length k);
          Some (bytes_cmp prev this) }) = Some c"
    using assms(3) read_payload [OF at]
    by (auto simp: c_def remembered_def scope_ok_def read_input_def split: option.splits)
  have put: "put_scope (advance (length (enc_str k)) s) i
      (sc\<lparr>last_key := Some (cur s + length (dec (length k)) + 1), last_key_len := length k,
          expecting_key := False\<rparr>) = Some (after_key s i sc k)"
    using i by (simp add: put_scope_def after_key_def)
  have "parse_dict_key inp cb s i u =
      (if c = 0 then Some (BENCODE_ERR_DICT_DUPLICATE, advance (length (enc_str k)) s, u)
       else if c > 0 then Some (BENCODE_ERR_DICT_UNSORTED, advance (length (enc_str k)) s, u)
       else do {
         (st, u) \<leftarrow> deliver cb (EStr (cur s + length (dec (length k)) + 1) (length k)) u;
         Some (st, after_key s i sc k, u) })"
    using pk b(2) sc by (simp only: parse_dict_key_def ps cmp put Option.bind.simps prod.case) simp
  moreover have "c = 0 \<longleftrightarrow> remembered inp sc = Some k"
    by (auto simp: c_def bytes_cmp.cmp_zero split: option.splits)
  moreover have "c > 0 \<longleftrightarrow> (\<exists>l. remembered inp sc = Some l \<and> k < l)"
    by (auto simp: c_def bytes_cmp.cmp_greater split: option.splits)
  ultimately show ?thesis by simp
qed

lemma parse_dict_key_cases:
  assumes "wf_state inp s" and "cur s < length inp" and "get_scope s i = Some sc"
    and "scope_ok inp sc"
  obtains (key) k where "at_pos inp (cur s) (enc_str k)"
      and "\<forall>l. remembered inp sc = Some l \<longrightarrow> l < k"
      and "\<And>(cb :: 'u bencode_callbacks option) u. parse_dict_key inp cb s i u = do {
             (st, u) \<leftarrow> deliver cb (EStr (cur s + length (dec (length k)) + 1) (length k)) u;
             Some (st, after_key s i sc k, u) }"
  | (error) st s' where "\<And>(cb :: 'u bencode_callbacks option) u. parse_dict_key inp cb s i u = Some (st, s', u)" and "st \<in> parse_errors"
      and "cur s \<le> cur s'" and "cur s' \<le> length inp"
      and "\<And>k. \<forall>l. remembered inp sc = Some l \<longrightarrow> l < k \<Longrightarrow> \<not> at_pos inp (cur s) (enc_str k)"
proof -
  have lim: "lim s = length inp" "cur s \<le> lim s" "length inp \<le> SIZE_MAX"
    using assms(1) by (simp_all add: wf_state_def)
  have pk: "peek inp s = Some (inp ! cur s)" using assms(2) by (simp add: peek_def)
  show thesis
  proof (cases "is_digit (inp ! cur s)")
    case False
    have "\<not> at_pos inp (cur s) (enc_str k)" for k
      using enc_str_Cons [of k] False by (auto simp: at_pos_Cons)
    then show thesis using False pk lim
      by (intro error [of BENCODE_ERR_DICT_BAD_KEY s]) (simp_all add: parse_dict_key_def)
  next
    case digit: True
    show thesis
    proof (rule parse_string_cases [OF lim(2,1,3)])
      fix st k
      assume "parse_string inp s = Some (st, 0, 0, advance k s)" and "st \<in> scan_errors"
        and "cur s + k \<le> lim s" and "\<And>b. \<not> at_pos inp (cur s) (enc_str b)"
      moreover from this have "st \<noteq> BENCODE_OK" by auto
      ultimately show thesis using pk digit lim
        by (intro error [of st "advance k s"]) (simp_all add: parse_dict_key_def)
    next
      fix k
      assume at: "at_pos inp (cur s) (enc_str k)"
      note go = parse_dict_key_at [OF assms(1,3,4) at]
      show thesis
      proof (cases "\<forall>l. remembered inp sc = Some l \<longrightarrow> l < k")
        case True
        then have "remembered inp sc \<noteq> Some k" "\<not> (\<exists>l. remembered inp sc = Some l \<and> k < l)" by auto
        then show thesis by (intro key [OF at True]) (simp only: go if_False)
      next
        case False
        then have "remembered inp sc = Some k \<or> (\<exists>l. remembered inp sc = Some l \<and> k < l)"
          using not_less_iff_gr_or_eq by blast
        then show thesis using go False at_pos_le [OF at] at_pos_enc_str_unique [OF at]
          by (intro error [of "if remembered inp sc = Some k then BENCODE_ERR_DICT_DUPLICATE else BENCODE_ERR_DICT_UNSORTED"
                "advance (length (enc_str k)) s"]) auto
      qed
    qed
  qed
qed

text \<open>What a dictionary body still has to show: the value of the last key, if it is pending, then
  further entries, then the end mark.\<close>

type_synonym dict_rest = "bval option \<times> (byte list \<times> bval) list"

fun rest_ok :: "nat \<Rightarrow> bool \<Rightarrow> byte list option \<Rightarrow> dict_rest \<Rightarrow> bool" where
  "rest_ok d key_next lk (vo, es) \<longleftrightarrow>
     (key_next \<longleftrightarrow> vo = None) \<and> (\<forall>v. vo = Some v \<longrightarrow> canonical d v) \<and> entries_ok d lk es"

fun rest_text :: "dict_rest \<Rightarrow> byte list" where
  "rest_text (None, es) = encode_entries es @ [101]"
| "rest_text (Some v, es) = encode v @ encode_entries es @ [101]"

fun rest_events :: "nat \<Rightarrow> dict_rest \<Rightarrow> event list" where
  "rest_events p (None, es) = events_entries p es @ [EDictEnd]"
| "rest_events p (Some v, es) =
     events p v @ events_entries (p + length (encode v)) es @ [EDictEnd]"

abbreviation rest_outcome :: "byte list \<Rightarrow> nat \<Rightarrow> sax_scope \<Rightarrow> sax_state \<Rightarrow> bencode_status
    \<Rightarrow> sax_state \<Rightarrow> event list \<Rightarrow> bool" where
  "rest_outcome inp d sc s \<equiv> outcome inp (rest_ok d (expecting_key sc) (remembered inp sc)) rest_text
     rest_events (pop_scope s) s"

text \<open>The least there can be.\<close>

definition rest_stub :: "sax_scope \<Rightarrow> dict_rest" where
  "rest_stub sc = (if expecting_key sc then None else Some (BInt 0), [])"

lemma canonical_BInt_0 [simp]: "INT64_MIN \<le> 0" "0 \<le> INT64_MAX"
  by (simp_all add: INT64_MIN_def INT64_MAX_def)

lemma rest_ok_stub [simp]: "rest_ok d (expecting_key sc) lk (rest_stub sc)"
  by (simp add: rest_stub_def)

lemma at_pos_rest_key:
  assumes "at_pos inp p (rest_text (None, es))" and "inp ! p \<noteq> 101"
  obtains k v fs where "es = (k, v) # fs" and "at_pos inp p (enc_str k)"
    and "at_pos inp (p + length (enc_str k)) (rest_text (Some v, fs))"
  using assms by (cases es) (auto simp: at_pos_single at_pos_append add.assoc)

lemma at_pos_rest_value:
  assumes "at_pos inp p (rest_text (Some v, es))"
  shows "at_pos inp p (encode v) \<and> at_pos inp (p + length (encode v)) (rest_text (None, es))"
  using assms by (auto simp: at_pos_append add.assoc)

lemma at_pos_end_unique:
  assumes "at_pos inp p (rest_text (vo, es))" and "inp ! p = 101"
  shows "vo = None \<and> es = []"
proof (cases vo)
  case None
  show ?thesis
  proof (cases es)
    case Nil
    then show ?thesis using None by simp
  next
    case (Cons e fs)
    obtain k v where e: "e = (k, v)" by (cases e)
    have "at_pos inp p (enc_str k)" using assms(1) None Cons e by (simp add: at_pos_append)
    then show ?thesis using enc_str_Cons [of k] assms(2) not_digit_marks(1)
      by (auto simp: at_pos_Cons)
  qed
next
  case (Some v)
  then have "at_pos inp p (encode v)" using assms(1) by (simp add: at_pos_append)
  then show ?thesis using encode_Cons [of v] assms(2) starts_not_end [of v]
    by (auto simp: at_pos_Cons)
qed

lemma remembered_after_key:
  fixes sc :: sax_scope
  assumes "at_pos inp p (enc_str k)"
  defines "sc' \<equiv> sc\<lparr>last_key := Some (p + length (dec (length k)) + 1), last_key_len := length k,
       expecting_key := False\<rparr>"
  shows "remembered inp sc' = Some k" and "scope_ok inp sc'" and "\<not> expecting_key sc'"
  using at_pos_enc_str_payload [OF assms(1)] by (auto simp: sc'_def remembered_def scope_ok_def at_pos_def)

lemma get_scope_simps [simp]:
  "get_scope (advance n s) i = get_scope s i" "get_scope (pop_scope s) i = get_scope s i"
  by (simp_all add: get_scope_def)

lemma get_scope_frame:
  "same_frame s s' \<Longrightarrow> i < depth s \<Longrightarrow> get_scope s' i = get_scope s i"
  by (simp add: same_frame_def get_scope_def)

lemma get_scope_bound: "get_scope s i = Some sc \<Longrightarrow> i < length (scopes s)"
  by (simp add: get_scope_def split: if_splits)

text \<open>Replacing the top scope leaves the frame below it, and the rest of the state, as they were.\<close>

lemma with_scope:
  fixes sc' :: sax_scope
  assumes "wf_state inp s" and "get_scope s (depth s - 1) = Some sc" and "0 < depth s"
    and "cur s + n \<le> length inp"
  defines "s' \<equiv> (advance n s)\<lparr>scopes := (scopes s)[depth s - 1 := Some sc']\<rparr>"
  shows "wf_state inp s'" and "get_scope s' (depth s' - 1) = Some sc'"
    and "same_frame (pop_scope s) (pop_scope s')" and "depth s' = depth s"
    and "max_depth s' = max_depth s" and "cur s' = cur s + n"
  using assms get_scope_bound [OF assms(2)]
  by (simp_all add: s'_def wf_state_def get_scope_def same_frame_def)

text \<open>A key, or a value, in front of what remains.\<close>

lemma outcome_key:
  fixes sc :: sax_scope
  assumes wf: "wf_state inp s" and at: "at_pos inp (cur s) (enc_str key)" and ne: "inp ! cur s \<noteq> 101"
    and less: "\<forall>l. remembered inp sc = Some l \<longrightarrow> l < key" and key_next: "expecting_key sc"
    and s1: "same_frame (pop_scope s) (pop_scope s1)" "cur s1 = cur s + length (enc_str key)"
    and out: "rest_outcome inp d (sc\<lparr>last_key := Some (cur s + length (dec (length key)) + 1),
      last_key_len := length key, expecting_key := False\<rparr>) s1 st s' es"
  shows "rest_outcome inp d sc s st s' ([EStr (cur s + length (dec (length key)) + 1) (length key)] @ es)"
proof -
  note le = at_pos_le [OF at]
  note sc1 = remembered_after_key [OF at, of sc]
  have len: "length key \<le> SIZE_MAX" using wf le by (simp add: wf_state_def enc_str_def)
  show ?thesis
  proof (rule outcome_step [where grow = "\<lambda>(vo, fs). (None, (key, the vo) # fs)", OF out s1 at], goal_cases)
    case (3 x)
    then show ?case using sc1 key_next less len s1(2) by (cases x; cases "fst x") auto
  next
    case (4 x)
    then obtain fs where x: "x = (None, fs)" using key_next by (cases x) auto
    with 4 at_pos_rest_key [OF _ ne] obtain key' v gs where
      "fs = (key', v) # gs" "at_pos inp (cur s) (enc_str key')"
      "at_pos inp (cur s + length (enc_str key')) (rest_text (Some v, gs))" by blast
    then show ?case using 4 x at_pos_enc_str_unique [OF at] sc1 s1(2)
      by (intro exI [of _ "(Some v, gs)"]) auto
  qed (use le in \<open>simp_all add: enc_str_def\<close>)
qed

lemma outcome_value:
  fixes sc sc1 :: sax_scope
  assumes v: "canonical d v" and at: "at_pos inp (cur s) (encode v)" and val_next: "\<not> expecting_key sc"
    and s1: "same_frame (pop_scope s) (pop_scope s1)" "cur s1 = cur s + length (encode v)"
    and sc1: "expecting_key sc1" "remembered inp sc1 = remembered inp sc"
    and out: "rest_outcome inp d sc1 s1 st s' es"
  shows "rest_outcome inp d sc s st s' (events (cur s) v @ es)"
proof (rule outcome_step [where grow = "\<lambda>(vo, fs). (Some v, fs)",
    OF out s1 at events_in_input(1) [OF at] length_events(1)], goal_cases)
  case (1 x)
  then show ?case using sc1 val_next v s1(2) by (cases x; cases "fst x") auto
next
  case (2 x)
  then obtain w fs where x: "x = (Some w, fs)" using val_next by (cases x) auto
  with 2 at_pos_rest_value have "at_pos inp (cur s) (encode w)"
    "at_pos inp (cur s + length (encode w)) (rest_text (None, fs))" by blast+
  then show ?case using 2 x at_pos_encode_unique [OF at] sc1 s1(2) by (intro exI [of _ "(None, fs)"]) auto
qed

text \<open>One iteration at a key, and one at a value; \<open>k\<close> is the rest of the loop.\<close>

lemma dict_key_step:
  assumes wf: "wf_state inp s" and "0 < depth s" and sc: "get_scope s (depth s - 1) = Some sc"
    and "scope_ok inp sc" and "cur s < length inp" and ne: "inp ! cur s \<noteq> 101"
    and key_next: "expecting_key sc"
    and IH: "\<And>s1 sc1. wf_state inp s1 \<Longrightarrow> depth s1 = depth s \<Longrightarrow> max_depth s1 = max_depth s \<Longrightarrow>
        get_scope s1 (depth s1 - 1) = Some sc1 \<Longrightarrow> scope_ok inp sc1 \<Longrightarrow> cur s < cur s1 \<Longrightarrow>
        specified (length inp) (\<lambda>(cb :: 'u bencode_callbacks option). k cb s1) (rest_outcome inp d sc1 s1)"
  shows "specified (length inp) (\<lambda>(cb :: 'u bencode_callbacks option) u.
        do { (st, s, u) \<leftarrow> parse_dict_key inp cb s (depth s - 1) u;
             if st \<noteq> BENCODE_OK then Some (st, pop_scope s, u) else k cb s u }) (rest_outcome inp d sc s)"
proof (rule parse_dict_key_cases [OF wf assms(5) sc assms(4)])
  fix st s'
  assume r: "\<And>(cb :: 'u bencode_callbacks option) u. parse_dict_key inp cb s (depth s - 1) u = Some (st, s', u)" and st: "st \<in> parse_errors"
    and le: "cur s \<le> cur s'" "cur s' \<le> length inp"
    and none: "\<And>k. \<forall>l. remembered inp sc = Some l \<longrightarrow> l < k \<Longrightarrow> \<not> at_pos inp (cur s) (enc_str k)"
  have "\<not> at_pos inp (cur s) (rest_text x)" if ok: "rest_ok d (expecting_key sc) (remembered inp sc) x" for x
  proof
    assume at: "at_pos inp (cur s) (rest_text x)"
    obtain fs where x: "x = (None, fs)" using ok key_next by (cases x) auto
    from at_pos_rest_key [OF at [unfolded x] ne] obtain k v gs
      where "fs = (k, v) # gs" "at_pos inp (cur s) (enc_str k)" .
    then show False using ok x none by auto
  qed
  then have "rest_outcome inp d sc s st (pop_scope s') []"
    using st le key_next by (intro outcome_errorI [where ?x0.0 = "(None, [])"]) auto
  moreover have "st \<noteq> BENCODE_OK" using st by auto
  ultimately show ?thesis using r replay_Nil [of "length inp" _ st "pop_scope s'"] by force
next
  fix key
  assume at: "at_pos inp (cur s) (enc_str key)" and less: "\<forall>l. remembered inp sc = Some l \<longrightarrow> l < key"
    and r: "\<And>(cb :: 'u bencode_callbacks option) u. parse_dict_key inp cb s (depth s - 1) u = do {
        (st, u) \<leftarrow> deliver cb (EStr (cur s + length (dec (length key)) + 1) (length key)) u;
        Some (st, after_key s (depth s - 1) sc key, u) }"
  let ?ev = "EStr (cur s + length (dec (length key)) + 1) (length key)"
  let ?sc1 = "sc\<lparr>last_key := Some (cur s + length (dec (length key)) + 1),
      last_key_len := length key, expecting_key := False\<rparr>"
  define s1 where "s1 = after_key s (depth s - 1) sc key"
  note le = at_pos_le [OF at]
  note s1 = with_scope [OF wf sc assms(2) le, of ?sc1, folded after_key_def s1_def]
  note sc1 = remembered_after_key [OF at, of sc]
  have "cur s < cur s1" using s1(6) by (simp add: enc_str_def)
  from IH [OF s1(1,4,5,2) sc1(2) this] obtain st s' es where
    r2: "\<And>(cb :: 'u bencode_callbacks option) u. replay (length inp) cb es st s' u (k cb s1 u)" and out: "rest_outcome inp d ?sc1 s1 st s' es"
    by blast
  have "rest_outcome inp d sc s st s' ([?ev] @ es)" by (rule outcome_key [OF wf at ne less key_next s1(3,6) out])
  moreover have "replay (length inp) cb ([?ev] @ es) st s' u
      (do { (st, s, u) \<leftarrow> parse_dict_key inp cb s (depth s - 1) u;
            if st \<noteq> BENCODE_OK then Some (st, pop_scope s, u) else k cb s u })" for cb :: "'u bencode_callbacks option" and u
  proof (rule replay_bind [where k = "k cb", OF _ r2])
    show "replay (length inp) cb [?ev] BENCODE_OK s1 u (parse_dict_key inp cb s (depth s - 1) u)"
      unfolding r s1_def [symmetric] by (rule replay_event) (use s1(6) le in simp)
  qed simp
  ultimately show ?thesis by blast
qed

lemma dict_value_step:
  fixes pv :: "'u callback_parser"
  assumes pv: "value_spec inp n pv" and wf: "wf_state inp s" and "0 < depth s"
    and sc: "get_scope s (depth s - 1) = Some sc" and sc_ok: "scope_ok inp sc"
    and fuel: "length inp - cur s < n" and val_next: "\<not> expecting_key sc"
    and IH: "\<And>s1 sc1. wf_state inp s1 \<Longrightarrow> depth s1 = depth s \<Longrightarrow> max_depth s1 = max_depth s \<Longrightarrow>
        get_scope s1 (depth s1 - 1) = Some sc1 \<Longrightarrow> scope_ok inp sc1 \<Longrightarrow> cur s < cur s1 \<Longrightarrow>
        specified (length inp) (\<lambda>cb. k cb s1) (rest_outcome inp (max_depth s - depth s) sc1 s1)"
  shows "specified (length inp) (\<lambda>cb u. do { (st, s', u) \<leftarrow> pv cb s u;
        if st \<noteq> BENCODE_OK then Some (st, pop_scope s', u)
        else do {
          sc \<leftarrow> get_scope s' (depth s - 1);
          s2 \<leftarrow> put_scope s' (depth s - 1) (sc\<lparr>expecting_key := True\<rparr>);
          k cb s2 u } }) (rest_outcome inp (max_depth s - depth s) sc s)"
proof (rule value_step [OF pv wf fuel])
  fix st es w and s' :: sax_state
  assume e: "st \<in> parse_errors" "\<And>v. canonical (max_depth s - depth s) v \<Longrightarrow> \<not> at_pos inp (cur s) (encode v)"
    "cur s + length es \<le> cur s'" "cur s' \<le> length inp"
    and w: "canonical (max_depth s - depth s) w" "reported inp es (events (cur s) w)"
  have "\<not> at_pos inp (cur s) (rest_text x)"
    if ok: "rest_ok (max_depth s - depth s) (expecting_key sc) (remembered inp sc) x" for x
  proof
    assume at: "at_pos inp (cur s) (rest_text x)"
    obtain v fs where x: "x = (Some v, fs)" using ok val_next by (cases x) auto
    show False using at_pos_rest_value [OF at [unfolded x]] ok x e(2) by auto
  qed
  then show "rest_outcome inp (max_depth s - depth s) sc s st (pop_scope s') es"
    using e w val_next reported_append by (intro outcome_errorI [where ?x0.0 = "(Some w, [])"]) auto
next
  fix v and s1 :: sax_state
  assume v: "canonical (max_depth s - depth s) v" and at: "at_pos inp (cur s) (encode v)"
    and c1: "cur s1 = cur s + length (encode v)" and fr: "same_frame s s1" and wf1: "wf_state inp s1"
  let ?sc1 = "sc\<lparr>expecting_key := True\<rparr>"
  have eqs: "depth s1 = depth s" "max_depth s1 = max_depth s" using fr by (simp_all add: same_frame_def)
  have sc1: "get_scope s1 (depth s1 - 1) = Some sc"
    using get_scope_frame [OF fr, of "depth s - 1"] assms(3) sc eqs by simp
  define s2 where "s2 = (advance 0 s1)\<lparr>scopes := (scopes s1)[depth s1 - 1 := Some ?sc1]\<rparr>"
  have put: "put_scope s1 (depth s - 1) ?sc1 = Some s2"
    using get_scope_bound [OF sc1] eqs by (simp add: put_scope_def s2_def)
  have "0 < depth s1" "cur s1 + 0 \<le> length inp" using assms(3) eqs wf1 by (simp_all add: wf_state_def)
  note s2 = with_scope [OF wf1 sc1 this, of ?sc1, folded s2_def]
  have s2': "wf_state inp s2" "depth s2 = depth s" "max_depth s2 = max_depth s"
    "get_scope s2 (depth s2 - 1) = Some ?sc1" "cur s2 = cur s + length (encode v)"
    "same_frame (pop_scope s) (pop_scope s2)"
    using s2 eqs c1 same_frame_trans [OF same_frame_pop [OF fr]] by simp_all
  have mem: "scope_ok inp ?sc1" "remembered inp ?sc1 = remembered inp sc"
    using sc_ok by (simp_all add: scope_ok_def remembered_def)
  have lt: "cur s < cur s2" using s2'(5) by simp
  have run: "do { sc \<leftarrow> get_scope s1 (depth s - 1); s2 \<leftarrow> put_scope s1 (depth s - 1) (sc\<lparr>expecting_key := True\<rparr>); k cb s2 u }
      = k cb s2 u" for cb u using sc1 put eqs by simp
  show "specified (length inp) (\<lambda>cb u. do { sc \<leftarrow> get_scope s1 (depth s - 1);
        s2 \<leftarrow> put_scope s1 (depth s - 1) (sc\<lparr>expecting_key := True\<rparr>); k cb s2 u })
      (\<lambda>st s' es. rest_outcome inp (max_depth s - depth s) sc s st s' (events (cur s) v @ es))"
    unfolding run
  proof (rule specified_mono [OF IH [OF s2'(1-4) mem(1) lt]])
    show "rest_outcome inp (max_depth s - depth s) sc s st s' (events (cur s) v @ es)"
      if "rest_outcome inp (max_depth s - depth s) ?sc1 s2 st s' es" for st s' es
      by (rule outcome_value [OF v at val_next s2'(6,5) _ mem(2) that]) simp
  qed
qed

text \<open>The rounds of the loop that end it: at the end of the input, and at the end mark of the dictionary.\<close>

lemma dict_loop_cut:
  fixes pv :: "'u callback_parser"
  assumes "wf_state inp s" and "\<not> cur s < length inp"
  shows "specified (length inp) (\<lambda>cb u. parse_dict_loop (pv cb) inp cb (Suc m) s u) (rest_outcome inp d sc s)"
proof -
  have lim: "lim s = length inp" "cur s \<le> length inp" using assms(1) by (simp_all add: wf_state_def)
  then have go: "parse_dict_loop (pv cb) inp cb (Suc m) s u = Some (BENCODE_ERR_TRUNCATED, pop_scope s, u)" for cb u
    using assms(2) by (simp add: at_end_def)
  have "\<not> at_pos inp (cur s) (rest_text x)" for x
    using assms(2) at_pos_le [of inp "cur s" "rest_text x"] by (cases x; cases "fst x") auto
  then have "rest_outcome inp d sc s BENCODE_ERR_TRUNCATED (pop_scope s) []"
    using lim by (intro outcome_errorI [where ?x0.0 = "rest_stub sc"]) auto
  then show ?thesis unfolding go by (rule replay_done)
qed

lemma dict_loop_close:
  fixes pv :: "'u callback_parser"
  assumes "wf_state inp s" and "get_scope s (depth s - 1) = Some sc" and "cur s < length inp" and "inp ! cur s = 101"
    and "expecting_key sc"
  shows "specified (length inp) (\<lambda>cb u. parse_dict_loop (pv cb) inp cb (Suc m) s u) (rest_outcome inp d sc s)"
proof -
  have go: "parse_dict_loop (pv cb) inp cb (Suc m) s u = do {
      (st, u) \<leftarrow> deliver cb EDictEnd u; Some (st, advance 1 (pop_scope s), u) }" for cb u
    using assms by (simp add: at_end_def peek_def Let_def wf_state_def)
  have "rest_outcome inp d sc s BENCODE_OK (advance 1 (pop_scope s)) [EDictEnd]"
    using assms(3-5) by (intro outcome_okI [of _ "(None, [])"]) (auto simp: at_pos_single)
  then show ?thesis unfolding go by (rule specified_event)
qed

lemma dict_loop_missing:
  fixes pv :: "'u callback_parser"
  assumes "wf_state inp s" and "get_scope s (depth s - 1) = Some sc" and "cur s < length inp" and "inp ! cur s = 101"
    and "\<not> expecting_key sc"
  shows "specified (length inp) (\<lambda>cb u. parse_dict_loop (pv cb) inp cb (Suc m) s u) (rest_outcome inp d sc s)"
proof -
  have go: "parse_dict_loop (pv cb) inp cb (Suc m) s u = Some (BENCODE_ERR_DICT_MISSING_VALUE, pop_scope s, u)" for cb u
    using assms by (simp add: at_end_def peek_def Let_def wf_state_def)
  have "\<not> at_pos inp (cur s) (rest_text x)" if "rest_ok d (expecting_key sc) (remembered inp sc) x" for x
    using that assms(3-5) at_pos_end_unique [of inp "cur s" "fst x" "snd x"] by (cases x) auto
  then have "rest_outcome inp d sc s BENCODE_ERR_DICT_MISSING_VALUE (pop_scope s) []"
    using assms(1) by (intro outcome_errorI [where ?x0.0 = "rest_stub sc"]) (auto simp: wf_state_def)
  then show ?thesis unfolding go by (rule replay_done)
qed

lemma parse_dict_loop_spec:
  fixes pv :: "'u callback_parser"
  assumes "value_spec inp n pv" and "wf_state inp s" and "0 < depth s"
    and "get_scope s (depth s - 1) = Some sc" and "scope_ok inp sc"
    and "length inp - cur s < m" and "length inp - cur s < n"
  shows "specified (length inp) (\<lambda>cb u. parse_dict_loop (pv cb) inp cb m s u) (rest_outcome inp (max_depth s - depth s) sc s)"
  using assms(2-)
proof (induction m arbitrary: s sc)
  case 0
  then show ?case by simp
next
  case (Suc m)
  note wf = Suc.prems(1) and sc = Suc.prems(3)
  have lim: "lim s = length inp" "cur s \<le> length inp" using wf by (simp_all add: wf_state_def)
  have IH: "specified (length inp) (\<lambda>cb. parse_dict_loop (pv cb) inp cb m s1) (rest_outcome inp (max_depth s - depth s) sc1 s1)"
    if "wf_state inp s1" and eq: "depth s1 = depth s" "max_depth s1 = max_depth s"
      and "get_scope s1 (depth s1 - 1) = Some sc1" and "scope_ok inp sc1" and lt: "cur s < cur s1" for s1 sc1
  proof -
    have "0 < depth s1" "length inp - cur s1 < m" "length inp - cur s1 < n"
      using Suc.prems lt eq that(1) by (auto simp: wf_state_def)
    then show ?thesis using Suc.IH [of s1 sc1] that by simp
  qed
  consider (cut) "\<not> cur s < length inp" | (close) "cur s < length inp" "inp ! cur s = 101" "expecting_key sc"
    | (missing) "cur s < length inp" "inp ! cur s = 101" "\<not> expecting_key sc"
    | (key) "cur s < length inp" "inp ! cur s \<noteq> 101" "expecting_key sc"
    | (item) "cur s < length inp" "inp ! cur s \<noteq> 101" "\<not> expecting_key sc" by blast
  then show ?case
  proof cases
    case cut
    then show ?thesis by (rule dict_loop_cut [OF wf])
  next
    case close
    then show ?thesis by (rule dict_loop_close [OF wf sc])
  next
    case missing
    then show ?thesis by (rule dict_loop_missing [OF wf sc])
  next
    case key
    then have go: "parse_dict_loop (pv cb) inp cb (Suc m) s u = do {
        (st, s, u) \<leftarrow> parse_dict_key inp cb s (depth s - 1) u;
        if st \<noteq> BENCODE_OK then Some (st, pop_scope s, u) else parse_dict_loop (pv cb) inp cb m s u }" for cb u
      using lim sc by (simp add: at_end_def peek_def Let_def)
    show ?thesis unfolding go
      by (rule dict_key_step [where k = "\<lambda>cb. parse_dict_loop (pv cb) inp cb m", OF Suc.prems(1-4) key]) (rule IH)
  next
    case item
    then have go: "parse_dict_loop (pv cb) inp cb (Suc m) s u = do {
        (st, s', u) \<leftarrow> pv cb s u;
        if st \<noteq> BENCODE_OK then Some (st, pop_scope s', u)
        else do {
          sc \<leftarrow> get_scope s' (depth s - 1);
          s2 \<leftarrow> put_scope s' (depth s - 1) (sc\<lparr>expecting_key := True\<rparr>);
          parse_dict_loop (pv cb) inp cb m s2 u } }" for cb u
      using lim sc by (simp add: at_end_def peek_def Let_def del: One_nat_def)
    show ?thesis unfolding go
      by (rule dict_value_step [where k = "\<lambda>cb. parse_dict_loop (pv cb) inp cb m",
            OF assms(1) Suc.prems(1-4,6) item(3)]) (rule IH)
  qed
qed

end
