(* ===== verification/Sax_Run.thy ===== *)
theory Sax_Run
  imports Sax_Loops
begin

text \<open>
  What a run of the SAX parser is, for every input and every callback table: the parser walks the
  canonical value at the cursor, if there is one, and reports exactly that value's events; if there is
  none it fails with one of the parse errors, having reported no more than a prefix of the events of
  some canonical value.  It always stops, never reads outside the buffer or the
  scope array, and stops at the first callback that does not return \<open>BENCODE_OK\<close>.
\<close>

section \<open>Values\<close>

definition pushed :: "sax_state \<Rightarrow> bool \<Rightarrow> sax_state" where
  "pushed s dict = (advance 1 s)\<lparr>depth := depth s + 1, scopes := (scopes s)[depth s :=
     Some \<lparr>is_dict = dict, expecting_key = dict, last_key = None, last_key_len = 0\<rparr>]\<rparr>"

lemma push_scope_eq:
  assumes "wf_state inp s"
  shows "push_scope (advance 1 s) dict =
    (if depth s < max_depth s then Some (BENCODE_OK, pushed s dict)
     else Some (BENCODE_ERR_NESTING_TOO_DEEP, advance 1 s))"
  using assms by (simp add: push_scope_def put_scope_def pushed_def wf_state_def advance_def)

lemma pushed_props:
  assumes "wf_state inp s" and "depth s < max_depth s" and "cur s < length inp"
  shows "wf_state inp (pushed s dict)" and "0 < depth (pushed s dict)"
    and "cur (pushed s dict) = cur s + 1"
    and "max_depth (pushed s dict) - depth (pushed s dict) = max_depth s - depth s - 1"
    and "same_frame s (pop_scope (pushed s dict))"
    and "get_scope (pushed s dict) (depth (pushed s dict) - 1)
      = Some \<lparr>is_dict = dict, expecting_key = dict, last_key = None, last_key_len = 0\<rparr>"
  using assms by (auto simp: pushed_def wf_state_def same_frame_def get_scope_def)

text \<open>\<open>parse_list\<close> and \<open>parse_dict\<close> differ in the mark, the begin event and the loop; \<open>wrap\<close> makes a value of
  what the loop read, and \<open>body\<close> is the specification of that.\<close>

lemma container_spec:
  assumes wf: "wf_state inp s" and lt: "cur s < length inp" and ev_in: "in_input inp [ev]"
    and deep: "\<And>v. canonical (max_depth s - depth s) v \<Longrightarrow> at_pos inp (cur s) (encode v) \<Longrightarrow>
       \<exists>x. v = wrap x \<and> ok (max_depth s - depth s - 1) x \<and> 0 < max_depth s - depth s
         \<and> at_pos inp (cur s + 1) (text_of x)"
    and wrap: "\<And>x. ok (max_depth s - depth s - 1) x \<Longrightarrow> depth s < max_depth s \<Longrightarrow>
       canonical (max_depth s - depth s) (wrap x) \<and> encode (wrap x) = inp ! cur s # text_of x
       \<and> events (cur s) (wrap x) = ev # evs (cur s + 1) x"
    and loop: "depth s < max_depth s \<Longrightarrow> specified (length inp) (\<lambda>cb. lp cb (pushed s dict))
       (outcome inp (ok (max_depth s - depth s - 1)) text_of evs (pop_scope (pushed s dict)) (pushed s dict))"
  shows "specified (length inp) (\<lambda>cb u.
       do { (st, s) \<leftarrow> push_scope (advance 1 s) dict;
            if st \<noteq> BENCODE_OK then Some (st, s, u)
            else do { (st, u) \<leftarrow> deliver cb ev u;
              if st \<noteq> BENCODE_OK then Some (st, pop_scope s, u) else lp cb s u } })
     (value_outcome inp (max_depth s - depth s) s)"
proof (cases "depth s < max_depth s")
  case False
  then have "\<not> at_pos inp (cur s) (encode v)" if "canonical (max_depth s - depth s) v" for v
    using deep [OF that] by auto
  then have "value_outcome inp (max_depth s - depth s) s BENCODE_ERR_NESTING_TOO_DEEP (advance 1 s) []"
    using lt by (intro outcome_errorI [where ?x0.0 = "BInt 0"]) auto
  then show ?thesis unfolding push_scope_eq [OF wf] using False replay_Nil by fastforce
next
  case True
  note p = pushed_props [OF wf True lt, of dict]
  from loop [OF True] obtain st s' es where
    r: "\<And>cb u. replay (length inp) cb es st s' u (lp cb (pushed s dict) u)"
    and out: "outcome inp (ok (max_depth s - depth s - 1)) text_of evs (pop_scope (pushed s dict))
            (pushed s dict) st s' es" by blast
  have "replay (length inp) cb (ev # es) st s' u
      (do { (st, u) \<leftarrow> deliver cb ev u;
            if st \<noteq> BENCODE_OK then Some (st, pop_scope (pushed s dict), u) else lp cb (pushed s dict) u })" for cb u
    by (rule replay_deliver [OF _ r]) (use p lt in simp)
  moreover have "value_outcome inp (max_depth s - depth s) s st s' ([ev] @ es)"
  proof (rule outcome_step [where grow = wrap and front = "[inp ! cur s]", OF out p(5) _ _ ev_in], goal_cases)
    case (4 x)
    then show ?case using wrap [OF 4 True] p(3) by simp
  next
    case (5 v)
    then show ?case using deep p(3) by auto
  qed (use lt p(3) in \<open>simp_all add: at_pos_single\<close>)
  ultimately show ?thesis unfolding push_scope_eq [OF wf] using True by auto
qed

lemma parse_list_spec:
  assumes "value_spec inp n pv" and "wf_state inp s" and "cur s < length inp"
    and "inp ! cur s = 108" and "length inp - cur s \<le> n"
  shows "specified (length inp) (\<lambda>cb u. parse_list (pv cb) inp cb n s u)
      (value_outcome inp (max_depth s - depth s) s)"
  unfolding parse_list_def
proof (rule container_spec [where wrap = BList and ok = "\<lambda>d vs. \<forall>v\<in>set vs. canonical d v"
      and text_of = items_text and evs = "\<lambda>p vs. events_items p vs @ [EListEnd]",
      OF assms(2,3) in_input_begin(1)])
  show "\<exists>vs. v = BList vs \<and> (\<forall>v\<in>set vs. canonical (max_depth s - depth s - 1) v)
      \<and> 0 < max_depth s - depth s \<and> at_pos inp (cur s + 1) (items_text vs)"
    if "canonical (max_depth s - depth s) v" and "at_pos inp (cur s) (encode v)" for v
  proof -
    have "starts v 108" using encode_Cons [of v] that(2) assms(4) by (auto simp: at_pos_Cons)
    then show ?thesis using that by (cases v) (auto simp: at_pos_Cons)
  qed
next
  assume lt: "depth s < max_depth s"
  note p = pushed_props [OF assms(2) lt assms(3), of False]
  have "length inp - cur (pushed s False) < n" using p(3) assms(3,5) by linarith
  from parse_list_loop_spec [OF assms(1) p(1,2) this this]
  show "specified (length inp) (\<lambda>cb u. parse_list_loop (pv cb) inp cb n (pushed s False) u)
      (outcome inp (\<lambda>vs. \<forall>v\<in>set vs. canonical (max_depth s - depth s - 1) v) items_text (\<lambda>p vs. events_items p vs @ [EListEnd]) (pop_scope (pushed s False)) (pushed s False))"
    unfolding p(4) .
qed (use assms(4) in auto)

lemma parse_dict_spec:
  assumes "value_spec inp n pv" and "wf_state inp s" and "cur s < length inp"
    and "inp ! cur s = 100" and "length inp - cur s \<le> n"
  shows "specified (length inp) (\<lambda>cb u. parse_dict (pv cb) inp cb n s u)
      (value_outcome inp (max_depth s - depth s) s)"
  unfolding parse_dict_def
proof (rule container_spec [where wrap = "BDict \<circ> snd" and ok = "\<lambda>d. rest_ok d True None"
      and text_of = rest_text and evs = rest_events, OF assms(2,3) in_input_begin(2)])
  show "\<exists>x. v = (BDict \<circ> snd) x \<and> rest_ok (max_depth s - depth s - 1) True None x
      \<and> 0 < max_depth s - depth s \<and> at_pos inp (cur s + 1) (rest_text x)"
    if "canonical (max_depth s - depth s) v" and "at_pos inp (cur s) (encode v)" for v
  proof -
    have "starts v 100" using encode_Cons [of v] that(2) assms(4) by (auto simp: at_pos_Cons)
    then obtain es where v: "v = BDict es" by (cases v) auto
    show ?thesis using that v
      by (intro exI [of _ "(None, es)"]) (auto simp: at_pos_Cons entries_ok_canonical)
  qed
next
  fix x
  assume "rest_ok (max_depth s - depth s - 1) True None x" and "depth s < max_depth s"
  then show "canonical (max_depth s - depth s) ((BDict \<circ> snd) x)
      \<and> encode ((BDict \<circ> snd) x) = inp ! cur s # rest_text x
      \<and> events (cur s) ((BDict \<circ> snd) x) = EDictBegin # rest_events (cur s + 1) x"
    using assms(4) by (cases x) (auto simp: entries_ok_canonical)
next
  assume lt: "depth s < max_depth s"
  note p = pushed_props [OF assms(2) lt assms(3), of True]
  have "length inp - cur (pushed s True) < n" using p(3) assms(3,5) by linarith
  from parse_dict_loop_spec [OF assms(1) p(1,2,6) _ this this]
  show "specified (length inp) (\<lambda>cb u. parse_dict_loop (pv cb) inp cb n (pushed s True) u)
      (outcome inp (rest_ok (max_depth s - depth s - 1) True None) rest_text rest_events (pop_scope (pushed s True)) (pushed s True))"
    unfolding p(4) by (simp add: scope_ok_def remembered_def)
qed

text \<open>The arms of \<open>parse_value\<close> that open no container.\<close>

lemma starts_at: "at_pos inp p (encode v) \<Longrightarrow> starts v (inp ! p)"
  using encode_Cons [of v] by (auto simp: at_pos_Cons)

lemma parse_int_spec:
  assumes wf: "wf_state inp s" and lt: "cur s < length inp" and i: "inp ! cur s = 105"
  shows "specified (length inp) (\<lambda>(cb :: 'u bencode_callbacks option) u. parse_int inp cb s u)
      (value_outcome inp (max_depth s - depth s) s)"
proof -
  have lim: "lim s = length inp" using wf by (simp add: wf_state_def)
  show ?thesis
  proof (rule parse_int_cases [OF lim lt i])
    fix i
    assume i: "INT64_MIN \<le> i" "i \<le> INT64_MAX" and at: "at_pos inp (cur s) (encode (BInt i))"
      and r: "\<And>(cb :: 'u bencode_callbacks option) u. parse_int inp cb s u = do {
             (st, u) \<leftarrow> deliver cb (EInt (word_of_int i)) u;
             Some (st, advance (length (encode (BInt i))) s, u) }"
    have "value_outcome inp (max_depth s - depth s) s BENCODE_OK (advance (length (encode (BInt i))) s)
        [EInt (word_of_int i)]"
      using i at by (intro outcome_okI [of _ "BInt i"]) auto
    moreover have "replay (length inp) cb [EInt (word_of_int i)] BENCODE_OK
        (advance (length (encode (BInt i))) s) u (parse_int inp cb s u)" for cb :: "'u bencode_callbacks option" and u
      unfolding r by (rule replay_event) (use at_pos_le [OF at] in simp)
    ultimately show ?thesis by blast
  next
    fix st k
    assume r: "\<And>(cb :: 'u bencode_callbacks option) u. parse_int inp cb s u = Some (st, advance k s, u)" and st: "st \<in> scan_errors"
      and le: "cur s + k \<le> lim s"
      and none: "\<And>i. INT64_MIN \<le> i \<Longrightarrow> i \<le> INT64_MAX \<Longrightarrow> \<not> at_pos inp (cur s) (encode (BInt i))"
    have "\<not> at_pos inp (cur s) (encode v)" if "canonical (max_depth s - depth s) v" for v
      using that none starts_at [of inp "cur s" v] i by (cases v) auto
    then have "value_outcome inp (max_depth s - depth s) s st (advance k s) []"
      using st le lim by (intro outcome_errorI [where ?x0.0 = "BInt 0"]) auto
    then show ?thesis unfolding r by (rule replay_done)
  qed
qed

lemma parse_string_value_spec:
  assumes wf: "wf_state inp s" and lt: "cur s < length inp" and digit: "is_digit (inp ! cur s)"
  shows "specified (length inp) (\<lambda>(cb :: 'u bencode_callbacks option) u. parse_string_value inp cb s u)
      (value_outcome inp (max_depth s - depth s) s)"
proof -
  have lim: "lim s = length inp" "cur s \<le> lim s" "length inp \<le> SIZE_MAX"
    using wf by (simp_all add: wf_state_def)
  show ?thesis
  proof (rule parse_string_cases [OF lim(2,1,3)])
    fix b
    assume at: "at_pos inp (cur s) (enc_str b)"
      and ps: "parse_string inp s = Some (BENCODE_OK, cur s + length (dec (length b)) + 1, length b,
            advance (length (enc_str b)) s)"
    let ?ev = "EStr (cur s + length (dec (length b)) + 1) (length b)"
    have "length b \<le> SIZE_MAX" using at_pos_le [OF at] lim by (simp add: enc_str_def)
    then have "value_outcome inp (max_depth s - depth s) s BENCODE_OK (advance (length (enc_str b)) s) [?ev]"
      using at by (intro outcome_okI [of _ "BStr b"]) auto
    moreover have "parse_string_value inp cb s u = do {
        (st, u) \<leftarrow> deliver cb ?ev u; Some (st, advance (length (enc_str b)) s, u) }" for cb :: "'u bencode_callbacks option" and u
      by (simp add: parse_string_value_def ps)
    moreover have "replay (length inp) cb [?ev] BENCODE_OK (advance (length (enc_str b)) s) u
        (do { (st, u) \<leftarrow> deliver cb ?ev u; Some (st, advance (length (enc_str b)) s, u) })" for cb :: "'u bencode_callbacks option" and u
      by (rule replay_event) (use at_pos_le [OF at] in simp)
    ultimately show ?thesis by metis
  next
    fix st k
    assume ps: "parse_string inp s = Some (st, 0, 0, advance k s)" and st: "st \<in> scan_errors"
      and le: "cur s + k \<le> lim s" and none: "\<And>b. \<not> at_pos inp (cur s) (enc_str b)"
    have "st \<noteq> BENCODE_OK" using st by auto
    then have r: "parse_string_value inp cb s u = Some (st, advance k s, u)" for cb :: "'u bencode_callbacks option" and u
      by (simp add: parse_string_value_def ps)
    have "\<not> at_pos inp (cur s) (encode v)" for v
      using none starts_at [of inp "cur s" v] digit not_digit_marks by (cases v) auto
    then have "value_outcome inp (max_depth s - depth s) s st (advance k s) []"
      using st le lim by (intro outcome_errorI [where ?x0.0 = "BInt 0"]) auto
    then show ?thesis unfolding r by (rule replay_done)
  qed
qed

lemma parse_nothing_spec:
  assumes "wf_state inp s" and "cur s < length inp" and "inp ! cur s \<noteq> 105"
    and "inp ! cur s \<noteq> 108" and "inp ! cur s \<noteq> 100" and "\<not> is_digit (inp ! cur s)"
  shows "specified (length inp) (\<lambda>(cb :: 'u bencode_callbacks option) u. Some (BENCODE_ERR_UNEXPECTED_BYTE, s, u))
      (value_outcome inp (max_depth s - depth s) s)"
proof -
  have "\<not> at_pos inp (cur s) (encode v)" for v
    using starts_at [of inp "cur s" v] assms by (cases v) auto
  then have "value_outcome inp (max_depth s - depth s) s BENCODE_ERR_UNEXPECTED_BYTE s []"
    using assms(2) by (intro outcome_errorI [where ?x0.0 = "BInt 0"]) auto
  then show ?thesis by (rule replay_done)
qed

lemma parse_value_spec: "value_spec inp n (\<lambda>cb :: 'u bencode_callbacks option. parse_value inp cb n)"
proof (induction n)
  case 0
  then show ?case by (simp add: value_spec_def)
next
  case (Suc n)
  show ?case unfolding value_spec_def
  proof (intro allI impI, elim conjE)
    fix s
    assume wf: "wf_state inp s" and fuel: "length inp - cur s < Suc n"
    have lim: "lim s = length inp" "cur s \<le> lim s" "length inp \<le> SIZE_MAX"
      using wf by (simp_all add: wf_state_def)
    let ?d = "max_depth s - depth s"
    show "specified (length inp) (\<lambda>(cb :: 'u bencode_callbacks option) u. parse_value inp cb (Suc n) s u)
      (value_outcome inp ?d s)"
    proof (cases "cur s < length inp")
      case False
      then have "parse_value inp cb (Suc n) s u = Some (BENCODE_ERR_TRUNCATED, s, u)" for cb :: "'u bencode_callbacks option" and u
        using lim by (simp add: at_end_def)
      moreover have "\<not> at_pos inp (cur s) (encode v)" for v
        using False at_pos_le [of inp "cur s" "encode v"] encode_Cons [of v] by auto
      ultimately show ?thesis using lim
        by (intro exI [of _ BENCODE_ERR_TRUNCATED] exI [of _ s] exI [of _ "[]"])
          (auto intro: outcome_errorI [where ?x0.0 = "BInt 0"] replay_Nil)
    next
      case True
      then have ne: "\<not> at_end s" and pk: "peek inp s = Some (inp ! cur s)"
        using lim by (simp_all add: at_end_def peek_def)
      have le: "length inp - cur s \<le> n" using fuel by simp
      have go: "parse_value inp cb (Suc n) s u =
          (if inp ! cur s = 105 then parse_int inp cb s u
           else if inp ! cur s = 108 then parse_list (parse_value inp cb n) inp cb n s u
           else if inp ! cur s = 100 then parse_dict (parse_value inp cb n) inp cb n s u
           else if is_digit (inp ! cur s) then parse_string_value inp cb s u
           else Some (BENCODE_ERR_UNEXPECTED_BYTE, s, u))" for cb :: "'u bencode_callbacks option" and u
        using ne pk by simp
      consider (int) "inp ! cur s = 105" | (list) "inp ! cur s = 108" | (dict) "inp ! cur s = 100"
        | (str) "is_digit (inp ! cur s)" "inp ! cur s \<noteq> 105" "inp ! cur s \<noteq> 108" "inp ! cur s \<noteq> 100"
        | (none) "\<not> is_digit (inp ! cur s)" "inp ! cur s \<noteq> 105" "inp ! cur s \<noteq> 108" "inp ! cur s \<noteq> 100"
        by blast
      then show ?thesis
      proof cases
        case int
        then show ?thesis unfolding go using parse_int_spec [OF wf True int] by simp
      next
        case list
        then show ?thesis unfolding go using parse_list_spec [OF Suc.IH wf True list le] by simp
      next
        case dict
        then show ?thesis unfolding go using parse_dict_spec [OF Suc.IH wf True dict le] by simp
      next
        case str
        then show ?thesis unfolding go using parse_string_value_spec [OF wf True str(1)] by simp
      next
        case none
        then show ?thesis unfolding go
          using parse_nothing_spec [OF wf True none(2,3,4,1)] by simp
      qed
    qed
  qed
qed

section \<open>Runs from the entry point\<close>

lemma effective_depth_range: "1 \<le> effective_depth md \<and> effective_depth md \<le> 256"
  by (simp add: effective_depth_def BENCODE_DEFAULT_MAX_DEPTH_def BENCODE_INTERNAL_MAX_DEPTH_def Let_def)

lemma wf_init_state: "length inp \<le> SIZE_MAX \<Longrightarrow> wf_state inp (init_state (length inp) md)"
  using effective_depth_range [of md]
  by (simp add: wf_state_def init_state_def BENCODE_INTERNAL_MAX_DEPTH_def)

text \<open>The two kinds of run of \<open>bencode_parse_sax\<close> on a non-empty buffer: over the canonical value at the
  start of the buffer, or over events that end in a parse error.  The callbacks cut either short.\<close>

lemma bencode_parse_sax_run:
  assumes "length inp \<le> SIZE_MAX" and "inp \<noteq> []"
  obtains (canonical) v where "canonical (effective_depth md) v" and "at_pos inp 0 (encode v)"
      and "\<And>(cb :: 'u bencode_callbacks option) u. case feed cb (events 0 v) u of
             None \<Rightarrow> bencode_parse_sax (Some inp) (length inp) cb u md = None
           | Some (e, u') \<Rightarrow>
               if e = BENCODE_OK
               then bencode_parse_sax (Some inp) (length inp) cb u md
                 = Some (BENCODE_OK, length (encode v), u')
               else \<exists>c\<le>length inp. bencode_parse_sax (Some inp) (length inp) cb u md = Some (e, c, u')"
  | (malformed) st es c w where "st \<in> parse_errors" and "c \<le> length inp" and "length es \<le> length inp"
      and "canonical (effective_depth md) w" and "reported inp es (events 0 w)"
      and "\<And>v. canonical (effective_depth md) v \<Longrightarrow> \<not> at_pos inp 0 (encode v)"
      and "\<And>(cb :: 'u bencode_callbacks option) u. case feed cb es u of
             None \<Rightarrow> bencode_parse_sax (Some inp) (length inp) cb u md = None
           | Some (e, u') \<Rightarrow>
               if e = BENCODE_OK
               then bencode_parse_sax (Some inp) (length inp) cb u md = Some (st, c, u')
               else \<exists>c\<le>length inp. bencode_parse_sax (Some inp) (length inp) cb u md = Some (e, c, u')"
proof -
  let ?s = "init_state (length inp) md"
  have init: "cur ?s = 0" "max_depth ?s - depth ?s = effective_depth md"
    by (simp_all add: init_state_def)
  have call: "bencode_parse_sax (Some inp) (length inp) cb u md =
      do { (st, s, u) \<leftarrow> parse_value inp cb (length inp + 1) ?s u; Some (st, cur s, u) }" for cb :: "'u bencode_callbacks option" and u
    using assms(2) by (simp add: bencode_parse_sax_def)
  have run: "case feed cb es u of
             None \<Rightarrow> bencode_parse_sax (Some inp) (length inp) cb u md = None
           | Some (e, u') \<Rightarrow>
               if e = BENCODE_OK
               then bencode_parse_sax (Some inp) (length inp) cb u md = Some (st, cur s', u')
               else \<exists>c\<le>length inp. bencode_parse_sax (Some inp) (length inp) cb u md = Some (e, c, u')"
    if "replay (length inp) cb es st s' u (parse_value inp cb (length inp + 1) ?s u)" for es st s' u and cb :: "'u bencode_callbacks option"
    using that unfolding call replay_def
    by (auto simp del: parse_value.simps split: option.splits if_splits)
  have "length inp - cur ?s < length inp + 1" by simp
  from parse_value_spec [of inp "length inp + 1"] wf_init_state [OF assms(1)] this
  show thesis
  proof (rule value_specD)
    fix s' v
    assume r: "\<And>(cb :: 'u bencode_callbacks option) u. replay (length inp) cb (events (cur ?s) v) BENCODE_OK s' u
        (parse_value inp cb (length inp + 1) ?s u)"
      and v: "canonical (max_depth ?s - depth ?s) v" "at_pos inp (cur ?s) (encode v)"
      and "cur s' = cur ?s + length (encode v)"
    then have "cur s' = length (encode v)" by (simp add: init)
    from run [OF r [unfolded init], unfolded this] v [unfolded init] show thesis
      by (intro canonical)
  next
    fix st s' es w
    assume r: "\<And>(cb :: 'u bencode_callbacks option) u. replay (length inp) cb es st s' u (parse_value inp cb (length inp + 1) ?s u)"
      and st: "st \<in> parse_errors" and le: "cur s' \<le> length inp" "cur ?s + length es \<le> cur s'"
      and w: "canonical (max_depth ?s - depth ?s) w" "reported inp es (events (cur ?s) w)"
        "\<And>v. canonical (max_depth ?s - depth ?s) v \<Longrightarrow> \<not> at_pos inp (cur ?s) (encode v)"
    have "length es \<le> length inp" using le by (simp add: init)
    then show thesis by (rule malformed [OF st le(1) _ w [unfolded init] run [OF r]])
  qed
qed

end
