(* ===== verification/Sax_Transfer.thy ===== *)
theory Sax_Transfer
  imports Sax
begin

text \<open>
  The parser treats the user state of its callbacks as opaque: like the C code, which hands the
  \<open>void *user\<close> pointer to the callbacks and never looks behind it (\<open>src/parse_sax.c\<close>).  If one client
  behaves as another does under a map of their user states, then so do their parses.  With the two
  halves of a pair this relates the parses of any two clients, of different state types, through one
  client type; theory \<open>Sax_Props\<close> compares an arbitrary client with one that records the events.
\<close>

section \<open>Mapping the user state of a result\<close>

definition map_user :: "('w \<Rightarrow> 'u) \<Rightarrow> ('a \<times> 'b \<times> 'w) option \<Rightarrow> ('a \<times> 'b \<times> 'u) option" where
  "map_user h = map_option (\<lambda>(st, s, w). (st, s, h w))"

lemma map_user_simps [simp]:
  "map_user h None = None" "map_user h (Some (st, s, w)) = Some (st, s, h w)"
  "map_user h (if b then x else y) = (if b then map_user h x else map_user h y)"
  "map_user h (Option.bind r k) = Option.bind r (\<lambda>a. map_user h (k a))"
  "map_user h (case_prod f p) = (case p of (a, b) \<Rightarrow> map_user h (f a b))"
  by (simp_all add: map_user_def split: Option.bind_split prod.split)

text \<open>What follows a mapped result.\<close>

lemma map_user_bind:
  "Option.bind (map_user h r) k = Option.bind r (\<lambda>(st, s, w). k (st, s, h w))"
  by (cases r) (auto simp: map_user_def)

section \<open>Clients related by a map\<close>

locale client_map =
  fixes h :: "'w \<Rightarrow> 'u"
    and cbw :: "'w bencode_callbacks option"
    and cbu :: "'u bencode_callbacks option"
  assumes deliver_map: "deliver cbu e (h w) = map_option (map_prod id h) (deliver cbw e w)"
begin

lemma deliver_bind: "Option.bind (deliver cbu e (h w)) k = Option.bind (deliver cbw e w) (\<lambda>(st, w). k (st, h w))"
  by (cases "deliver cbw e w") (auto simp: deliver_map)

lemma parse_int_map: "map_user h (parse_int inp cbw s w) = parse_int inp cbu s (h w)"
  by (simp add: parse_int_def Let_def deliver_bind case_prod_unfold cong: if_cong del: deliver.simps)

lemma parse_string_value_map: "map_user h (parse_string_value inp cbw s w) = parse_string_value inp cbu s (h w)"
  by (simp add: parse_string_value_def deliver_bind case_prod_unfold cong: if_cong del: deliver.simps)

lemma parse_dict_key_map: "map_user h (parse_dict_key inp cbw s i w) = parse_dict_key inp cbu s i (h w)"
  by (simp add: parse_dict_key_def deliver_bind case_prod_unfold cong: if_cong del: deliver.simps)

text \<open>The containers, over value parsers that commute with the map.\<close>

lemma parse_list_loop_map:
  assumes "\<And>s w. map_user h (pw s w) = pu s (h w)"
  shows "map_user h (parse_list_loop pw inp cbw n s w) = parse_list_loop pu inp cbu n s (h w)"
  by (induction n arbitrary: s w)
    (simp_all add: deliver_bind assms [symmetric] map_user_bind case_prod_unfold
      cong: if_cong del: deliver.simps)

lemma parse_dict_loop_map:
  assumes "\<And>s w. map_user h (pw s w) = pu s (h w)"
  shows "map_user h (parse_dict_loop pw inp cbw n s w) = parse_dict_loop pu inp cbu n s (h w)"
  by (induction n arbitrary: s w)
    (simp_all add: Let_def deliver_bind assms [symmetric] parse_dict_key_map [symmetric]
      map_user_bind case_prod_unfold cong: if_cong del: deliver.simps)

lemma parse_list_map:
  assumes "\<And>s w. map_user h (pw s w) = pu s (h w)"
  shows "map_user h (parse_list pw inp cbw n s w) = parse_list pu inp cbu n s (h w)"
  by (simp add: parse_list_def deliver_bind parse_list_loop_map [of pw pu, OF assms] case_prod_unfold
    cong: if_cong del: deliver.simps)

lemma parse_dict_map:
  assumes "\<And>s w. map_user h (pw s w) = pu s (h w)"
  shows "map_user h (parse_dict pw inp cbw n s w) = parse_dict pu inp cbu n s (h w)"
  by (simp add: parse_dict_def deliver_bind parse_dict_loop_map [of pw pu, OF assms] case_prod_unfold
    cong: if_cong del: deliver.simps)

lemma parse_value_map: "map_user h (parse_value inp cbw n s w) = parse_value inp cbu n s (h w)"
  by (induction n arbitrary: s w)
    (simp_all add: parse_int_map parse_string_value_map parse_list_map parse_dict_map cong: if_cong)

lemma bencode_parse_sax_map:
  "map_user h (bencode_parse_sax input n cbw w md) = bencode_parse_sax input n cbu (h w) md"
  by (simp add: bencode_parse_sax_def parse_value_map [symmetric] map_user_bind
    case_prod_unfold del: parse_value.simps)

end

section \<open>A client on one half of a pair\<close>

text \<open>\<open>on_part get put cb\<close> runs the callbacks \<open>cb\<close> on the part of a larger user state that \<open>get\<close> reads
  and \<open>put\<close> writes.\<close>

definition on_part :: "('w \<Rightarrow> 'u) \<Rightarrow> ('u \<Rightarrow> 'w \<Rightarrow> 'w) \<Rightarrow> 'u bencode_callbacks option \<Rightarrow> 'w bencode_callbacks option" where
  "on_part get put =
     (let lift = (\<lambda>f w. map_option (\<lambda>(st, u). (st, put u w)) (f (get w)))
      in map_option (\<lambda>c. \<lparr>
           on_int = map_option (\<lambda>f v. lift (f v)) (on_int c),
           on_string = map_option (\<lambda>f off len. lift (f off len)) (on_string c),
           on_list_begin = map_option lift (on_list_begin c),
           on_list_end = map_option lift (on_list_end c),
           on_dict_begin = map_option lift (on_dict_begin c),
           on_dict_end = map_option lift (on_dict_end c)\<rparr>))"

lemma deliver_on_part:
  assumes "\<And>u w. get (put u w) = u"
  shows "deliver cb e (get w) = map_option (map_prod id get) (deliver (on_part get put cb) e w)"
  using assms
  by (cases cb; cases e)
    (auto simp: on_part_def Let_def callback_def option.map_comp comp_def case_prod_unfold option.map_ident
      split: option.split)

interpretation left_part: client_map fst "on_part fst (\<lambda>a w. (a, snd w)) cb" cb for cb
  by unfold_locales (rule deliver_on_part, simp)

interpretation right_part: client_map snd "on_part snd (\<lambda>b w. (fst w, b)) cb" cb for cb
  by unfold_locales (rule deliver_on_part, simp)

end
