(* ===== verification/Sax_Props.thy ===== *)
theory Sax_Props
  imports Sax_Run Sax_Transfer
begin

text \<open>
  The contract of \<open>bencode_parse_sax\<close>, from the runs of theory \<open>Sax_Run\<close>: it always returns, it accepts
  exactly the canonical encodings, it reports exactly the events of the value it accepts, it propagates
  the status of the first callback that fails, and the strings it reports lie inside the input.
\<close>

section \<open>A client that records the events\<close>

definition recorder :: "event list bencode_callbacks" where
  "recorder = \<lparr>
     on_int = Some (\<lambda>v es. Some (BENCODE_OK, es @ [EInt v])),
     on_string = Some (\<lambda>off len es. Some (BENCODE_OK, es @ [EStr off len])),
     on_list_begin = Some (\<lambda>es. Some (BENCODE_OK, es @ [EListBegin])),
     on_list_end = Some (\<lambda>es. Some (BENCODE_OK, es @ [EListEnd])),
     on_dict_begin = Some (\<lambda>es. Some (BENCODE_OK, es @ [EDictBegin])),
     on_dict_end = Some (\<lambda>es. Some (BENCODE_OK, es @ [EDictEnd]))\<rparr>"

lemma deliver_recorder [simp]: "deliver (Some recorder) e es = Some (BENCODE_OK, es @ [e])"
  by (cases e) (simp_all add: recorder_def callback_def)

lemma feed_recorder [simp]: "feed (Some recorder) es fs = Some (BENCODE_OK, fs @ es)"
  by (induction es arbitrary: fs) (simp_all del: deliver.simps)

lemma feed_total: "\<forall>e u. deliver cb e u \<noteq> None \<Longrightarrow> feed cb es u \<noteq> None"
proof (induction es arbitrary: u)
  case (Cons e es)
  then have "deliver cb e u \<noteq> None" by blast
  then obtain st u' where "deliver cb e u = Some (st, u')" by auto
  then show ?case using Cons.IH [OF Cons.prems, of u'] by simp
qed simp

text \<open>A two-entry dictionary whose second value is a list, used by the witnesses:
  \<open>d1:ai-7e2:bcl0:ee\<close>.\<close>

definition sample :: bval where
  "sample = BDict [([97], BInt (-7)), ([98, 99], BList [BStr []])]"

definition sample_text :: "byte list" where
  "sample_text = [100, 49, 58, 97, 105, 45, 55, 101, 50, 58, 98, 99, 108, 48, 58, 101, 101]"

lemma dec_digit: "n < 10 \<Longrightarrow> dec n = [digit_byte n]"
  by (subst dec.simps) simp

lemma encode_sample: "encode sample = sample_text"
  by (simp add: sample_def sample_text_def enc_str_def enc_int_def dec_digit digit_byte_def)

lemma canonical_sample: "2 \<le> d \<Longrightarrow> canonical d sample"
  by (auto simp: sample_def INT64_MIN_def INT64_MAX_def SIZE_MAX_def)

lemma sample_text_length: "length sample_text = 17"
  by (simp add: sample_text_def)

lemma sample_text_size: "length sample_text \<le> SIZE_MAX" "sample_text \<noteq> []"
  using sample_text_length by (auto simp: SIZE_MAX_def)

lemma at_pos_sample: "at_pos sample_text 0 (encode sample)"
  by (simp add: at_pos_whole encode_sample)

text \<open>For evaluation, the largest length as a word literal: natural numbers evaluate in unary.\<close>

lemma SIZE_MAX_word: "word_of_nat SIZE_MAX = (18446744073709551615 :: 64 word)"
  by (simp add: SIZE_MAX_def)

lemmas parse_string_code [code] = parse_string_def [unfolded SIZE_MAX_word]

section \<open>Runs with callbacks that return\<close>

text \<open>The two kinds of run, for a client whose callbacks return on the events that are reported.\<close>

lemma run_result:
  assumes "case feed cb es u of
             None \<Rightarrow> run = None
           | Some (e, u') \<Rightarrow>
               if e = BENCODE_OK then run = Some (st, n, u') else \<exists>c\<le>m. run = Some (e, c, u')"
    and "feed cb es u = Some (e, u')" and "n \<le> m"
  shows "\<exists>c\<le>m. run = Some (if e = BENCODE_OK then st else e, c, u') \<and> (e = BENCODE_OK \<longrightarrow> c = n)"
  using assms by (auto split: if_splits)

lemma sax_canonical_run:
  fixes cb :: "'u bencode_callbacks option"
  assumes "length inp \<le> SIZE_MAX" and "canonical (effective_depth md) v" and "inp = encode v @ rest"
    and "feed cb (events 0 v) u = Some (st, u')"
  shows "\<exists>c\<le>length inp. bencode_parse_sax (Some inp) (length inp) cb u md = Some (st, c, u')
    \<and> (st = BENCODE_OK \<longrightarrow> c = length (encode v))"
proof -
  have at: "at_pos inp 0 (encode v)" using assms(3) by (auto simp: at_pos_whole)
  then have le: "length (encode v) \<le> length inp" and ne: "inp \<noteq> []"
    using at_pos_le [OF at] encode_Cons [of v] by auto
  show ?thesis
  proof (rule bencode_parse_sax_run [OF assms(1) ne, where md = md])
    fix w
    assume "at_pos inp 0 (encode w)"
    then have w: "w = v" using at at_pos_encode_unique by blast
    assume run: "\<And>(cb :: 'u bencode_callbacks option) u. case feed cb (events 0 w) u of
             None \<Rightarrow> bencode_parse_sax (Some inp) (length inp) cb u md = None
           | Some (e, u') \<Rightarrow>
               if e = BENCODE_OK
               then bencode_parse_sax (Some inp) (length inp) cb u md
                 = Some (BENCODE_OK, length (encode w), u')
               else \<exists>c\<le>length inp. bencode_parse_sax (Some inp) (length inp) cb u md = Some (e, c, u')"
    from run_result [OF run [of cb u, unfolded w] assms(4) le] show ?thesis by (auto split: if_splits)
  qed (use assms(2) at in blast)
qed

lemma sax_malformed_run:
  fixes cb :: "'u bencode_callbacks option"
  assumes "length inp \<le> SIZE_MAX" and "inp \<noteq> []"
    and "\<not> (\<exists>v rest. canonical (effective_depth md) v \<and> inp = encode v @ rest)"
  obtains st es c w where "st \<in> parse_errors" and "c \<le> length inp"
    and "canonical (effective_depth md) w" and "reported inp es (events 0 w)"
    and "\<And>u. case feed cb es u of
             None \<Rightarrow> bencode_parse_sax (Some inp) (length inp) cb u md = None
           | Some (e, u') \<Rightarrow>
               if e = BENCODE_OK
               then bencode_parse_sax (Some inp) (length inp) cb u md = Some (st, c, u')
               else \<exists>c\<le>length inp. bencode_parse_sax (Some inp) (length inp) cb u md = Some (e, c, u')"
proof (rule bencode_parse_sax_run [OF assms(1,2), where md = md])
  fix v
  assume "canonical (effective_depth md) v" and "at_pos inp 0 (encode v)"
  then show thesis using assms(3) by (auto simp: at_pos_whole)
next
  fix st es c w
  assume error: "st \<in> parse_errors" "c \<le> length inp" and "length es \<le> length inp"
    and w: "canonical (effective_depth md) w" "reported inp es (events 0 w)"
    and run: "\<And>(cb :: 'u bencode_callbacks option) u. case feed cb es u of
             None \<Rightarrow> bencode_parse_sax (Some inp) (length inp) cb u md = None
           | Some (e, u') \<Rightarrow>
               if e = BENCODE_OK
               then bencode_parse_sax (Some inp) (length inp) cb u md = Some (st, c, u')
               else \<exists>c\<le>length inp. bencode_parse_sax (Some inp) (length inp) cb u md = Some (e, c, u')"
  show thesis by (rule that [OF error w run [of cb]])
qed

text \<open>Both kinds at once: one list of events, one status and one offset for all callbacks of a type.\<close>

lemma sax_run:
  assumes "length inp \<le> SIZE_MAX"
  obtains st c es where "c \<le> length inp"
    and "\<And>(cb :: 'u bencode_callbacks option) u. case feed cb es u of
             None \<Rightarrow> bencode_parse_sax (Some inp) (length inp) cb u md = None
           | Some (e, u') \<Rightarrow>
               if e = BENCODE_OK
               then bencode_parse_sax (Some inp) (length inp) cb u md = Some (st, c, u')
               else \<exists>c'\<le>length inp. bencode_parse_sax (Some inp) (length inp) cb u md = Some (e, c', u')"
proof (cases "inp = []")
  case True
  show thesis by (rule that [of 0 BENCODE_ERR_TRUNCATED "[]"]) (simp_all add: True bencode_parse_sax_def)
next
  case False
  note outer = that
  show thesis
  proof (rule bencode_parse_sax_run [where 'u = 'u and md = md, OF assms False])
    fix v
    assume at: "at_pos inp 0 (encode v)"
    then have le: "length (encode v) \<le> length inp" using at_pos_le [OF at] by simp
    show thesis if "\<And>(cb :: 'u bencode_callbacks option) u. case feed cb (events 0 v) u of
             None \<Rightarrow> bencode_parse_sax (Some inp) (length inp) cb u md = None
           | Some (e, u') \<Rightarrow>
               if e = BENCODE_OK
               then bencode_parse_sax (Some inp) (length inp) cb u md = Some (BENCODE_OK, length (encode v), u')
               else \<exists>c\<le>length inp. bencode_parse_sax (Some inp) (length inp) cb u md = Some (e, c, u')"
      by (rule outer [OF le that])
  qed (rule outer)
qed

lemma feed_on_part:
  assumes "\<And>u w. get (put u w) = u"
  shows "feed cb es (get w) = map_option (map_prod id get) (feed (on_part get put cb) es w)"
proof (induction es arbitrary: w)
  case (Cons e es)
  then show ?case
    by (cases "deliver (on_part get put cb) e w")
      (auto simp: deliver_on_part [where get = get and put = put, OF assms, of cb e w] simp del: deliver.simps)
qed simp

section \<open>Properties\<close>

text \<open>C1: \<open>bencode_parse_sax\<close> accepts exactly the inputs that start with the canonical encoding of a value
  within the nesting limit, reports exactly that value's events, in order, and reports as consumed
  exactly the length of the encoding.\<close>

theorem sax_accepts_iff:
  assumes "length inp \<le> SIZE_MAX"
  shows "bencode_parse_sax (Some inp) (length inp) (Some recorder) [] md = Some (BENCODE_OK, c, es) \<longleftrightarrow>
    (\<exists>v rest. canonical (effective_depth md) v \<and> inp = encode v @ rest \<and> c = length (encode v)
       \<and> es = events 0 v)"
proof (cases "\<exists>v rest. canonical (effective_depth md) v \<and> inp = encode v @ rest")
  case True
  then obtain v rest where v: "canonical (effective_depth md) v" "inp = encode v @ rest" by blast
  from sax_canonical_run [OF assms v feed_recorder] v show ?thesis
    by (auto dest: encode_split)
next
  case False
  then show ?thesis
  proof (cases "inp = []")
    case nonempty: False
    show ?thesis
      by (rule sax_malformed_run [OF assms nonempty False, of "Some recorder"])
        (use False in \<open>force simp: parse_errors_def\<close>)
  qed (auto simp: bencode_parse_sax_def)
qed

theorem sax_accepts_iff_witness:
  "bencode_parse_sax (Some sample_text) (length sample_text) (Some recorder) [] 2
     = Some (BENCODE_OK, 17, events 0 sample)"
proof -
  have "effective_depth 2 = 2" by (simp add: effective_depth_def BENCODE_INTERNAL_MAX_DEPTH_def)
  then show ?thesis
    using sax_accepts_iff [OF sample_text_size(1), of 2 17 "events 0 sample"] canonical_sample [of 2]
      encode_sample sample_text_length by auto
qed

text \<open>C4: \<open>bencode_parse_sax\<close> always returns, whatever the input bytes, the nesting limit and the
  callbacks, provided the callbacks return: the recursion and the loops end, no byte outside the buffer
  and no scope outside the scope array is read or written, and the reported offset lies inside the
  buffer.\<close>

theorem sax_total:
  assumes "length inp \<le> SIZE_MAX" and "\<forall>e u. deliver cb e u \<noteq> None"
  shows "\<exists>st c u'. bencode_parse_sax (Some inp) (length inp) cb u md = Some (st, c, u') \<and> c \<le> length inp"
proof -
  have feed: "\<exists>e u'. feed cb es u = Some (e, u')" for es
    using feed_total [OF assms(2), of es u] by auto
  consider (empty) "inp = []"
    | (good) v rest where "canonical (effective_depth md) v" "inp = encode v @ rest"
    | (bad) "inp \<noteq> []" "\<not> (\<exists>v rest. canonical (effective_depth md) v \<and> inp = encode v @ rest)"
    by blast
  then show ?thesis
  proof cases
    case empty
    then show ?thesis by (simp add: bencode_parse_sax_def)
  next
    case good
    from feed [of "events 0 v"] obtain e u' where "feed cb (events 0 v) u = Some (e, u')" by blast
    from sax_canonical_run [OF assms(1) good this] show ?thesis by blast
  next
    case bad
    show ?thesis
    proof (rule sax_malformed_run [OF assms(1) bad, of cb])
      fix st es c
      assume c: "c \<le> length inp"
      assume "\<And>u. case feed cb es u of
             None \<Rightarrow> bencode_parse_sax (Some inp) (length inp) cb u md = None
           | Some (e, u') \<Rightarrow>
               if e = BENCODE_OK
               then bencode_parse_sax (Some inp) (length inp) cb u md = Some (st, c, u')
               else \<exists>c\<le>length inp. bencode_parse_sax (Some inp) (length inp) cb u md = Some (e, c, u')"
      from run_result [OF this _ c] feed show ?thesis by blast
    qed
  qed
qed

theorem sax_total_witness:
  "\<exists>st c u'. bencode_parse_sax (Some sample_text) (length sample_text) (Some recorder) [] 3
     = Some (st, c, u') \<and> c \<le> length sample_text"
  by (rule sax_total) (simp_all add: sample_text_size del: deliver.simps)

text \<open>C6: whatever the input, the outcome of \<open>bencode_parse_sax\<close> is that of reporting to the callbacks, one
  after the other, the events that a recording client sees: the first status other than \<open>BENCODE_OK\<close> that a
  callback returns is the status of the parse, no callback runs after it, and the user state is the one it
  left; when no callback objects, status and offset are those of the recording client.  So which events are
  offered, and what the parser itself objects to, never depends on the callbacks.\<close>

theorem sax_propagates_callbacks:
  fixes cb :: "'u bencode_callbacks option" and u :: 'u
  assumes "length inp \<le> SIZE_MAX"
  shows "\<exists>st c es. bencode_parse_sax (Some inp) (length inp) (Some recorder) [] md = Some (st, c, es) \<and> c \<le> length inp
    \<and> (case feed cb es u of
         None \<Rightarrow> bencode_parse_sax (Some inp) (length inp) cb u md = None
       | Some (e, u') \<Rightarrow>
           if e = BENCODE_OK
           then bencode_parse_sax (Some inp) (length inp) cb u md = Some (st, c, u')
           else \<exists>c'\<le>length inp. bencode_parse_sax (Some inp) (length inp) cb u md = Some (e, c', u'))"
proof -
  \<comment> \<open>Both are runs of clients on a pair of the two user states, to which the same events are reported.\<close>
  define cbl where "cbl = on_part fst (\<lambda>a (w :: 'u \<times> event list). (a, snd w)) cb"
  define cbr where "cbr = on_part snd (\<lambda>b (w :: 'u \<times> event list). (fst w, b)) (Some recorder)"
  let ?run = "\<lambda>cb (w :: 'u \<times> event list). bencode_parse_sax (Some inp) (length inp) cb w md"
  obtain st c es where c: "c \<le> length inp"
    and run: "\<And>cb w. case feed cb es w of
             None \<Rightarrow> ?run cb w = None
           | Some (e, w') \<Rightarrow> if e = BENCODE_OK then ?run cb w = Some (st, c, w') else \<exists>c'\<le>length inp. ?run cb w = Some (e, c', w')"
    by (rule sax_run [where 'u = "'u \<times> event list" and md = md, OF assms]) (rule that)
  have left: "bencode_parse_sax (Some inp) (length inp) cb u md = map_user fst (?run cbl (u, []))"
    unfolding cbl_def by (simp only: left_part.bencode_parse_sax_map fst_conv snd_conv)
  have right: "bencode_parse_sax (Some inp) (length inp) (Some recorder) [] md = map_user snd (?run cbr (u, []))"
    unfolding cbr_def by (simp only: right_part.bencode_parse_sax_map fst_conv snd_conv)
  have fl: "feed cb es u = map_option (map_prod id fst) (feed cbl es (u, []))"
    using feed_on_part [of fst "\<lambda>a (w :: 'u \<times> event list). (a, snd w)" cb es "(u, [])"] by (simp add: cbl_def)
  have "feed (Some recorder) es [] = map_option (map_prod id snd) (feed cbr es (u, []))"
    using feed_on_part [of snd "\<lambda>b (w :: 'u \<times> event list). (fst w, b)" "Some recorder" es "(u, [])"]
    by (simp add: cbr_def)
  then obtain w where "feed cbr es (u, []) = Some (BENCODE_OK, w)" "snd w = es"
    by (cases "feed cbr es (u, [])") auto
  then have "bencode_parse_sax (Some inp) (length inp) (Some recorder) [] md = Some (st, c, es)"
    using run [of cbr "(u, [])"] by (cases w) (simp add: right)
  moreover have "case feed cb es u of
         None \<Rightarrow> bencode_parse_sax (Some inp) (length inp) cb u md = None
       | Some (e, u') \<Rightarrow>
           if e = BENCODE_OK
           then bencode_parse_sax (Some inp) (length inp) cb u md = Some (st, c, u')
           else \<exists>c'\<le>length inp. bencode_parse_sax (Some inp) (length inp) cb u md = Some (e, c', u')"
    using run [of cbl "(u, [])"] unfolding fl left
    by (auto split: option.splits if_splits)
  ultimately show ?thesis using c by blast
qed

definition abort_at_list :: "nat bencode_callbacks" where
  "abort_at_list = \<lparr>on_int = Some (\<lambda>v n. Some (BENCODE_OK, n + 1)), on_string = Some (\<lambda>off len n. Some (BENCODE_OK, n + 1)),
     on_list_begin = Some (\<lambda>n. Some (BENCODE_ERR_USER_ABORTED, n)),
     on_list_end = None, on_dict_begin = None, on_dict_end = None\<rparr>"

text \<open>In the dictionary \<open>d0:le0:\<close>, whose key comes twice, this client stops the parse at the list, before the
  parser meets the second key; in \<open>d0:i0e0:\<close> it does not object, and the parser reports the duplicate.\<close>

theorem sax_propagates_callbacks_witness:
  "(\<exists>c\<le>7. bencode_parse_sax (Some [100, 48, 58, 108, 101, 48, 58]) 7 (Some abort_at_list) 0 2
       = Some (BENCODE_ERR_USER_ABORTED, c, 1))
   \<and> bencode_parse_sax (Some [100, 48, 58, 105, 48, 101, 48, 58]) 8 (Some abort_at_list) 0 1
       = Some (BENCODE_ERR_DICT_DUPLICATE, 8, 2)"
proof
  let ?inp = "[100, 48, 58, 108, 101, 48, 58 :: byte]"
  have len: "length ?inp = 7" by simp
  have "bencode_parse_sax (Some ?inp) 7 (Some recorder) [] 2
      = Some (BENCODE_ERR_DICT_DUPLICATE, 7, [EDictBegin, EStr 3 0, EListBegin, EListEnd])"
    by code_simp
  then show "\<exists>c\<le>7. bencode_parse_sax (Some ?inp) 7 (Some abort_at_list) 0 2 = Some (BENCODE_ERR_USER_ABORTED, c, 1)"
    using sax_propagates_callbacks [of ?inp 2 "Some abort_at_list" 0, unfolded len]
    by (simp add: SIZE_MAX_def abort_at_list_def callback_def del: parse_value.simps)
next
  let ?inp = "[100, 48, 58, 105, 48, 101, 48, 58 :: byte]"
  have len: "length ?inp = 8" by simp
  have "bencode_parse_sax (Some ?inp) 8 (Some recorder) [] 1
      = Some (BENCODE_ERR_DICT_DUPLICATE, 8, [EDictBegin, EStr 3 0, EInt 0])"
    by code_simp
  then show "bencode_parse_sax (Some ?inp) 8 (Some abort_at_list) 0 1 = Some (BENCODE_ERR_DICT_DUPLICATE, 8, 2)"
    using sax_propagates_callbacks [of ?inp 1 "Some abort_at_list" 0, unfolded len]
    by (simp add: SIZE_MAX_def abort_at_list_def callback_def del: parse_value.simps)
qed

text \<open>An input that does not start with a canonical encoding is rejected with one of the statuses that
  describe malformed input, never with \<open>BENCODE_OK\<close> and never with a memory, I/O, argument or abort
  status, and the reported offset lies inside the buffer.\<close>

theorem sax_rejects:
  fixes u :: 'u
  assumes "length inp \<le> SIZE_MAX"
    and "\<not> (\<exists>v rest. canonical (effective_depth md) v \<and> inp = encode v @ rest)"
  shows "\<exists>st c. bencode_parse_sax (Some inp) (length inp) None u md = Some (st, c, u) \<and> c \<le> length inp
    \<and> st \<in> {BENCODE_ERR_TRUNCATED, BENCODE_ERR_UNEXPECTED_BYTE, BENCODE_ERR_INTEGER_OVERFLOW,
         BENCODE_ERR_INTEGER_FORMAT, BENCODE_ERR_STRING_LENGTH, BENCODE_ERR_DICT_UNSORTED,
         BENCODE_ERR_DICT_DUPLICATE, BENCODE_ERR_DICT_BAD_KEY, BENCODE_ERR_NESTING_TOO_DEEP,
         BENCODE_ERR_DICT_MISSING_VALUE}"
proof (cases "inp = []")
  case True
  then show ?thesis by (simp add: bencode_parse_sax_def)
next
  case False
  obtain st c where "st \<in> parse_errors" and "c \<le> length inp"
    and "bencode_parse_sax (Some inp) (length inp) None u md = Some (st, c, u)"
    by (rule sax_malformed_run [OF assms(1) False assms(2), of "None :: 'u bencode_callbacks option"]) auto
  moreover from this(1) have "st \<in> {BENCODE_ERR_TRUNCATED, BENCODE_ERR_UNEXPECTED_BYTE, BENCODE_ERR_INTEGER_OVERFLOW,
         BENCODE_ERR_INTEGER_FORMAT, BENCODE_ERR_STRING_LENGTH, BENCODE_ERR_DICT_UNSORTED,
         BENCODE_ERR_DICT_DUPLICATE, BENCODE_ERR_DICT_BAD_KEY, BENCODE_ERR_NESTING_TOO_DEEP,
         BENCODE_ERR_DICT_MISSING_VALUE}"
    by (auto simp: parse_errors_def scan_errors_def)
  ultimately show ?thesis by blast
qed

theorem sax_rejects_witness:
  "\<exists>st c. bencode_parse_sax (Some [101 :: byte]) (length [101 :: byte]) None () 0 = Some (st, c, ()) \<and> c \<le> length [101 :: byte]
    \<and> st \<in> {BENCODE_ERR_TRUNCATED, BENCODE_ERR_UNEXPECTED_BYTE, BENCODE_ERR_INTEGER_OVERFLOW,
         BENCODE_ERR_INTEGER_FORMAT, BENCODE_ERR_STRING_LENGTH, BENCODE_ERR_DICT_UNSORTED,
         BENCODE_ERR_DICT_DUPLICATE, BENCODE_ERR_DICT_BAD_KEY, BENCODE_ERR_NESTING_TOO_DEEP,
         BENCODE_ERR_DICT_MISSING_VALUE}"
proof (rule sax_rejects)
  show "\<not> (\<exists>v rest. canonical (effective_depth 0) v \<and> [101] = encode v @ rest)"
    using encode_not_end by (metis append_Nil2)
qed (simp add: SIZE_MAX_def)

text \<open>C7: whatever the input, the events that \<open>bencode_parse_sax\<close> reports before it stops are a prefix of
  the events of a canonical value within the nesting limit, so containers are properly nested, keys and
  values alternate and keys are strings; and every string it reports lies inside the buffer.\<close>

theorem sax_reports_prefix:
  assumes "length inp \<le> SIZE_MAX"
    and "bencode_parse_sax (Some inp) (length inp) (Some recorder) [] md = Some (st, c, es)"
  shows "\<exists>v. canonical (effective_depth md) v \<and> prefix es (events 0 v)
    \<and> (\<forall>off len. EStr off len \<in> set es \<longrightarrow> off + len \<le> length inp)"
proof -
  have zero: "canonical (effective_depth md) (BInt 0)" by simp
  consider (empty) "inp = []"
    | (good) v rest where "canonical (effective_depth md) v" "inp = encode v @ rest"
    | (bad) "inp \<noteq> []" "\<not> (\<exists>v rest. canonical (effective_depth md) v \<and> inp = encode v @ rest)"
    by blast
  then show ?thesis
  proof cases
    case empty
    then show ?thesis using assms(2) zero by (intro exI [of _ "BInt 0"]) (simp add: bencode_parse_sax_def)
  next
    case good
    have "es = events 0 v"
      using sax_canonical_run [OF assms(1) good feed_recorder] assms(2) by auto
    moreover have "in_input inp (events 0 v)"
      using good(2) by (intro events_in_input) (auto simp: at_pos_whole)
    ultimately show ?thesis using good(1) by (auto simp: in_input_def)
  next
    case bad
    show ?thesis
      by (rule sax_malformed_run [OF assms(1) bad, of "Some recorder"])
        (use assms(2) in \<open>auto simp: reported_def in_input_def\<close>)
  qed
qed

theorem sax_reports_prefix_witness:
  "\<exists>v. canonical (effective_depth 1) v \<and> prefix [EListBegin, EInt 5] (events 0 v)"
proof -
  let ?inp = "[108, 105, 53, 101, 120 :: byte]"
  have "bencode_parse_sax (Some ?inp) (length ?inp) (Some recorder) [] 1
      = Some (BENCODE_ERR_UNEXPECTED_BYTE, 4, [EListBegin, EInt 5])"
    by code_simp
  from sax_reports_prefix [OF _ this] show ?thesis by (auto simp: SIZE_MAX_def)
qed

end
