(* ===== verification/Sax_Depth.thy ===== *)
theory Sax_Depth
  imports Sax
begin

text \<open>
  How deep the recursion of the SAX parser (\<open>src/parse_sax.c\<close>) goes.  \<open>parse_levels\<close> is \<open>parse_value\<close> with a
  second bound, on the number of calls of \<open>parse_value\<close> that are active at once; it has no result when the bound is
  exceeded.  The nesting limit keeps every run within it, so the C stack is bounded whatever the input is.
\<close>

section \<open>The parser with a bounded stack\<close>

primrec parse_levels :: "byte list \<Rightarrow> 'u bencode_callbacks option \<Rightarrow> nat \<Rightarrow> nat \<Rightarrow> 'u sax_parser" where
  "parse_levels inp cb 0 n = (\<lambda>s u. None)"
| "parse_levels inp cb (Suc d) n = (case n of
     0 \<Rightarrow> (\<lambda>s u. None)
   | Suc n \<Rightarrow> (\<lambda>s u.
     if at_end s then Some (BENCODE_ERR_TRUNCATED, s, u)
     else do {
       b \<leftarrow> peek inp s;
       if b = 105 then parse_int inp cb s u
       else if b = 108 then parse_list (parse_levels inp cb d n) inp cb n s u
       else if b = 100 then parse_dict (parse_levels inp cb d n) inp cb n s u
       else if is_digit b then parse_string_value inp cb s u
       else Some (BENCODE_ERR_UNEXPECTED_BYTE, s, u)
     }))"

definition parse_sax_within :: "nat \<Rightarrow> byte list option \<Rightarrow> nat \<Rightarrow> 'u bencode_callbacks option \<Rightarrow> 'u \<Rightarrow> nat
    \<Rightarrow> (bencode_status \<times> nat \<times> 'u) option" where
  "parse_sax_within levels input input_size cb user md =
     (if input = None \<and> input_size \<noteq> 0 then Some (BENCODE_ERR_INVALID_ARG, 0, user)
      else if input_size = 0 then Some (BENCODE_ERR_TRUNCATED, 0, user)
      else do {
        inp \<leftarrow> input;
        (st, s, u) \<leftarrow> parse_levels inp cb levels (input_size + 1) (init_state input_size md) user;
        Some (st, cur s, u)
      })"

section \<open>Successful calls leave the depth as it was\<close>

definition same_depth :: "sax_state \<Rightarrow> sax_state \<Rightarrow> bool" where
  "same_depth s s' \<longleftrightarrow> depth s' = depth s \<and> max_depth s' = max_depth s"

definition balanced :: "'u sax_parser \<Rightarrow> bool" where
  "balanced pv \<longleftrightarrow> (\<forall>s u s' u'. pv s u = Some (BENCODE_OK, s', u') \<longrightarrow> same_depth s s')"

lemma balancedD: "balanced pv \<Longrightarrow> pv s u = Some (BENCODE_OK, s', u') \<Longrightarrow> depth s' = depth s \<and> max_depth s' = max_depth s"
  unfolding balanced_def same_depth_def by blast

lemma depth_simps [simp]:
  "depth (advance n s) = depth s" "max_depth (advance n s) = max_depth s"
  "depth (pop_scope s) = depth s - 1" "max_depth (pop_scope s) = max_depth s"
  by (simp_all add: advance_def pop_scope_def)

lemma put_scope_depth: "put_scope s i sc = Some s' \<Longrightarrow> depth s' = depth s \<and> max_depth s' = max_depth s"
  by (auto simp: put_scope_def split: if_splits)

lemma push_scope_depth:
  "push_scope s dict = Some (BENCODE_OK, s') \<Longrightarrow>
     depth s < max_depth s \<and> depth s' = Suc (depth s) \<and> max_depth s' = max_depth s"
  by (auto simp: push_scope_def put_scope_def split: if_splits)

lemma parse_digits_depth:
  "parse_digits inp s acc mx = Some (st, mag, s') \<Longrightarrow> depth s' = depth s \<and> max_depth s' = max_depth s"
proof (induction inp s acc mx rule: parse_digits.induct)
  case (1 inp s acc mx)
  show ?case
    using 1 by (subst (asm) (2) parse_digits.simps) (fastforce simp: Let_def split: if_splits bind_splits)
qed

lemma parse_unsigned_depth:
  "parse_unsigned inp s mx = Some (st, mag, s') \<Longrightarrow> depth s' = depth s \<and> max_depth s' = max_depth s"
  unfolding parse_unsigned_def by (auto simp: Let_def dest!: parse_digits_depth split: if_splits bind_splits)

lemma parse_string_depth:
  "parse_string inp s = Some (st, off, len, s') \<Longrightarrow> depth s' = depth s \<and> max_depth s' = max_depth s"
  unfolding parse_string_def by (auto simp: Let_def dest!: parse_unsigned_depth split: if_splits bind_splits)

lemma parse_int_balanced: "balanced (parse_int inp cb)"
  unfolding balanced_def same_depth_def parse_int_def
  by (auto simp: Let_def dest!: parse_unsigned_depth split: if_splits bind_splits)

lemma parse_string_value_balanced: "balanced (parse_string_value inp cb)"
  unfolding balanced_def same_depth_def parse_string_value_def
  by (auto dest!: parse_string_depth split: if_splits bind_splits)

lemma parse_dict_key_depth:
  "parse_dict_key inp cb s i u = Some (BENCODE_OK, s', u') \<Longrightarrow> depth s' = depth s \<and> max_depth s' = max_depth s"
  unfolding parse_dict_key_def
  by (auto dest!: parse_string_depth put_scope_depth split: if_splits bind_splits)

lemma list_loop_depth:
  assumes "balanced pv"
  shows "parse_list_loop pv inp cb n s u = Some (BENCODE_OK, s', u')
     \<Longrightarrow> depth s' = depth s - 1 \<and> max_depth s' = max_depth s"
  by (induction n arbitrary: s u) (fastforce dest!: balancedD [OF assms] split: if_splits bind_splits)+

lemma dict_loop_depth:
  assumes "balanced pv"
  shows "parse_dict_loop pv inp cb n s u = Some (BENCODE_OK, s', u')
     \<Longrightarrow> depth s' = depth s - 1 \<and> max_depth s' = max_depth s"
  by (induction n arbitrary: s u)
    (fastforce simp: Let_def dest!: balancedD [OF assms] parse_dict_key_depth put_scope_depth split: if_splits bind_splits)+

lemma parse_list_balanced: "balanced pv \<Longrightarrow> balanced (parse_list pv inp cb n)"
  unfolding balanced_def [of "parse_list pv inp cb n"] same_depth_def parse_list_def
  by (auto dest!: list_loop_depth push_scope_depth split: if_splits bind_splits)

lemma parse_dict_balanced: "balanced pv \<Longrightarrow> balanced (parse_dict pv inp cb n)"
  unfolding balanced_def [of "parse_dict pv inp cb n"] same_depth_def parse_dict_def
  by (auto dest!: dict_loop_depth push_scope_depth split: if_splits bind_splits)

lemma parse_levels_balanced: "balanced (parse_levels inp cb d n)"
proof (induction d arbitrary: n)
  case (Suc d)
  show ?case
  proof (cases n)
    case (Suc m)
    note arms = parse_int_balanced parse_string_value_balanced parse_list_balanced [OF Suc.IH] parse_dict_balanced [OF Suc.IH]
    show ?thesis unfolding Suc balanced_def same_depth_def
      by (auto dest!: arms [THEN balancedD] split: if_splits bind_splits)
  qed (simp add: balanced_def)
qed (simp add: balanced_def)

section \<open>Enough levels\<close>

text \<open>\<open>pv\<close> and \<open>qv\<close> agree on the states that have at most \<open>d\<close> levels left.\<close>

definition agree :: "nat \<Rightarrow> 'u sax_parser \<Rightarrow> 'u sax_parser \<Rightarrow> bool" where
  "agree d pv qv \<longleftrightarrow> (\<forall>s u. max_depth s - depth s < d \<longrightarrow> pv s u = qv s u)"

lemma agreeD: "agree d pv qv \<Longrightarrow> max_depth s - depth s < d \<Longrightarrow> pv s u = qv s u"
  by (simp add: agree_def)

lemma list_loop_agree:
  assumes "agree d pv qv" and "balanced pv"
  shows "max_depth s - depth s < d \<Longrightarrow> parse_list_loop pv inp cb n s u = parse_list_loop qv inp cb n s u"
proof (induction n arbitrary: s u)
  case (Suc n)
  note eq = agreeD [OF assms(1) Suc.prems, of u, symmetric]
  have "parse_list_loop pv inp cb n s' u' = parse_list_loop qv inp cb n s' u'" if "pv s u = Some (BENCODE_OK, s', u')" for s' u'
    by (rule Suc.IH) (use balancedD [OF assms(2) that] Suc.prems in simp)
  then show ?case by (auto simp: eq split: bind_split)
qed simp

lemma dict_loop_agree:
  assumes "agree d pv qv" and "balanced pv"
  shows "max_depth s - depth s < d \<Longrightarrow> parse_dict_loop pv inp cb n s u = parse_dict_loop qv inp cb n s u"
proof (induction n arbitrary: s u)
  case (Suc n)
  note eq = agreeD [OF assms(1) Suc.prems, of u, symmetric]
  have key: "parse_dict_loop pv inp cb n s' u' = parse_dict_loop qv inp cb n s' u'"
    if "parse_dict_key inp cb s i u = Some (BENCODE_OK, s', u')" for i s' u'
    by (rule Suc.IH) (use parse_dict_key_depth [OF that] Suc.prems in simp)
  have val: "parse_dict_loop pv inp cb n s2 u' = parse_dict_loop qv inp cb n s2 u'"
    if "pv s u = Some (BENCODE_OK, s', u')" "put_scope s' i sc = Some s2" for i s' sc s2 u'
    by (rule Suc.IH) (use balancedD [OF assms(2) that(1)] put_scope_depth [OF that(2)] Suc.prems in simp)
  show ?case by (auto simp: Let_def eq key val split: bind_split)
qed simp

lemma parse_list_agree:
  assumes "agree d pv qv" and "balanced pv"
  shows "agree (Suc d) (parse_list pv inp cb n) (parse_list qv inp cb n)"
proof -
  have "parse_list_loop pv inp cb n s' u' = parse_list_loop qv inp cb n s' u'"
    if "push_scope (advance 1 s) False = Some (BENCODE_OK, s')" "max_depth s - depth s < Suc d" for s s' u'
    by (rule list_loop_agree [OF assms]) (use push_scope_depth [OF that(1)] that(2) in auto)
  then show ?thesis by (auto simp: agree_def parse_list_def split: bind_split)
qed

lemma parse_dict_agree:
  assumes "agree d pv qv" and "balanced pv"
  shows "agree (Suc d) (parse_dict pv inp cb n) (parse_dict qv inp cb n)"
proof -
  have "parse_dict_loop pv inp cb n s' u' = parse_dict_loop qv inp cb n s' u'"
    if "push_scope (advance 1 s) True = Some (BENCODE_OK, s')" "max_depth s - depth s < Suc d" for s s' u'
    by (rule dict_loop_agree [OF assms]) (use push_scope_depth [OF that(1)] that(2) in auto)
  then show ?thesis by (auto simp: agree_def parse_dict_def split: bind_split)
qed

lemma parse_levels_agree: "agree d (parse_levels inp cb d n) (parse_value inp cb n)"
proof (induction d arbitrary: n)
  case (Suc d)
  show ?case
  proof (cases n)
    case (Suc m)
    note arms = parse_list_agree [OF Suc.IH parse_levels_balanced] parse_dict_agree [OF Suc.IH parse_levels_balanced]
    show ?thesis unfolding Suc agree_def using arms [THEN agreeD] by (auto split: bind_split)
  qed (simp add: agree_def)
qed (simp add: agree_def)

section \<open>The property\<close>

text \<open>C5: the recursion of \<open>bencode_parse_sax\<close> is never deeper than the nesting limit: with the calls of
  \<open>parse_value\<close> that may be active at once bounded by the effective limit and one (65 by default, 257 at most), it
  returns the same on every input and with every callback table.\<close>

theorem sax_bounded_stack:
  "bencode_parse_sax input n cb user md = parse_sax_within (Suc (effective_depth md)) input n cb user md"
proof -
  have "parse_levels inp cb (Suc (effective_depth md)) m (init_state n md) user = parse_value inp cb m (init_state n md) user"
    for inp m
    by (rule agreeD [OF parse_levels_agree]) (simp add: init_state_def)
  then show ?thesis unfolding bencode_parse_sax_def parse_sax_within_def by (simp only:)
qed

end
