(* ===== verification/Memory.thy ===== *)
theory Memory
  imports Status
begin

text \<open>
  The memory that the value tree lives in: the objects of \<open>src/bencode_internal.h\<close>, the heap with its
  allocators (\<open>bencode_alloc\<close>, \<open>bencode_free\<close>, \<open>bencode_allocator_check\<close> of \<open>src/value.c\<close>), typed
  reads and writes that have no result outside live objects, and the relation \<open>moves\<close> that says which
  blocks an operation takes and gives back.
\<close>

section \<open>Objects\<close>

text \<open>A pool is a heap together with its allocation and release functions: the platform's
  \<open>malloc\<close>/\<open>free\<close>, or a custom table's.  \<open>Foreign\<close> marks memory that the library only reads, such as
  the input buffer.\<close>

datatype pool = Platform | Custom nat | Foreign

text \<open>The two function pointers of the table, each standing for the pool it works on; \<open>None\<close> is NULL.\<close>

record bencode_allocator =
  alloc_fn :: "pool option"
  free_fn :: "pool option"

text \<open>Pointers to bytes: NULL, the literal \<open>""\<close>, or an offset into a block.\<close>

datatype bptr = BNull | BEmpty | BAt addr nat

text \<open>The union \<open>as\<close> of \<open>struct bencode_value\<close>, tagged by \<open>type\<close>: a string has its bytes, their length and
  the \<open>owned\<close> flag; a list and a dictionary have their array, count and capacity.\<close>

datatype payload =
    Invalid_payload
  | Int_payload bencode_int_t
  | Str_payload bptr nat bool
  | List_payload "addr option" nat nat
  | Dict_payload "addr option" nat nat

record bencode_value =
  valloc :: "bencode_allocator option"
  payload :: payload

record bencode_dict_entry =
  ekey :: "addr option"
  ekey_len :: nat
  evalue :: addr

fun payload_type :: "payload \<Rightarrow> bencode_type" where
  "payload_type Invalid_payload = BENCODE_INVALID"
| "payload_type (Int_payload _) = BENCODE_INT"
| "payload_type (Str_payload _ _ _) = BENCODE_STRING"
| "payload_type (List_payload _ _ _) = BENCODE_LIST"
| "payload_type (Dict_payload _ _ _) = BENCODE_DICT"

text \<open>The payload of a node right after \<open>memset(v, 0, sizeof( *v))\<close> and the assignment of \<open>type\<close>.\<close>

fun zeroed :: "bencode_type \<Rightarrow> payload" where
  "zeroed BENCODE_INVALID = Invalid_payload"
| "zeroed BENCODE_INT = Int_payload 0"
| "zeroed BENCODE_STRING = Str_payload BNull 0 False"
| "zeroed BENCODE_LIST = List_payload None 0 0"
| "zeroed BENCODE_DICT = Dict_payload None 0 0"

datatype cell = Uninit | Item addr | Entry bencode_dict_entry

text \<open>A block of the heap: fresh storage of a given size, a value node, an array of pointers or
  entries, or bytes, some of them not yet written.\<close>

datatype block = Raw nat | Node bencode_value | Cells "cell list" | Bytes "byte option list"

definition sizeof_value :: nat where "sizeof_value = 40"
definition sizeof_item :: nat where "sizeof_item = 8"
definition sizeof_entry :: nat where "sizeof_entry = 24"

lemmas sizeof_defs = sizeof_value_def sizeof_item_def sizeof_entry_def

section \<open>The heap\<close>

text \<open>\<open>answers p n nbytes\<close> says whether the allocator of pool \<open>p\<close> grants the \<open>n\<close>-th request, of \<open>nbytes\<close> bytes;
  it is arbitrary, so it covers every allocator, exhausted or not.  Addresses are never reused, so a
  stale pointer is never mistaken for a live one.\<close>

record mem =
  store :: "addr \<Rightarrow> (pool \<times> block) option"
  next_addr :: addr
  requests :: nat
  answers :: "pool \<Rightarrow> nat \<Rightarrow> nat \<Rightarrow> bool"

definition wf_mem :: "mem \<Rightarrow> bool" where
  "wf_mem m \<longleftrightarrow> (\<forall>a. store m a \<noteq> None \<longrightarrow> a < next_addr m)"

definition granting :: "mem \<Rightarrow> bool" where
  "granting m \<longleftrightarrow> (\<forall>p n s. answers m p n s)"

definition put_block :: "addr \<Rightarrow> pool \<times> block \<Rightarrow> mem \<Rightarrow> mem" where
  "put_block a b m = m\<lparr>store := (store m)(a := Some b)\<rparr>"

definition alloc_from :: "pool \<Rightarrow> nat \<Rightarrow> mem \<Rightarrow> addr option \<times> mem" where
  "alloc_from p nbytes m =
     (if answers m p (requests m) nbytes
      then (Some (next_addr m),
            m\<lparr>requests := requests m + 1, next_addr := next_addr m + 1,
              store := (store m)(next_addr m := Some (p, Raw nbytes))\<rparr>)
      else (None, m\<lparr>requests := requests m + 1\<rparr>))"

text \<open>Releasing is defined for live blocks of the same pool.\<close>

definition free_to :: "pool \<Rightarrow> addr \<Rightarrow> mem \<Rightarrow> mem option" where
  "free_to p a m =
     (case store m a of
        Some (q, b) \<Rightarrow> if q = p then Some (m\<lparr>store := (store m)(a := None)\<rparr>) else None
      | None \<Rightarrow> None)"

section \<open>Allocator helpers\<close>

definition bencode_alloc :: "bencode_allocator option \<Rightarrow> nat \<Rightarrow> mem \<Rightarrow> addr option \<times> mem" where
  "bencode_alloc al nbytes m =
     (case al of
        Some a \<Rightarrow> (case alloc_fn a of Some p \<Rightarrow> alloc_from p nbytes m | None \<Rightarrow> alloc_from Platform nbytes m)
      | None \<Rightarrow> alloc_from Platform nbytes m)"

definition bencode_free :: "bencode_allocator option \<Rightarrow> addr option \<Rightarrow> mem \<Rightarrow> mem option" where
  "bencode_free al ptr m =
     (case ptr of
        None \<Rightarrow> Some m
      | Some a \<Rightarrow>
          (case al of
             Some t \<Rightarrow> (case free_fn t of Some p \<Rightarrow> free_to p a m | None \<Rightarrow> free_to Platform a m)
           | None \<Rightarrow> free_to Platform a m))"

definition bencode_allocator_check :: "bencode_allocator option \<Rightarrow> bencode_status" where
  "bencode_allocator_check al =
     (case al of
        None \<Rightarrow> BENCODE_OK
      | Some a \<Rightarrow>
          if alloc_fn a = None \<or> free_fn a = None then BENCODE_ERR_INVALID_ARG else BENCODE_OK)"

text \<open>An allocator that keeps its promise: what its \<open>alloc\<close> hands out, its \<open>free\<close> takes back.\<close>

definition alloc_ok :: "bencode_allocator option \<Rightarrow> bool" where
  "alloc_ok al \<longleftrightarrow> (case al of
      None \<Rightarrow> True
    | Some a \<Rightarrow> alloc_fn a \<noteq> None \<and> free_fn a = alloc_fn a \<and> alloc_fn a \<noteq> Some Foreign)"

definition pool_of :: "bencode_allocator option \<Rightarrow> pool" where
  "pool_of al = (case al of None \<Rightarrow> Platform
     | Some a \<Rightarrow> (case alloc_fn a of Some p \<Rightarrow> p | None \<Rightarrow> Platform))"

lemma alloc_ok_check [simp]: "alloc_ok al \<Longrightarrow> bencode_allocator_check al = BENCODE_OK"
  by (auto simp: alloc_ok_def bencode_allocator_check_def split: option.splits)

lemma bencode_alloc_pool: "bencode_alloc al = alloc_from (pool_of al)"
  by (intro ext) (simp add: bencode_alloc_def pool_of_def split: option.splits)

lemma bencode_free_pool: "alloc_ok al \<Longrightarrow> bencode_free al (Some a) m = free_to (pool_of al) a m"
  by (auto simp: bencode_free_def pool_of_def alloc_ok_def split: option.splits)

lemma bencode_free_NULL [simp]: "bencode_free al None m = Some m"
  by (simp add: bencode_free_def)

lemma alloc_ok_pool [simp]: "alloc_ok al \<Longrightarrow> pool_of al \<noteq> Foreign"
  by (auto simp: pool_of_def alloc_ok_def split: option.splits)

section \<open>Typed access\<close>

definition read_node :: "mem \<Rightarrow> addr \<Rightarrow> bencode_value option" where
  "read_node m a = (case store m a of Some (p, Node v) \<Rightarrow> Some v | _ \<Rightarrow> None)"

text \<open>A node may be written over a node, or over fresh storage of its size.\<close>

definition write_node :: "addr \<Rightarrow> bencode_value \<Rightarrow> mem \<Rightarrow> mem option" where
  "write_node a v m =
     (case store m a of
        Some (p, Node _) \<Rightarrow> Some (put_block a (p, Node v) m)
      | Some (p, Raw n) \<Rightarrow> if sizeof_value \<le> n then Some (put_block a (p, Node v) m) else None
      | _ \<Rightarrow> None)"

text \<open>Fresh storage seen as an array of elements of size \<open>esz\<close>, or of bytes.\<close>

fun cells_of :: "nat \<Rightarrow> block \<Rightarrow> cell list option" where
  "cells_of esz (Cells cs) = Some cs"
| "cells_of esz (Raw n) = Some (replicate (n div esz) Uninit)"
| "cells_of esz _ = None"

fun bytes_of :: "block \<Rightarrow> byte option list option" where
  "bytes_of (Bytes bs) = Some bs"
| "bytes_of (Raw n) = Some (replicate n None)"
| "bytes_of _ = None"

definition read_cell :: "nat \<Rightarrow> addr \<Rightarrow> nat \<Rightarrow> mem \<Rightarrow> cell option" where
  "read_cell esz a i m = do {
     (p, b) \<leftarrow> store m a;
     cs \<leftarrow> cells_of esz b;
     if i < length cs then Some (cs ! i) else None
   }"

definition write_cell :: "nat \<Rightarrow> addr \<Rightarrow> nat \<Rightarrow> cell \<Rightarrow> mem \<Rightarrow> mem option" where
  "write_cell esz a i c m = do {
     (p, b) \<leftarrow> store m a;
     cs \<leftarrow> cells_of esz b;
     if i < length cs then Some (put_block a (p, Cells (cs[i := c])) m) else None
   }"

text \<open>Reading an element that was written: \<open>items[i]\<close> and \<open>entries[i]\<close>; NULL has no elements.\<close>

definition read_item :: "addr option \<Rightarrow> nat \<Rightarrow> mem \<Rightarrow> addr option" where
  "read_item arr i m = do {
     a \<leftarrow> arr;
     c \<leftarrow> read_cell sizeof_item a i m;
     case c of Item x \<Rightarrow> Some x | _ \<Rightarrow> None
   }"

definition read_entry :: "addr option \<Rightarrow> nat \<Rightarrow> mem \<Rightarrow> bencode_dict_entry option" where
  "read_entry arr i m = do {
     a \<leftarrow> arr;
     c \<leftarrow> read_cell sizeof_entry a i m;
     case c of Entry e \<Rightarrow> Some e | _ \<Rightarrow> None
   }"

text \<open>\<open>memcpy(dst, src, n * esz)\<close> between arrays.\<close>

definition copy_cells :: "nat \<Rightarrow> addr \<Rightarrow> addr \<Rightarrow> nat \<Rightarrow> mem \<Rightarrow> mem option" where
  "copy_cells esz dst src n m = do {
     (p, b) \<leftarrow> store m src;
     cs \<leftarrow> cells_of esz b;
     (q, d) \<leftarrow> store m dst;
     ds \<leftarrow> cells_of esz d;
     if n \<le> length cs \<and> n \<le> length ds \<and> dst \<noteq> src
     then Some (put_block dst (q, Cells (take n cs @ drop n ds)) m) else None
   }"

text \<open>\<open>memmove(&arr[i + 1], &arr[i], n * esz)\<close>.\<close>

definition shift_cells :: "nat \<Rightarrow> addr \<Rightarrow> nat \<Rightarrow> nat \<Rightarrow> mem \<Rightarrow> mem option" where
  "shift_cells esz a i n m = do {
     (p, b) \<leftarrow> store m a;
     cs \<leftarrow> cells_of esz b;
     if i + n < length cs
     then Some (put_block a (p, Cells (take (i + 1) cs @ take n (drop i cs) @ drop (i + 1 + n) cs)) m)
     else None
   }"

text \<open>Bytes.  Reading no bytes is defined for every pointer.\<close>

definition read_bytes :: "bptr \<Rightarrow> nat \<Rightarrow> mem \<Rightarrow> byte list option" where
  "read_bytes ptr len m =
     (if len = 0 then Some []
      else (case ptr of
         BAt a off \<Rightarrow> do {
           (p, b) \<leftarrow> store m a;
           bs \<leftarrow> bytes_of b;
           if off + len \<le> length bs then those (slice bs off len) else None
         }
       | _ \<Rightarrow> None))"

definition write_bytes :: "addr \<Rightarrow> nat \<Rightarrow> byte list \<Rightarrow> mem \<Rightarrow> mem option" where
  "write_bytes a off bs m = do {
     (p, b) \<leftarrow> store m a;
     cs \<leftarrow> bytes_of b;
     if off + length bs \<le> length cs
     then Some (put_block a (p, Bytes (take off cs @ map Some bs @ drop (off + length bs) cs)) m)
     else None
   }"

lemma those_map_Some [simp]: "those (map Some xs) = Some xs"
  by (induction xs) simp_all

lemma read_bytes_0 [simp]: "read_bytes ptr 0 m = Some []"
  by (simp add: read_bytes_def)

section \<open>Taking and giving back blocks\<close>

text \<open>\<open>moves m F m' F'\<close>: an operation that owns the blocks \<open>F\<close> in \<open>m\<close> owns exactly \<open>F'\<close> in \<open>m'\<close>.  What it
  did not own is as it was, what it owned and no longer owns is released, and what it owns beyond \<open>F\<close>
  is fresh: nothing leaks and nothing of others is touched.\<close>

definition moves :: "mem \<Rightarrow> addr set \<Rightarrow> mem \<Rightarrow> addr set \<Rightarrow> bool" where
  "moves m F m' F' \<longleftrightarrow>
     wf_mem m \<and> wf_mem m' \<and> F \<subseteq> {..<next_addr m} \<and> F' \<subseteq> {..<next_addr m'}
     \<and> answers m' = answers m \<and> next_addr m \<le> next_addr m' \<and> requests m \<le> requests m'
     \<and> (\<forall>a. a \<notin> F \<and> a \<notin> F' \<longrightarrow> store m' a = store m a)
     \<and> (\<forall>a. a \<in> F \<and> a \<notin> F' \<longrightarrow> store m' a = None)
     \<and> (\<forall>a. a \<in> F' \<and> a \<notin> F \<longrightarrow> next_addr m \<le> a)
     \<and> (\<forall>a b. store m a = Some (Foreign, b) \<longrightarrow> store m' a = Some (Foreign, b))"

lemma movesD:
  assumes "moves m F m' F'"
  shows "wf_mem m" "wf_mem m'" "F \<subseteq> {..<next_addr m}" "F' \<subseteq> {..<next_addr m'}"
    "answers m' = answers m" "next_addr m \<le> next_addr m'" "requests m \<le> requests m'"
    "\<And>a. a \<notin> F \<Longrightarrow> a \<notin> F' \<Longrightarrow> store m' a = store m a"
    "\<And>a. a \<in> F \<Longrightarrow> a \<notin> F' \<Longrightarrow> store m' a = None"
    "\<And>a. a \<in> F' \<Longrightarrow> a \<notin> F \<Longrightarrow> next_addr m \<le> a"
    "\<And>a b. store m a = Some (Foreign, b) \<Longrightarrow> store m' a = Some (Foreign, b)"
  using assms by (auto simp: moves_def)

lemma moves_granting: "moves m F m' F' \<Longrightarrow> granting m' = granting m"
  by (simp add: moves_def granting_def)

lemma moves_below: "moves m F m' F' \<Longrightarrow> R \<subseteq> {..<next_addr m} \<Longrightarrow> R \<subseteq> {..<next_addr m'}"
  using movesD(6) by fastforce

lemma moves_refl: "wf_mem m \<Longrightarrow> F \<subseteq> {..<next_addr m} \<Longrightarrow> moves m F m F"
  by (simp add: moves_def)

lemma moves_trans:
  assumes "moves m F m1 F1" and "moves m1 F1 m2 F2"
  shows "moves m F m2 F2"
proof -
  note a = movesD [OF assms(1)] and b = movesD [OF assms(2)]
  have "store m2 x = store m x" if "x \<notin> F" "x \<notin> F2" for x
  proof (cases "x \<in> F1")
    case True
    then have "next_addr m \<le> x" using a(10) that(1) by blast
    then have "store m x = None" using a(1) by (meson linorder_not_less wf_mem_def)
    then show ?thesis using b(9) True that(2) by simp
  next
    case False
    then show ?thesis using a(8) b(8) that by simp
  qed
  moreover have "store m2 x = None" if "x \<in> F" "x \<notin> F2" for x
    using a(9) b(8,9) that by (cases "x \<in> F1") auto
  moreover have "next_addr m \<le> x" if "x \<in> F2" "x \<notin> F" for x
    using a(6,10) b(10) that by (cases "x \<in> F1") (auto intro: order_trans)
  ultimately show ?thesis using a b by (auto simp: moves_def)
qed

text \<open>Framing: further blocks \<open>R\<close> ride along untouched.\<close>

lemma moves_apart: "moves m F m' F' \<Longrightarrow> R \<subseteq> {..<next_addr m} \<Longrightarrow> R \<inter> F = {} \<Longrightarrow> R \<inter> F' = {}"
  using movesD(10) [of m F m' F'] by fastforce

lemma moves_frame:
  assumes "moves m F m' F'" and "R \<subseteq> {..<next_addr m}" and "R \<inter> F = {}"
  shows "moves m (F \<union> R) m' (F' \<union> R)"
  using assms moves_apart [OF assms] by (auto simp: moves_def)

text \<open>One more operation, on part of what is owned.\<close>

lemma moves_step:
  assumes "moves m F m1 F1" and "moves m1 G m2 G2" and "G \<subseteq> F1"
  shows "moves m F m2 (G2 \<union> (F1 - G))"
proof -
  have "moves m1 (G \<union> (F1 - G)) m2 (G2 \<union> (F1 - G))"
    using movesD(4) [OF assms(1)] by (intro moves_frame [OF assms(2)]) auto
  moreover have "G \<union> (F1 - G) = F1" using assms(3) by blast
  ultimately show ?thesis using moves_trans [OF assms(1)] by simp
qed

lemma moves_kept:
  assumes "moves m F m' F'" and "R \<subseteq> {..<next_addr m}" and "R \<inter> F = {}" and "a \<in> R"
  shows "store m' a = store m a"
  using movesD(8) [OF assms(1)] moves_apart [OF assms(1-3)] assms(3,4) by blast

lemma moves_None: "wf_mem m \<Longrightarrow> next_addr m \<le> a \<Longrightarrow> store m a = None"
  by (meson linorder_not_less wf_mem_def)

lemma store_below: "wf_mem m \<Longrightarrow> store m a = Some b \<Longrightarrow> a < next_addr m"
  by (simp add: wf_mem_def)

text \<open>The primitive steps.\<close>

lemma alloc_from_cases:
  assumes "wf_mem m"
  obtains (granted) a m' where "alloc_from p nbytes m = (Some a, m')" and "moves m {} m' {a}"
      and "store m' a = Some (p, Raw nbytes)" and "store m a = None"
  | (refused) m' where "alloc_from p nbytes m = (None, m')" and "moves m {} m' {}" and "\<not> granting m"
proof (cases "answers m p (requests m) nbytes")
  case True
  have "store m (next_addr m) = None" using moves_None [OF assms] by simp
  with True show thesis
    using assms by (intro granted [of "next_addr m"])
      (auto simp: alloc_from_def moves_def wf_mem_def less_Suc_eq)
next
  case False
  then show thesis
    using assms by (intro refused) (auto simp: alloc_from_def moves_def wf_mem_def granting_def)
qed

lemma moves_put:
  assumes "wf_mem m" and "store m a = Some (p, b)" and "p \<noteq> Foreign"
  shows "moves m {a} (put_block a (p, b') m) {a}"
  using assms by (auto simp: put_block_def moves_def wf_mem_def)

lemma store_put [simp]: "store (put_block a b m) x = (if x = a then Some b else store m x)"
  by (simp add: put_block_def)

lemma free_to_moves:
  assumes "wf_mem m" and "store m a = Some (p, b)" and "p \<noteq> Foreign"
  obtains m' where "free_to p a m = Some m'" and "moves m {a} m' {}"
  using assms by (auto simp: free_to_def moves_def wf_mem_def)

text \<open>\<open>bencode_free\<close> of an optional block.\<close>

definition opt :: "addr option \<Rightarrow> addr list" where
  "opt ao = (case ao of None \<Rightarrow> [] | Some a \<Rightarrow> [a])"

lemma opt_simps [simp]: "opt None = []" "opt (Some a) = [a]"
  by (simp_all add: opt_def)

lemma bencode_free_moves:
  assumes "wf_mem m" and "alloc_ok al"
    and "\<And>a. ptr = Some a \<Longrightarrow> \<exists>b. store m a = Some (pool_of al, b)"
  obtains m' where "bencode_free al ptr m = Some m'" and "moves m (set (opt ptr)) m' {}"
proof (cases ptr)
  case None
  then show thesis using that [of m] moves_refl [OF assms(1), of "{}"] by simp
next
  case (Some a)
  with assms(3) obtain b where "store m a = Some (pool_of al, b)" by blast
  from free_to_moves [OF assms(1) this alloc_ok_pool [OF assms(2)]] show thesis
    using that assms(2) Some by (auto simp: bencode_free_pool)
qed

end
