(* ===== verification/Value.thy ===== *)
theory Value
  imports Memory Bytes
begin

text \<open>
  \<open>src/value.c\<close>: construction, release, the list and dictionary builders, the accessors and the deep
  copy, as functions on the memory.  A pointer to a value is an \<open>addr option\<close> (\<open>None\<close> is NULL); an
  out-parameter is a component of the result, with a flag \<open>has_out\<close> that says whether the caller passed
  a pointer for it.  The recursive functions count their depth; the public functions start them with
  one more than the number of addresses ever handed out, which bounds the depth of every tree in the
  memory.
\<close>

section \<open>Type tag\<close>

definition bencode_value_type :: "addr option \<Rightarrow> mem \<Rightarrow> bencode_type option" where
  "bencode_value_type ptr m =
     (case ptr of
        None \<Rightarrow> Some BENCODE_INVALID
      | Some a \<Rightarrow> do { v \<leftarrow> read_node m a; Some (payload_type (payload v)) })"

section \<open>Lifecycle\<close>

definition value_alloc :: "bencode_allocator option \<Rightarrow> bencode_type \<Rightarrow> mem \<Rightarrow> (addr option \<times> mem) option" where
  "value_alloc al ty m =
     (case bencode_alloc al sizeof_value m of
        (None, m1) \<Rightarrow> Some (None, m1)
      | (Some a, m1) \<Rightarrow> do {
          m2 \<leftarrow> write_node a \<lparr>valloc = al, payload = zeroed ty\<rparr> m1;
          Some (Some a, m2)
        })"

text \<open>Releasing the bytes of an owned string: only the start of a block can be released.\<close>

definition free_bytes :: "bencode_allocator option \<Rightarrow> bptr \<Rightarrow> mem \<Rightarrow> mem option" where
  "free_bytes al ptr m =
     (case ptr of
        BNull \<Rightarrow> Some m
      | BEmpty \<Rightarrow> None
      | BAt a off \<Rightarrow> if off = 0 then bencode_free al (Some a) m else None)"

text \<open>The loop bodies of \<open>bencode_value_free\<close>, over the function that releases a child.\<close>

definition free_item :: "(addr option \<Rightarrow> mem \<Rightarrow> mem option) \<Rightarrow> addr option \<Rightarrow> nat \<Rightarrow> mem
    \<Rightarrow> (bencode_status \<times> mem) option" where
  "free_item free_child items i m = do {
     x \<leftarrow> read_item items i m;
     m1 \<leftarrow> free_child (Some x) m;
     Some (BENCODE_OK, m1)
   }"

definition free_entry :: "(addr option \<Rightarrow> mem \<Rightarrow> mem option) \<Rightarrow> bencode_allocator option \<Rightarrow> addr option
    \<Rightarrow> nat \<Rightarrow> mem \<Rightarrow> (bencode_status \<times> mem) option" where
  "free_entry free_child al entries i m = do {
     e \<leftarrow> read_entry entries i m;
     m1 \<leftarrow> bencode_free al (ekey e) m;
     e1 \<leftarrow> read_entry entries i m1;
     m2 \<leftarrow> free_child (Some (evalue e1)) m1;
     Some (BENCODE_OK, m2)
   }"

definition free_payload :: "(addr option \<Rightarrow> mem \<Rightarrow> mem option) \<Rightarrow> bencode_value \<Rightarrow> mem \<Rightarrow> mem option" where
  "free_payload free_child v m =
     (case payload v of
        Invalid_payload \<Rightarrow> Some m
      | Int_payload _ \<Rightarrow> Some m
      | Str_payload bytes len owned \<Rightarrow> if owned then free_bytes (valloc v) bytes m else Some m
      | List_payload items count cap \<Rightarrow> do {
          (_, m2) \<leftarrow> for_ok (free_item free_child items) 0 count m;
          bencode_free (valloc v) items m2
        }
      | Dict_payload entries count cap \<Rightarrow> do {
          (_, m2) \<leftarrow> for_ok (free_entry free_child (valloc v) entries) 0 count m;
          bencode_free (valloc v) entries m2
        })"

primrec value_free :: "nat \<Rightarrow> addr option \<Rightarrow> mem \<Rightarrow> mem option" where
  "value_free 0 ptr m = None"
| "value_free (Suc n) ptr m =
     (case ptr of
        None \<Rightarrow> Some m
      | Some a \<Rightarrow> do {
          v \<leftarrow> read_node m a;
          m1 \<leftarrow> free_payload (value_free n) v m;
          bencode_free (valloc v) (Some a) m1
        })"

definition bencode_value_free :: "addr option \<Rightarrow> mem \<Rightarrow> mem option" where
  "bencode_value_free ptr m = value_free (Suc (next_addr m)) ptr m"

section \<open>Builders\<close>

type_synonym new_result = "(bencode_status \<times> addr option \<times> mem) option"

definition bencode_int_new :: "bencode_int_t \<Rightarrow> bencode_allocator option \<Rightarrow> bool \<Rightarrow> mem \<Rightarrow> new_result" where
  "bencode_int_new v al has_out m =
     (if \<not> has_out then Some (BENCODE_ERR_INVALID_ARG, None, m)
      else let st = bencode_allocator_check al in
        if st \<noteq> BENCODE_OK then Some (st, None, m)
        else do {
          (node, m1) \<leftarrow> value_alloc al BENCODE_INT m;
          (case node of
             None \<Rightarrow> Some (BENCODE_ERR_NOMEM, None, m1)
           | Some a \<Rightarrow> do {
               m2 \<leftarrow> write_node a \<lparr>valloc = al, payload = Int_payload v\<rparr> m1;
               Some (BENCODE_OK, Some a, m2)
             })
        })"

definition bencode_string_new :: "bptr \<Rightarrow> nat \<Rightarrow> bencode_allocator option \<Rightarrow> bool \<Rightarrow> mem \<Rightarrow> new_result" where
  "bencode_string_new bytes len al has_out m =
     (if \<not> has_out \<or> (bytes = BNull \<and> len \<noteq> 0) then Some (BENCODE_ERR_INVALID_ARG, None, m)
      else let st = bencode_allocator_check al in
        if st \<noteq> BENCODE_OK then Some (st, None, m)
        else do {
          (node, m1) \<leftarrow> value_alloc al BENCODE_STRING m;
          (case node of
             None \<Rightarrow> Some (BENCODE_ERR_NOMEM, None, m1)
           | Some a \<Rightarrow>
               if len = 0 then do {
                 m2 \<leftarrow> write_node a \<lparr>valloc = al, payload = Str_payload BEmpty 0 False\<rparr> m1;
                 Some (BENCODE_OK, Some a, m2)
               }
               else (case bencode_alloc al len m1 of
                 (None, m2) \<Rightarrow> do {
                   m3 \<leftarrow> bencode_free al (Some a) m2;
                   Some (BENCODE_ERR_NOMEM, None, m3)
                 }
               | (Some copy, m2) \<Rightarrow> do {
                   bs \<leftarrow> read_bytes bytes len m2;
                   m3 \<leftarrow> write_bytes copy 0 bs m2;
                   m4 \<leftarrow> write_node a \<lparr>valloc = al, payload = Str_payload (BAt copy 0) len True\<rparr> m3;
                   Some (BENCODE_OK, Some a, m4)
                 }))
        })"

definition bencode_string_new_borrowed :: "bptr \<Rightarrow> nat \<Rightarrow> bencode_allocator option \<Rightarrow> bool \<Rightarrow> mem
    \<Rightarrow> new_result" where
  "bencode_string_new_borrowed bytes len al has_out m =
     (if \<not> has_out \<or> (bytes = BNull \<and> len \<noteq> 0) then Some (BENCODE_ERR_INVALID_ARG, None, m)
      else do {
        (node, m1) \<leftarrow> value_alloc al BENCODE_STRING m;
        (case node of
           None \<Rightarrow> Some (BENCODE_ERR_NOMEM, None, m1)
         | Some a \<Rightarrow> do {
             m2 \<leftarrow> write_node a
               \<lparr>valloc = al, payload = Str_payload (if len = 0 then BEmpty else bytes) len False\<rparr> m1;
             Some (BENCODE_OK, Some a, m2)
           })
      })"

definition bencode_list_new :: "bencode_allocator option \<Rightarrow> bool \<Rightarrow> mem \<Rightarrow> new_result" where
  "bencode_list_new al has_out m =
     (if \<not> has_out then Some (BENCODE_ERR_INVALID_ARG, None, m)
      else let st = bencode_allocator_check al in
        if st \<noteq> BENCODE_OK then Some (st, None, m)
        else do {
          (node, m1) \<leftarrow> value_alloc al BENCODE_LIST m;
          (case node of
             None \<Rightarrow> Some (BENCODE_ERR_NOMEM, None, m1)
           | Some a \<Rightarrow> Some (BENCODE_OK, Some a, m1))
        })"

definition bencode_dict_new :: "bencode_allocator option \<Rightarrow> bool \<Rightarrow> mem \<Rightarrow> new_result" where
  "bencode_dict_new al has_out m =
     (if \<not> has_out then Some (BENCODE_ERR_INVALID_ARG, None, m)
      else let st = bencode_allocator_check al in
        if st \<noteq> BENCODE_OK then Some (st, None, m)
        else do {
          (node, m1) \<leftarrow> value_alloc al BENCODE_DICT m;
          (case node of
             None \<Rightarrow> Some (BENCODE_ERR_NOMEM, None, m1)
           | Some a \<Rightarrow> Some (BENCODE_OK, Some a, m1))
        })"

section \<open>Growing arrays\<close>

text \<open>The doubling loop of \<open>grow_array\<close>: the inner \<open>None\<close> is its overflow exit.  It ends only when it
  starts from a capacity that is not zero, so it is a partial function.\<close>

partial_function (option) double_until :: "nat \<Rightarrow> nat \<Rightarrow> nat option option" where
  [code]: "double_until new_cap needed =
     (if new_cap < needed then
        (if new_cap > SIZE_MAX div 2 then Some None else double_until (sz (new_cap * 2)) needed)
      else Some (Some new_cap))"

text \<open>The result is the status, and the array pointer and capacity as the call leaves them.\<close>

definition grow_array :: "bencode_allocator option \<Rightarrow> addr option \<Rightarrow> nat \<Rightarrow> nat \<Rightarrow> nat \<Rightarrow> mem
    \<Rightarrow> (bencode_status \<times> addr option \<times> nat \<times> mem) option" where
  "grow_array al items element_size capacity needed m =
     (if needed \<le> capacity then Some (BENCODE_OK, items, capacity, m)
      else do {
        grown \<leftarrow> double_until (if capacity = 0 then 4 else capacity) needed;
        (case grown of
           None \<Rightarrow> Some (BENCODE_ERR_NOMEM, items, capacity, m)
         | Some new_cap \<Rightarrow>
             if new_cap > SIZE_MAX div element_size then Some (BENCODE_ERR_NOMEM, items, capacity, m)
             else (case bencode_alloc al (sz (new_cap * element_size)) m of
               (None, m1) \<Rightarrow> Some (BENCODE_ERR_NOMEM, items, capacity, m1)
             | (Some fresh, m1) \<Rightarrow> do {
                 m2 \<leftarrow> (case items of
                          Some old \<Rightarrow>
                            if capacity > 0 then do {
                              m3 \<leftarrow> copy_cells element_size fresh old capacity m1;
                              bencode_free al (Some old) m3
                            }
                            else Some m1
                        | None \<Rightarrow> Some m1);
                 Some (BENCODE_OK, Some fresh, new_cap, m2)
               }))
      })"

definition bencode_list_append :: "addr option \<Rightarrow> addr option \<Rightarrow> mem \<Rightarrow> (bencode_status \<times> mem) option" where
  "bencode_list_append list child m =
     (case (list, child) of
        (Some l, Some c) \<Rightarrow> do {
          v \<leftarrow> read_node m l;
          (case payload v of
             List_payload items count cap \<Rightarrow> do {
               (st, items1, cap1, m1) \<leftarrow> grow_array (valloc v) items sizeof_item cap (sz (count + 1)) m;
               if st \<noteq> BENCODE_OK then Some (st, m1)
               else do {
                 arr \<leftarrow> items1;
                 m2 \<leftarrow> write_cell sizeof_item arr count (Item c) m1;
                 m3 \<leftarrow> write_node l (v\<lparr>payload := List_payload items1 (sz (count + 1)) cap1\<rparr>) m2;
                 Some (BENCODE_OK, m3)
               }
             }
           | _ \<Rightarrow> Some (BENCODE_ERR_INVALID_ARG, m))
        }
      | _ \<Rightarrow> Some (BENCODE_ERR_INVALID_ARG, m))"

section \<open>Dictionaries\<close>

definition key_ptr :: "addr option \<Rightarrow> bptr" where
  "key_ptr k = (case k of None \<Rightarrow> BNull | Some a \<Rightarrow> BAt a 0)"

text \<open>The loop of \<open>dict_search\<close>; the result is the index and whether the key was found there.\<close>

function search_loop :: "addr option \<Rightarrow> bptr \<Rightarrow> nat \<Rightarrow> mem \<Rightarrow> nat \<Rightarrow> nat \<Rightarrow> (nat \<times> bool) option" where
  "search_loop entries key key_len m lo hi =
     (if lo < hi then
        let mid = lo + (hi - lo) div 2 in do {
          e \<leftarrow> read_entry entries mid m;
          ek \<leftarrow> read_bytes (key_ptr (ekey e)) (ekey_len e) m;
          k \<leftarrow> read_bytes key key_len m;
          let c = entry_cmp ek k;
          if c = 0 then Some (mid, True)
          else if c < 0 then search_loop entries key key_len m (mid + 1) hi
          else search_loop entries key key_len m lo mid
        }
      else Some (lo, False))"
  by pat_completeness auto
termination
  by (relation "measure (\<lambda>(entries, key, key_len, m, lo, hi). hi - lo)") auto

declare search_loop.simps [simp del]

definition dict_search :: "addr option \<Rightarrow> nat \<Rightarrow> bptr \<Rightarrow> nat \<Rightarrow> mem \<Rightarrow> (nat \<times> bool) option" where
  "dict_search entries count key key_len m = search_loop entries key key_len m 0 count"

text \<open>The two parts of \<open>bencode_dict_set\<close> that insert a new entry at \<open>index\<close>: the copy of the key (the flag
  says that the allocation failed), and the rest.\<close>

definition copy_key :: "bencode_allocator option \<Rightarrow> bptr \<Rightarrow> nat \<Rightarrow> mem
    \<Rightarrow> (bool \<times> addr option \<times> mem) option" where
  "copy_key al key len m =
     (if len > 0 then
        (case bencode_alloc al len m of
           (None, m1) \<Rightarrow> Some (True, None, m1)
         | (Some k, m1) \<Rightarrow> do {
             bs \<leftarrow> read_bytes key len m1;
             m2 \<leftarrow> write_bytes k 0 bs m1;
             Some (False, Some k, m2)
           })
      else Some (False, None, m))"

definition dict_insert :: "addr \<Rightarrow> bencode_value \<Rightarrow> nat \<Rightarrow> bptr \<Rightarrow> nat \<Rightarrow> addr \<Rightarrow> mem
    \<Rightarrow> (bencode_status \<times> mem) option" where
  "dict_insert d v index key len c m =
     (case payload v of
        Dict_payload entries count cap \<Rightarrow> do {
          (no_key, key_copy, m1) \<leftarrow> copy_key (valloc v) key len m;
          if no_key then Some (BENCODE_ERR_NOMEM, m1)
          else do {
            (st, entries1, cap1, m2) \<leftarrow>
              grow_array (valloc v) entries sizeof_entry cap (sz (count + 1)) m1;
            if st \<noteq> BENCODE_OK then do {
              m3 \<leftarrow> bencode_free (valloc v) key_copy m2;
              Some (st, m3)
            }
            else do {
              arr \<leftarrow> entries1;
              m3 \<leftarrow> (if index < count then shift_cells sizeof_entry arr index (count - index) m2
                     else Some m2);
              m4 \<leftarrow> write_cell sizeof_entry arr index
                     (Entry \<lparr>ekey = key_copy, ekey_len = len, evalue = c\<rparr>) m3;
              m5 \<leftarrow> write_node d (v\<lparr>payload := Dict_payload entries1 (sz (count + 1)) cap1\<rparr>) m4;
              Some (BENCODE_OK, m5)
            }
          }
        }
      | _ \<Rightarrow> None)"

text \<open>The part that replaces the value of the entry at \<open>index\<close>.\<close>

definition dict_replace :: "addr option \<Rightarrow> nat \<Rightarrow> addr \<Rightarrow> mem \<Rightarrow> (bencode_status \<times> mem) option" where
  "dict_replace entries index c m = do {
     e \<leftarrow> read_entry entries index m;
     m1 \<leftarrow> bencode_value_free (Some (evalue e)) m;
     e1 \<leftarrow> read_entry entries index m1;
     arr \<leftarrow> entries;
     m2 \<leftarrow> write_cell sizeof_entry arr index (Entry (e1\<lparr>evalue := c\<rparr>)) m1;
     Some (BENCODE_OK, m2)
   }"

definition bencode_dict_set :: "addr option \<Rightarrow> bptr \<Rightarrow> nat \<Rightarrow> addr option \<Rightarrow> mem
    \<Rightarrow> (bencode_status \<times> mem) option" where
  "bencode_dict_set dict key len child m =
     (case (dict, child) of
        (Some d, Some c) \<Rightarrow> do {
          v \<leftarrow> read_node m d;
          (case payload v of
             Dict_payload entries count cap \<Rightarrow>
               if key = BNull \<and> len \<noteq> 0 then Some (BENCODE_ERR_INVALID_ARG, m)
               else do {
                 (index, found) \<leftarrow> dict_search entries count key len m;
                 if found then dict_replace entries index c m
                 else dict_insert d v index key len c m
               }
           | _ \<Rightarrow> Some (BENCODE_ERR_INVALID_ARG, m))
        }
      | _ \<Rightarrow> Some (BENCODE_ERR_INVALID_ARG, m))"

section \<open>Accessors\<close>

definition bencode_value_int :: "addr option \<Rightarrow> bool \<Rightarrow> mem
    \<Rightarrow> (bencode_status \<times> bencode_int_t option) option" where
  "bencode_value_int ptr has_out m =
     (case ptr of
        None \<Rightarrow> Some (BENCODE_ERR_INVALID_ARG, None)
      | Some a \<Rightarrow>
          if \<not> has_out then Some (BENCODE_ERR_INVALID_ARG, None)
          else do {
            v \<leftarrow> read_node m a;
            (case payload v of
               Int_payload i \<Rightarrow> Some (BENCODE_OK, Some i)
             | _ \<Rightarrow> Some (BENCODE_ERR_INVALID_ARG, None))
          })"

definition bencode_value_string :: "addr option \<Rightarrow> bool \<Rightarrow> bool \<Rightarrow> mem
    \<Rightarrow> (bencode_status \<times> (bptr \<times> nat) option) option" where
  "bencode_value_string ptr has_bytes has_len m =
     (case ptr of
        None \<Rightarrow> Some (BENCODE_ERR_INVALID_ARG, None)
      | Some a \<Rightarrow>
          if \<not> has_bytes \<or> \<not> has_len then Some (BENCODE_ERR_INVALID_ARG, None)
          else do {
            v \<leftarrow> read_node m a;
            (case payload v of
               Str_payload bytes len owned \<Rightarrow> Some (BENCODE_OK, Some (bytes, len))
             | _ \<Rightarrow> Some (BENCODE_ERR_INVALID_ARG, None))
          })"

definition bencode_list_size :: "addr option \<Rightarrow> mem \<Rightarrow> nat option" where
  "bencode_list_size ptr m =
     (case ptr of
        None \<Rightarrow> Some 0
      | Some a \<Rightarrow> do {
          v \<leftarrow> read_node m a;
          (case payload v of List_payload items count cap \<Rightarrow> Some count | _ \<Rightarrow> Some 0)
        })"

definition bencode_list_at :: "addr option \<Rightarrow> nat \<Rightarrow> mem \<Rightarrow> addr option option" where
  "bencode_list_at ptr index m =
     (case ptr of
        None \<Rightarrow> Some None
      | Some a \<Rightarrow> do {
          v \<leftarrow> read_node m a;
          (case payload v of
             List_payload items count cap \<Rightarrow>
               if index \<ge> count then Some None else do { x \<leftarrow> read_item items index m; Some (Some x) }
           | _ \<Rightarrow> Some None)
        })"

definition bencode_dict_size :: "addr option \<Rightarrow> mem \<Rightarrow> nat option" where
  "bencode_dict_size ptr m =
     (case ptr of
        None \<Rightarrow> Some 0
      | Some a \<Rightarrow> do {
          v \<leftarrow> read_node m a;
          (case payload v of Dict_payload entries count cap \<Rightarrow> Some count | _ \<Rightarrow> Some 0)
        })"

definition bencode_dict_get :: "addr option \<Rightarrow> bptr \<Rightarrow> nat \<Rightarrow> mem \<Rightarrow> addr option option" where
  "bencode_dict_get ptr key key_len m =
     (case ptr of
        None \<Rightarrow> Some None
      | Some a \<Rightarrow> do {
          v \<leftarrow> read_node m a;
          (case payload v of
             Dict_payload entries count cap \<Rightarrow>
               if key = BNull \<and> key_len \<noteq> 0 then Some None
               else do {
                 (index, found) \<leftarrow> dict_search entries count key key_len m;
                 if \<not> found then Some None
                 else do { e \<leftarrow> read_entry entries index m; Some (Some (evalue e)) }
               }
           | _ \<Rightarrow> Some None)
        })"

text \<open>The caller reads only the out-parameters that it asked for; the model returns all three.\<close>

definition bencode_dict_at :: "addr option \<Rightarrow> nat \<Rightarrow> mem
    \<Rightarrow> (bencode_status \<times> (addr option \<times> nat \<times> addr) option) option" where
  "bencode_dict_at ptr index m =
     (case ptr of
        None \<Rightarrow> Some (BENCODE_ERR_INVALID_ARG, None)
      | Some a \<Rightarrow> do {
          v \<leftarrow> read_node m a;
          (case payload v of
             Dict_payload entries count cap \<Rightarrow>
               if index \<ge> count then Some (BENCODE_ERR_INVALID_ARG, None)
               else do {
                 e \<leftarrow> read_entry entries index m;
                 Some (BENCODE_OK, Some (ekey e, ekey_len e, evalue e))
               }
           | _ \<Rightarrow> Some (BENCODE_ERR_INVALID_ARG, None))
        })"

section \<open>Deep copy\<close>

text \<open>The loop bodies of \<open>bencode_value_clone\<close>, over the function that copies a child.\<close>

definition clone_item :: "(addr option \<Rightarrow> mem \<Rightarrow> new_result) \<Rightarrow> addr option \<Rightarrow> addr option \<Rightarrow> nat \<Rightarrow> mem
    \<Rightarrow> (bencode_status \<times> mem) option" where
  "clone_item clone_child list items i m = do {
     x \<leftarrow> read_item items i m;
     (st, child, m1) \<leftarrow> clone_child (Some x) m;
     if st \<noteq> BENCODE_OK then do {
       m2 \<leftarrow> bencode_value_free list m1;
       Some (st, m2)
     }
     else do {
       (st, m2) \<leftarrow> bencode_list_append list child m1;
       if st \<noteq> BENCODE_OK then do {
         m3 \<leftarrow> bencode_value_free child m2;
         m4 \<leftarrow> bencode_value_free list m3;
         Some (st, m4)
       }
       else Some (BENCODE_OK, m2)
     }
   }"

definition clone_entry :: "(addr option \<Rightarrow> mem \<Rightarrow> new_result) \<Rightarrow> addr option \<Rightarrow> addr option \<Rightarrow> nat \<Rightarrow> mem
    \<Rightarrow> (bencode_status \<times> mem) option" where
  "clone_entry clone_child dict entries i m = do {
     e \<leftarrow> read_entry entries i m;
     (st, child, m1) \<leftarrow> clone_child (Some (evalue e)) m;
     if st \<noteq> BENCODE_OK then do {
       m2 \<leftarrow> bencode_value_free dict m1;
       Some (st, m2)
     }
     else do {
       (st, m2) \<leftarrow> bencode_dict_set dict (key_ptr (ekey e)) (ekey_len e) child m1;
       if st \<noteq> BENCODE_OK then do {
         m3 \<leftarrow> bencode_value_free child m2;
         m4 \<leftarrow> bencode_value_free dict m3;
         Some (st, m4)
       }
       else Some (BENCODE_OK, m2)
     }
   }"

primrec value_clone :: "nat \<Rightarrow> bencode_allocator option \<Rightarrow> addr option \<Rightarrow> mem \<Rightarrow> new_result" where
  "value_clone 0 al ptr m = None"
| "value_clone (Suc n) al ptr m =
     (let st = bencode_allocator_check al in
      if st \<noteq> BENCODE_OK then Some (st, None, m)
      else (case ptr of
        None \<Rightarrow> Some (BENCODE_OK, None, m)
      | Some a \<Rightarrow> do {
          v \<leftarrow> read_node m a;
          (case payload v of
             Int_payload i \<Rightarrow> bencode_int_new i al True m
           | Str_payload bytes len owned \<Rightarrow> bencode_string_new bytes len al True m
           | List_payload items count cap \<Rightarrow> do {
               (st, list, m1) \<leftarrow> bencode_list_new al True m;
               if st \<noteq> BENCODE_OK then Some (st, None, m1)
               else do {
                 (st, m2) \<leftarrow> for_ok (clone_item (value_clone n al) list items) 0 count m1;
                 if st \<noteq> BENCODE_OK then Some (st, None, m2) else Some (BENCODE_OK, list, m2)
               }
             }
           | Dict_payload entries count cap \<Rightarrow> do {
               (st, dict, m1) \<leftarrow> bencode_dict_new al True m;
               if st \<noteq> BENCODE_OK then Some (st, None, m1)
               else do {
                 (st, m2) \<leftarrow> for_ok (clone_entry (value_clone n al) dict entries) 0 count m1;
                 if st \<noteq> BENCODE_OK then Some (st, None, m2) else Some (BENCODE_OK, dict, m2)
               }
             }
           | Invalid_payload \<Rightarrow> Some (BENCODE_ERR_INVALID_ARG, None, m))
        }))"

definition bencode_value_clone :: "addr option \<Rightarrow> bencode_allocator option \<Rightarrow> bool \<Rightarrow> mem \<Rightarrow> new_result" where
  "bencode_value_clone ptr al has_out m =
     (if \<not> has_out then Some (BENCODE_ERR_INVALID_ARG, None, m)
      else value_clone (Suc (next_addr m)) al ptr m)"

end
