(* ===== verification/Dom.thy ===== *)
theory Dom
  imports Value Sax
begin

text \<open>
  \<open>src/parse_dom.c\<close>: the callbacks that build a value tree from the events of the SAX parser, and
  \<open>bencode_parse\<close>.  The user state of the callbacks is the builder's state together with the memory.
  String events carry offsets into the input; the builder's callbacks see pointers, so the callback
  table is made for an input pointer.
\<close>

section \<open>State\<close>

record dom_frame =
  container :: addr
  fexpecting_key :: bool
  pending_key :: bptr
  pending_key_len :: nat

text \<open>An entry of \<open>frames\<close> that has not been written yet is \<open>None\<close>.\<close>

record dom_state =
  droot :: "addr option"
  dalloc :: "bencode_allocator option"
  frames :: "dom_frame option list"
  ddepth :: nat
  depth_cap :: nat

definition FRAMES :: nat where
  "FRAMES = 257"

definition get_frame :: "dom_state \<Rightarrow> nat \<Rightarrow> dom_frame option" where
  "get_frame s i = (if i < length (frames s) then frames s ! i else None)"

definition put_frame :: "dom_state \<Rightarrow> nat \<Rightarrow> dom_frame \<Rightarrow> dom_state option" where
  "put_frame s i f =
     (if i < length (frames s) then Some (s\<lparr>frames := (frames s)[i := Some f]\<rparr>) else None)"

section \<open>Callbacks\<close>

type_synonym dom_result = "(bencode_status \<times> dom_state \<times> mem) option"

definition attach :: "dom_state \<Rightarrow> addr option \<Rightarrow> mem \<Rightarrow> dom_result" where
  "attach s v m =
     (if ddepth s = 0 then Some (BENCODE_OK, s\<lparr>droot := v\<rparr>, m)
      else do {
        let i = ddepth s - 1;
        f \<leftarrow> get_frame s i;
        c \<leftarrow> read_node m (container f);
        if payload_type (payload c) = BENCODE_LIST then do {
          (st, m1) \<leftarrow> bencode_list_append (Some (container f)) v m;
          Some (st, s, m1)
        }
        else do {
          (st, m1) \<leftarrow> bencode_dict_set (Some (container f)) (pending_key f) (pending_key_len f) v m;
          s1 \<leftarrow> put_frame s i (f\<lparr>pending_key := BNull, pending_key_len := 0, fexpecting_key := True\<rparr>);
          Some (st, s1, m1)
        }
      })"

text \<open>What \<open>dom_on_int\<close>, the value branch of \<open>dom_on_string\<close> and \<open>open_container\<close> do with a new node:
  attach it, and release it if that fails.\<close>

definition attach_or_free :: "dom_state \<Rightarrow> addr option \<Rightarrow> mem \<Rightarrow> dom_result" where
  "attach_or_free s node m = do {
     (st, s1, m1) \<leftarrow> attach s node m;
     if st \<noteq> BENCODE_OK then do {
       m2 \<leftarrow> bencode_value_free node m1;
       Some (st, s1, m2)
     }
     else Some (st, s1, m1)
   }"

definition dom_on_int :: "bencode_int_t \<Rightarrow> dom_state \<times> mem \<Rightarrow> dom_result" where
  "dom_on_int v = (\<lambda>(s, m). do {
     (st, node, m1) \<leftarrow> bencode_int_new v (dalloc s) True m;
     if st \<noteq> BENCODE_OK then Some (st, s, m1) else attach_or_free s node m1
   })"

definition dom_on_string :: "bptr \<Rightarrow> nat \<Rightarrow> dom_state \<times> mem \<Rightarrow> dom_result" where
  "dom_on_string bytes len = (\<lambda>(s, m). do {
     key_frame \<leftarrow>
       (if ddepth s > 0 then do {
          f \<leftarrow> get_frame s (ddepth s - 1);
          c \<leftarrow> read_node m (container f);
          Some (if payload_type (payload c) = BENCODE_DICT \<and> fexpecting_key f then Some f else None)
        }
        else Some None);
     (case key_frame of
        Some f \<Rightarrow> do {
          s1 \<leftarrow> put_frame s (ddepth s - 1)
                 (f\<lparr>pending_key := bytes, pending_key_len := len, fexpecting_key := False\<rparr>);
          Some (BENCODE_OK, s1, m)
        }
      | None \<Rightarrow> do {
          (st, node, m1) \<leftarrow> bencode_string_new_borrowed bytes len (dalloc s) True m;
          if st \<noteq> BENCODE_OK then Some (st, s, m1) else attach_or_free s node m1
        })
   })"

definition open_container :: "bencode_type \<Rightarrow> dom_state \<times> mem \<Rightarrow> dom_result" where
  "open_container ty = (\<lambda>(s, m). do {
     (st, node, m1) \<leftarrow> (if ty = BENCODE_LIST then bencode_list_new (dalloc s) True m
                        else bencode_dict_new (dalloc s) True m);
     if st \<noteq> BENCODE_OK then Some (st, s, m1)
     else do {
       (st, s1, m2) \<leftarrow> attach_or_free s node m1;
       if st \<noteq> BENCODE_OK then Some (st, s1, m2)
       else if ddepth s1 \<ge> depth_cap s1 then Some (BENCODE_ERR_NESTING_TOO_DEEP, s1, m2)
       else do {
         c \<leftarrow> node;
         s2 \<leftarrow> put_frame s1 (ddepth s1)
                \<lparr>container = c, fexpecting_key = (ty = BENCODE_DICT), pending_key = BNull,
                 pending_key_len = 0\<rparr>;
         Some (BENCODE_OK, s2\<lparr>ddepth := ddepth s2 + 1\<rparr>, m2)
       }
     }
   })"

definition dom_on_list_begin :: "dom_state \<times> mem \<Rightarrow> dom_result" where
  "dom_on_list_begin = open_container BENCODE_LIST"

definition dom_on_dict_begin :: "dom_state \<times> mem \<Rightarrow> dom_result" where
  "dom_on_dict_begin = open_container BENCODE_DICT"

definition dom_on_list_end :: "dom_state \<times> mem \<Rightarrow> dom_result" where
  "dom_on_list_end = (\<lambda>(s, m).
     Some (BENCODE_OK, if ddepth s > 0 then s\<lparr>ddepth := ddepth s - 1\<rparr> else s, m))"

definition dom_on_dict_end :: "dom_state \<times> mem \<Rightarrow> dom_result" where
  "dom_on_dict_end = (\<lambda>(s, m).
     Some (BENCODE_OK, if ddepth s > 0 then s\<lparr>ddepth := ddepth s - 1\<rparr> else s, m))"

text \<open>\<open>input + off\<close>.\<close>

definition ptr_add :: "bptr \<Rightarrow> nat \<Rightarrow> bptr" where
  "ptr_add p off = (case p of BAt a o1 \<Rightarrow> BAt a (o1 + off) | _ \<Rightarrow> p)"

definition dom_callbacks :: "bptr \<Rightarrow> (dom_state \<times> mem) bencode_callbacks" where
  "dom_callbacks input = \<lparr>
     on_int = Some dom_on_int,
     on_string = Some (\<lambda>off. dom_on_string (ptr_add input off)),
     on_list_begin = Some dom_on_list_begin,
     on_list_end = Some dom_on_list_end,
     on_dict_begin = Some dom_on_dict_begin,
     on_dict_end = Some dom_on_dict_end\<rparr>"

section \<open>Entry point\<close>

record bencode_parse_options =
  opt_max_depth :: nat
  opt_allocator :: "bencode_allocator option"
  allow_trailing :: int

definition init_dom :: "bencode_allocator option \<Rightarrow> dom_state" where
  "init_dom al = \<lparr>droot = None, dalloc = al, frames = replicate FRAMES None, ddepth = 0, depth_cap = FRAMES\<rparr>"

text \<open>The buffer behind the input pointer.\<close>

definition input_buffer :: "bptr \<Rightarrow> nat \<Rightarrow> mem \<Rightarrow> byte list option option" where
  "input_buffer input input_size m =
     (if input = BNull then Some None else do { bs \<leftarrow> read_bytes input input_size m; Some (Some bs) })"

text \<open>The result is the status, the value stored through \<open>out\<close>, the value stored through \<open>consumed\<close>
  (when that pointer is not NULL), and the memory.\<close>

definition bencode_parse :: "bptr \<Rightarrow> nat \<Rightarrow> bencode_parse_options option \<Rightarrow> bool \<Rightarrow> mem
    \<Rightarrow> (bencode_status \<times> addr option \<times> nat \<times> mem) option" where
  "bencode_parse input input_size opts has_out m =
     (if \<not> has_out then Some (BENCODE_ERR_INVALID_ARG, None, 0, m)
      else
        let al = (case opts of Some o1 \<Rightarrow> opt_allocator o1 | None \<Rightarrow> None);
            md = (case opts of Some o1 \<Rightarrow> opt_max_depth o1 | None \<Rightarrow> 0);
            trailing = (case opts of Some o1 \<Rightarrow> allow_trailing o1 | None \<Rightarrow> 0);
            checked = bencode_allocator_check al
        in
          if checked \<noteq> BENCODE_OK then Some (checked, None, 0, m)
          else do {
            buf \<leftarrow> input_buffer input input_size m;
            (st, bytes_consumed, s, m1) \<leftarrow>
              bencode_parse_sax buf input_size (Some (dom_callbacks input)) (init_dom al, m) md;
            let st = (if st = BENCODE_OK \<and> trailing = 0 \<and> bytes_consumed \<noteq> input_size
                      then BENCODE_ERR_UNEXPECTED_BYTE else st);
            if st \<noteq> BENCODE_OK then do {
              m2 \<leftarrow> bencode_value_free (droot s) m1;
              Some (st, None, bytes_consumed, m2)
            }
            else Some (BENCODE_OK, droot s, bytes_consumed, m1)
          })"

end
