(* ===== verification/Sax_Client.thy ===== *)
theory Sax_Client
  imports Sax_Run
begin

text \<open>
  The interface between the SAX parser and whoever listens to it: a client keeps an abstract state that
  each event advances, and its callbacks keep an invariant that relates this state to the user state.
  What such a client has after a parse is proved here once; the DOM builder is the instance (theory
  \<open>Dom_Events\<close>).
\<close>

section \<open>The interface\<close>

text \<open>The abstract client: the states that it passes through.\<close>

primrec steps :: "(event \<Rightarrow> 'a \<Rightarrow> 'a option) \<Rightarrow> event list \<Rightarrow> 'a \<Rightarrow> 'a option" where
  "steps step [] a = Some a"
| "steps step (e # es) a = do { a' \<leftarrow> step e a; steps step es a' }"

lemma steps_append: "steps step (es @ fs) a = do { a' \<leftarrow> steps step es a; steps step fs a' }"
  by (induction es arbitrary: a) (auto split: Option.bind_splits)

lemma steps_prefix: "steps step (es @ fs) a \<noteq> None \<Longrightarrow> steps step es a \<noteq> None"
  by (auto simp: steps_append split: Option.bind_splits)

text \<open>\<open>inv n a u\<close> relates the abstract to the user state after \<open>n\<close> events; \<open>failed n st u\<close> is what holds
  when a callback has returned \<open>st\<close>, within \<open>n\<close> events.\<close>

locale sax_client =
  fixes inp :: "byte list"
    and cb :: "'u bencode_callbacks"
    and step :: "event \<Rightarrow> 'a \<Rightarrow> 'a option"
    and inv :: "nat \<Rightarrow> 'a \<Rightarrow> 'u \<Rightarrow> bool"
    and failed :: "nat \<Rightarrow> bencode_status \<Rightarrow> 'u \<Rightarrow> bool"
  assumes deliver_step: "inv n a u \<Longrightarrow> step e a = Some a' \<Longrightarrow> in_input inp [e] \<Longrightarrow>
      \<exists>st u'. deliver (Some cb) e u = Some (st, u')
        \<and> (if st = BENCODE_OK then inv (Suc n) a' u' else failed (Suc n) st u')"
    and failed_mono: "failed n st u \<Longrightarrow> n \<le> n' \<Longrightarrow> failed n' st u"
begin

lemma feed_steps:
  assumes "inv n a u" and "steps step es a = Some a'" and "in_input inp es"
  shows "\<exists>st u'. feed (Some cb) es u = Some (st, u')
    \<and> (if st = BENCODE_OK then inv (n + length es) a' u' else failed (n + length es) st u')"
  using assms
proof (induction es arbitrary: n a u)
  case Nil
  then show ?case by simp
next
  case (Cons e es)
  from Cons.prems(2) obtain a1 where e: "step e a = Some a1" and es: "steps step es a1 = Some a'"
    by (auto split: Option.bind_splits)
  have ins: "in_input inp [e]" "in_input inp es" using Cons.prems(3) by (simp_all add: in_input_def)
  from deliver_step [OF Cons.prems(1) e ins(1)] obtain st u1 where
    d: "deliver (Some cb) e u = Some (st, u1)"
    and st: "if st = BENCODE_OK then inv (Suc n) a1 u1 else failed (Suc n) st u1" by blast
  show ?case
  proof (cases "st = BENCODE_OK")
    case True
    then have "inv (Suc n) a1 u1" using st by simp
    from Cons.IH [OF this es ins(2)] obtain st' u' where "feed (Some cb) es u1 = Some (st', u')"
      "if st' = BENCODE_OK then inv (Suc n + length es) a' u' else failed (Suc n + length es) st' u'"
      by blast
    then show ?thesis using d True
      by (intro exI [of _ st'] exI [of _ u']) (cases "st' = BENCODE_OK"; simp)
  next
    case False
    then have "failed (n + length (e # es)) st u1" using st by (auto intro: failed_mono)
    then show ?thesis using d False by simp
  qed
qed

text \<open>A parse over a canonical value takes the client through its events, or stops with the client's
  failure.\<close>

lemma parse_canonical:
  assumes "length inp \<le> SIZE_MAX" and "canonical (effective_depth md) v" and "inp = encode v @ rest"
    and "inv 0 a u" and "steps step (events 0 v) a = Some a'"
  shows "\<exists>st c u'. bencode_parse_sax (Some inp) (length inp) (Some cb) u md = Some (st, c, u')
    \<and> c \<le> length inp
    \<and> (if st = BENCODE_OK then c = length (encode v) \<and> inv (length (events 0 v)) a' u'
       else failed (length (events 0 v)) st u')"
proof -
  have at: "at_pos inp 0 (encode v)" using assms(3) by (auto simp: at_pos_whole)
  then have ne: "inp \<noteq> []" using encode_Cons [of v] at_pos_le [OF at] by auto
  have le: "length (encode v) \<le> length inp" using at_pos_le [OF at] by simp
  from feed_steps [OF assms(4,5) events_in_input(1) [OF at]] obtain e u' where
    f: "feed (Some cb) (events 0 v) u = Some (e, u')"
    and post: "if e = BENCODE_OK then inv (length (events 0 v)) a' u' else failed (length (events 0 v)) e u'"
    unfolding add_0 by blast
  show ?thesis
  proof (rule bencode_parse_sax_run [OF assms(1) ne, where md = md])
    fix w
    assume "at_pos inp 0 (encode w)"
    then have w: "w = v" using at at_pos_encode_unique by blast
    assume "\<And>(cb :: 'u bencode_callbacks option) u. case feed cb (events 0 w) u of
             None \<Rightarrow> bencode_parse_sax (Some inp) (length inp) cb u md = None
           | Some (e, u') \<Rightarrow>
               if e = BENCODE_OK
               then bencode_parse_sax (Some inp) (length inp) cb u md = Some (BENCODE_OK, length (encode w), u')
               else \<exists>c\<le>length inp. bencode_parse_sax (Some inp) (length inp) cb u md = Some (e, c, u')"
    note this [of "Some cb" u, unfolded w f]
    then show ?thesis using post le by (auto split: if_splits)
  qed (use assms(2) at in blast)
qed

text \<open>On any other input the parse ends as without a client, with a parse error, the client still in a state that
  it reached by some events, or with the client's failure.\<close>

lemma parse_malformed:
  assumes "length inp \<le> SIZE_MAX" and "inp \<noteq> []"
    and "\<not> (\<exists>v rest. canonical (effective_depth md) v \<and> inp = encode v @ rest)"
    and "inv 0 a u" and "\<And>w. canonical (effective_depth md) w \<Longrightarrow> steps step (events 0 w) a \<noteq> None"
  shows "\<exists>st c u' n a'. bencode_parse_sax (Some inp) (length inp) (Some cb) u md = Some (st, c, u')
    \<and> c \<le> length inp \<and> st \<noteq> BENCODE_OK
    \<and> (st \<in> parse_errors \<and> inv n a' u' \<and> bencode_parse_sax (Some inp) (length inp) None u md = Some (st, c, u)
       \<or> failed (length inp) st u')"
proof (rule bencode_parse_sax_run [OF assms(1,2), where md = md])
  fix v
  assume "canonical (effective_depth md) v" and "at_pos inp 0 (encode v)"
  then show ?thesis using assms(3) by (auto simp: at_pos_whole)
next
  fix st es c w
  assume st: "st \<in> parse_errors" and c: "c \<le> length inp" and few: "length es \<le> length inp" and w: "canonical (effective_depth md) w"
    and rep: "reported inp es (events 0 w)"
  from rep obtain fs where "events 0 w = es @ fs" and ins: "in_input inp es"
    by (auto simp: reported_def prefix_def)
  then obtain a' where a': "steps step es a = Some a'"
    using assms(5) [OF w] steps_prefix [of step es fs a] by auto
  from feed_steps [OF assms(4) a' ins] obtain e u' where
    f: "feed (Some cb) es u = Some (e, u')"
    and post: "if e = BENCODE_OK then inv (length es) a' u' else failed (length es) e u'"
    unfolding add_0 by blast
  assume run: "\<And>(cb :: 'u bencode_callbacks option) u. case feed cb es u of
             None \<Rightarrow> bencode_parse_sax (Some inp) (length inp) cb u md = None
           | Some (e, u') \<Rightarrow>
               if e = BENCODE_OK
               then bencode_parse_sax (Some inp) (length inp) cb u md = Some (st, c, u')
               else \<exists>c\<le>length inp. bencode_parse_sax (Some inp) (length inp) cb u md = Some (e, c, u')"
  have "bencode_parse_sax (Some inp) (length inp) None u md = Some (st, c, u)" using run [of None u] by simp
  moreover have "e \<noteq> BENCODE_OK \<Longrightarrow> failed (length inp) e u'" using post few by (auto intro: failed_mono)
  ultimately show ?thesis using run [of "Some cb" u, unfolded f] post st c by (cases "e = BENCODE_OK") auto
qed

end

end
