(* ===== verification/Dom_Abs.thy ===== *)
theory Dom_Abs
  imports Sax_Client
begin

text \<open>
  The abstract builder: what the DOM callbacks do, on values instead of memory.  The stack of open
  containers holds what each has so far; a closed container is added to the one around it.  Over the
  events of a canonical value the builder never gets stuck, and where the text of the value stands in
  the input it builds exactly that value.
\<close>

section \<open>Building values from events\<close>

text \<open>A dictionary remembers the key whose value is still to come.\<close>

datatype aframe = AList "bval list" | ADict "(byte list \<times> bval) list" "byte list option"

text \<open>The open containers, innermost first, and the finished top-level value.\<close>

type_synonym abuild = "aframe list \<times> bval option"

fun add_value :: "bval \<Rightarrow> abuild \<Rightarrow> abuild option" where
  "add_value v ([], None) = Some ([], Some v)"
| "add_value v ([], Some _) = None"
| "add_value v (AList vs # fs, r) = Some (AList (vs @ [v]) # fs, r)"
| "add_value v (ADict es (Some k) # fs, r) = Some (ADict (insert_key k v es) None # fs, r)"
| "add_value v (ADict es None # fs, r) = None"

fun opens :: "abuild \<Rightarrow> bool" where
  "opens ([], r) \<longleftrightarrow> r = None"
| "opens (AList vs # fs, r) \<longleftrightarrow> True"
| "opens (ADict es k # fs, r) \<longleftrightarrow> k \<noteq> None"

lemma add_value_opens: "opens a \<Longrightarrow> \<exists>a'. add_value v a = Some a'"
  by (cases "(v, a)" rule: add_value.cases) auto

fun astep :: "byte list \<Rightarrow> event \<Rightarrow> abuild \<Rightarrow> abuild option" where
  "astep inp (EInt i) a = add_value (BInt (sint i)) a"
| "astep inp (EStr off len) a =
     (case a of
        (ADict es None # fs, r) \<Rightarrow> Some (ADict es (Some (slice inp off len)) # fs, r)
      | _ \<Rightarrow> add_value (BStr (slice inp off len)) a)"
| "astep inp EListBegin a =
     (if opens a \<and> length (fst a) < 256 then Some (AList [] # fst a, snd a) else None)"
| "astep inp EListEnd a =
     (case a of (AList vs # fs, r) \<Rightarrow> add_value (BList vs) (fs, r) | _ \<Rightarrow> None)"
| "astep inp EDictBegin a =
     (if opens a \<and> length (fst a) < 256 then Some (ADict [] None # fst a, snd a) else None)"
| "astep inp EDictEnd a =
     (case a of (ADict es None # fs, r) \<Rightarrow> add_value (BDict es) (fs, r) | _ \<Rightarrow> None)"

lemma astep_string_value:
  "opens a \<Longrightarrow> astep inp (EStr off len) a = add_value (BStr (slice inp off len)) a"
  by (cases a rule: opens.cases) (auto split: option.splits)

lemma astep_key:
  "astep inp (EStr off len) (ADict es None # fs, r) = Some (ADict es (Some (slice inp off len)) # fs, r)"
  by simp

declare astep.simps(2) [simp del]

section \<open>Over the events of a value\<close>

lemma sint_word_of_int: "INT64_MIN \<le> i \<Longrightarrow> i \<le> INT64_MAX \<Longrightarrow> sint (word_of_int i :: 64 word) = i"
  by (simp add: INT64_MIN_def INT64_MAX_def signed_of_int signed_take_bit_int_eq_self)

lemma slice_payload:
  "at_pos inp p (enc_str b) \<Longrightarrow> slice inp (Suc (p + length (dec (length b)))) (length b) = b"
  using at_pos_enc_str_payload [of inp p b] at_pos_slice_iff by fastforce

text \<open>An entry in front of others.\<close>

lemma steps_entry:
  fixes p k inp
  defines "k' \<equiv> slice inp (Suc (p + length (dec (length k)))) (length k)" and "q \<equiv> p + length (enc_str k)"
  assumes w: "steps (astep inp) (events q v) (ADict acc (Some k') # fs, r) = Some (ADict (insert_key k' w acc) None # fs, r)"
    and eq: "at_pos inp q (encode v) \<longrightarrow> w = v"
    and acc: "steps (astep inp) (events_entries (q + length (encode v)) es) (ADict (insert_key k' w acc) None # fs, r)
       = Some (ADict acc' None # fs, r)"
    and acc_eq: "at_pos inp (q + length (encode v)) (encode_entries es)
       \<and> sorted_wrt (<) (map fst (insert_key k' w acc @ es)) \<longrightarrow> acc' = insert_key k' w acc @ es"
  shows "steps (astep inp) (events_entries p ((k, v) # es)) (ADict acc None # fs, r) = Some (ADict acc' None # fs, r)
    \<and> (at_pos inp p (encode_entries ((k, v) # es)) \<and> sorted_wrt (<) (map fst (acc @ (k, v) # es)) \<longrightarrow>
         acc' = acc @ (k, v) # es)"
proof (intro conjI impI, goal_cases)
  case 1
  show ?case using w acc by (simp add: astep_key steps_append k'_def q_def)
next
  case 2
  then have at: "at_pos inp p (enc_str k)" "at_pos inp q (encode v)" "at_pos inp (q + length (encode v)) (encode_entries es)"
    and s: "sorted_wrt (<) (map fst (acc @ (k, v) # es))"
    by (simp_all add: at_pos_append add.assoc q_def)
  then have k: "k' = k" and "w = v" using slice_payload eq by (auto simp: k'_def)
  have "\<forall>e\<in>set acc. fst e < k" using s by (auto simp: sorted_wrt_append)
  from insert_key_last [OF this, of v] have "insert_key k' w acc = acc @ [(k, v)]" using k \<open>w = v\<close> by simp
  then show ?case using acc_eq at(3) s by simp
qed

text \<open>A list, and a dictionary, from the steps of its content.\<close>

lemma steps_list:
  assumes "steps (astep inp) (events_items (p + 1) vs) (AList [] # fs, r) = Some (AList ws # fs, r)"
    and "at_pos inp (p + 1) (encode_items vs) \<longrightarrow> ws = vs" and "opens (fs, r)" and "length fs < 256"
  shows "\<exists>w. steps (astep inp) (events p (BList vs)) (fs, r) = add_value w (fs, r) \<and> (at_pos inp p (encode (BList vs)) \<longrightarrow> w = BList vs)"
proof (intro exI conjI)
  show "steps (astep inp) (events p (BList vs)) (fs, r) = add_value (BList ws) (fs, r)"
    using assms by (auto simp: steps_append split: Option.bind_splits)
  show "at_pos inp p (encode (BList vs)) \<longrightarrow> BList ws = BList vs"
    using assms(2) by (auto simp: at_pos_Cons at_pos_append)
qed

lemma steps_dict:
  assumes "steps (astep inp) (events_entries (p + 1) es) (ADict [] None # fs, r) = Some (ADict acc None # fs, r)"
    and "at_pos inp (p + 1) (encode_entries es) \<longrightarrow> acc = es" and "opens (fs, r)" and "length fs < 256"
  shows "\<exists>w. steps (astep inp) (events p (BDict es)) (fs, r) = add_value w (fs, r) \<and> (at_pos inp p (encode (BDict es)) \<longrightarrow> w = BDict es)"
proof (intro exI conjI)
  show "steps (astep inp) (events p (BDict es)) (fs, r) = add_value (BDict acc) (fs, r)"
    using assms by (auto simp: steps_append split: Option.bind_splits)
  show "at_pos inp p (encode (BDict es)) \<longrightarrow> BDict acc = BDict es"
    using assms(2) by (auto simp: at_pos_Cons at_pos_append)
qed

lemma steps_events:
  "canonical d v \<Longrightarrow> opens a \<Longrightarrow> length (fst a) + d \<le> 256 \<Longrightarrow>
     \<exists>w. steps (astep inp) (events p v) a = add_value w a \<and> (at_pos inp p (encode v) \<longrightarrow> w = v)"
  "\<forall>v\<in>set vs. canonical d v \<Longrightarrow> Suc (length fs) + d \<le> 256 \<Longrightarrow>
     \<exists>ws. steps (astep inp) (events_items p vs) (AList us # fs, r) = Some (AList (us @ ws) # fs, r)
        \<and> (at_pos inp p (encode_items vs) \<longrightarrow> ws = vs)"
  "\<forall>(k, v)\<in>set es. canonical d v \<Longrightarrow> Suc (length fs) + d \<le> 256 \<Longrightarrow>
     \<exists>acc'. steps (astep inp) (events_entries p es) (ADict acc None # fs, r) = Some (ADict acc' None # fs, r)
        \<and> (at_pos inp p (encode_entries es) \<and> sorted_wrt (<) (map fst (acc @ es)) \<longrightarrow> acc' = acc @ es)"
proof (induction p v and p vs and p es arbitrary: d a and d us fs r and d acc fs r
    rule: events_events_items_events_entries.induct)
  case (1 p i)
  then show ?case by (auto simp: sint_word_of_int split: Option.bind_splits)
next
  case (2 p b)
  then show ?case
    by (auto simp: astep_string_value slice_payload split: Option.bind_splits)
next
  case (3 p vs)
  obtain fs r where a: "a = (fs, r)" by (cases a)
  have "\<forall>v\<in>set vs. canonical (d - 1) v" "Suc (length fs) + (d - 1) \<le> 256" and lt: "length fs < 256"
    using "3.prems" a by auto
  from "3.IH" [OF this(1,2), of "[]" r] obtain ws where
    "steps (astep inp) (events_items (p + 1) vs) (AList [] # fs, r) = Some (AList ws # fs, r)"
    "at_pos inp (p + 1) (encode_items vs) \<longrightarrow> ws = vs" by auto
  from steps_list [OF this _ lt] show ?case using "3.prems"(2) a by blast
next
  case (4 p es)
  obtain fs r where a: "a = (fs, r)" by (cases a)
  have "\<forall>(k, v)\<in>set es. canonical (d - 1) v" "Suc (length fs) + (d - 1) \<le> 256" and lt: "length fs < 256"
    and sorted: "sorted_wrt (<) (map fst es)"
    using "4.prems" a by auto
  from "4.IH" [OF this(1,2), of "[]" r] obtain acc' where
    "steps (astep inp) (events_entries (p + 1) es) (ADict [] None # fs, r) = Some (ADict acc' None # fs, r)"
    "at_pos inp (p + 1) (encode_entries es) \<longrightarrow> acc' = es" using sorted by auto
  from steps_dict [OF this _ lt] show ?case using "4.prems"(2) a by blast
next
  case (5 p)
  then show ?case by simp
next
  case (6 p v vs)
  have "canonical d v" "\<forall>v\<in>set vs. canonical d v" using "6.prems" by auto
  with "6.IH"(1) [of d "(AList us # fs, r)"] "6.prems"(2) obtain w where
    w: "steps (astep inp) (events p v) (AList us # fs, r) = Some (AList (us @ [w]) # fs, r)"
    and eq: "at_pos inp p (encode v) \<longrightarrow> w = v" by auto
  from "6.IH"(2) [OF \<open>\<forall>v\<in>set vs. canonical d v\<close> "6.prems"(2), of "us @ [w]" r] obtain ws where
    "steps (astep inp) (events_items (p + length (encode v)) vs) (AList (us @ [w]) # fs, r)
       = Some (AList (us @ w # ws) # fs, r)"
    "at_pos inp (p + length (encode v)) (encode_items vs) \<longrightarrow> ws = vs" by auto
  then show ?case using w eq
    by (intro exI [of _ "w # ws"]) (auto simp: steps_append at_pos_append)
next
  case (7 p)
  then show ?case by simp
next
  case (8 p k v es)
  let ?k = "slice inp (Suc (p + length (dec (length k)))) (length k)"
  let ?q = "p + length (enc_str k)"
  have "canonical d v" and es: "\<forall>(k, v)\<in>set es. canonical d v" using "8.prems" by auto
  with "8.IH"(1) [of d "(ADict acc (Some ?k) # fs, r)"] "8.prems"(2) obtain w where
    w: "steps (astep inp) (events ?q v) (ADict acc (Some ?k) # fs, r)
      = Some (ADict (insert_key ?k w acc) None # fs, r)"
    and eq: "at_pos inp ?q (encode v) \<longrightarrow> w = v" by auto
  from "8.IH"(2) [OF es "8.prems"(2), of "insert_key ?k w acc" r] obtain acc' where
    acc: "steps (astep inp) (events_entries (?q + length (encode v)) es) (ADict (insert_key ?k w acc) None # fs, r)
       = Some (ADict acc' None # fs, r)"
    and acc_eq: "at_pos inp (?q + length (encode v)) (encode_entries es)
       \<and> sorted_wrt (<) (map fst (insert_key ?k w acc @ es)) \<longrightarrow> acc' = insert_key ?k w acc @ es" by auto
  from steps_entry [OF w eq acc acc_eq] show ?case by blast
qed

text \<open>From the start.\<close>

lemma steps_events_start:
  assumes "canonical d v" and "d \<le> 256"
  shows "steps (astep inp) (events p v) ([], None) \<noteq> None"
    and "at_pos inp p (encode v) \<Longrightarrow> steps (astep inp) (events p v) ([], None) = Some ([], Some v)"
  using steps_events(1) [OF assms(1), of "([], None)" inp p] assms(2) by auto

section \<open>Counting\<close>

text \<open>No open container has more elements than there were events, and no value has more events than its
  text has bytes.\<close>

fun frame_size :: "aframe \<Rightarrow> nat" where
  "frame_size (AList vs) = length vs"
| "frame_size (ADict es k) = length es"

definition within :: "nat \<Rightarrow> abuild \<Rightarrow> bool" where
  "within n a \<longleftrightarrow> (\<forall>f\<in>set (fst a). frame_size f \<le> n)"

lemma length_insert_key: "length (insert_key k v es) \<le> Suc (length es)"
proof -
  have "length (takeWhile (\<lambda>e. fst e < k) es) + length (dropWhile (\<lambda>e. fst e \<le> k) es)
      \<le> length (takeWhile (\<lambda>e. fst e \<le> k) es) + length (dropWhile (\<lambda>e. fst e \<le> k) es)"
  proof (simp, induction es)
    case (Cons e es)
    then show ?case by (auto intro: less_imp_le)
  qed simp
  also have "\<dots> = length es" by (metis length_append takeWhile_dropWhile_id)
  finally show ?thesis by (simp add: insert_key_def)
qed

lemma length_insert_key_le: "length es \<le> n \<Longrightarrow> length (insert_key k v es) \<le> Suc n"
  using length_insert_key [of k v es] by simp

lemma within_add:
  assumes "within n a" and "add_value v a = Some a'"
  shows "within (Suc n) a'"
proof -
  have "frame_size f \<le> Suc n" if "f \<in> set (fst a')" for f
    using assms that
    by (cases "(v, a)" rule: add_value.cases)
      (auto simp: within_def le_SucI length_insert_key_le)
  then show ?thesis by (simp add: within_def)
qed

lemma within_mono: "within n a \<Longrightarrow> n \<le> n' \<Longrightarrow> within n' a"
  by (auto simp: within_def)

lemma within_step:
  assumes "within n a" and "astep inp e a = Some a'"
  shows "within (Suc n) a'"
proof (cases e)
  case (EStr off len)
  show ?thesis
  proof (cases "\<exists>es fs r. a = (ADict es None # fs, r)")
    case True
    then show ?thesis using assms EStr by (auto simp: astep.simps(2) within_def le_SucI)
  next
    case False
    then have "add_value (BStr (slice inp off len)) a = Some a'"
      using assms(2) EStr by (auto simp: astep.simps(2) split: prod.splits list.splits aframe.splits option.splits)
    then show ?thesis using within_add assms(1) by blast
  qed
next
  case EListEnd
  then obtain vs fs r where "a = (AList vs # fs, r)" "add_value (BList vs) (fs, r) = Some a'"
    using assms(2) by (auto split: prod.splits list.splits aframe.splits)
  then show ?thesis using assms(1) within_add [of n "(fs, r)"] by (auto simp: within_def)
next
  case EDictEnd
  then obtain es fs r where "a = (ADict es None # fs, r)" "add_value (BDict es) (fs, r) = Some a'"
    using assms(2) by (auto split: prod.splits list.splits aframe.splits option.splits)
  then show ?thesis using assms(1) within_add [of n "(fs, r)"] by (auto simp: within_def)
qed (use assms within_add in \<open>auto simp: within_def le_SucI split: if_splits\<close>)

end
