(* ===== verification/Owned.thy ===== *)
theory Owned
  imports Value Canonical
begin

text \<open>
  What it means that a block of memory holds a Bencode value: trees annotated with the addresses of
  their blocks, the value such a tree stands for, the blocks it owns, and the predicate that the memory
  has the tree where the annotation says.  Frame lemmas say that the predicate depends on those blocks
  only; \<open>bencode_value_free\<close> gives back exactly them.
\<close>

section \<open>Annotated trees\<close>

text \<open>Each node has its address and the allocator it was made with; a string is owned, with the block of
  its bytes, or borrowed, with a pointer to bytes elsewhere; containers have their array and capacity;
  a dictionary entry has its key's block (none for the empty key), the key and the value.\<close>

datatype gtree =
    GInt addr "bencode_allocator option" bencode_int_t
  | GOwned addr "bencode_allocator option" addr "byte list"
  | GBorrow addr "bencode_allocator option" bptr "byte list"
  | GList addr "bencode_allocator option" "addr option" nat "gtree list"
  | GDict addr "bencode_allocator option" "addr option" nat "(addr option \<times> byte list \<times> gtree) list"

fun root :: "gtree \<Rightarrow> addr" where
  "root (GInt a _ _) = a"
| "root (GOwned a _ _ _) = a"
| "root (GBorrow a _ _ _) = a"
| "root (GList a _ _ _ _) = a"
| "root (GDict a _ _ _ _) = a"

text \<open>The value that a tree stands for.\<close>

fun tree_val :: "gtree \<Rightarrow> bval" where
  "tree_val (GInt _ _ i) = BInt (sint i)"
| "tree_val (GOwned _ _ _ bs) = BStr bs"
| "tree_val (GBorrow _ _ _ bs) = BStr bs"
| "tree_val (GList _ _ _ _ ts) = BList (map tree_val ts)"
| "tree_val (GDict _ _ _ _ es) = BDict (map (\<lambda>(ka, k, t). (k, tree_val t)) es)"

abbreviation entry_vals :: "(addr option \<times> byte list \<times> gtree) list \<Rightarrow> (byte list \<times> bval) list" where
  "entry_vals \<equiv> map (\<lambda>(ka, k, t). (k, tree_val t))"

text \<open>The blocks that a tree owns.\<close>

fun blocks :: "gtree \<Rightarrow> addr list" where
  "blocks (GInt a _ _) = [a]"
| "blocks (GOwned a _ b _) = [a, b]"
| "blocks (GBorrow a _ _ _) = [a]"
| "blocks (GList a _ arr _ ts) = a # opt arr @ concat (map blocks ts)"
| "blocks (GDict a _ arr _ es) = a # opt arr @ concat (map (\<lambda>(ka, k, t). opt ka @ blocks t) es)"

fun height :: "gtree \<Rightarrow> nat" where
  "height (GList _ _ _ _ ts) = Suc (Max (insert 0 (set (map height ts))))"
| "height (GDict _ _ _ _ es) = Suc (Max (insert 0 (set (map (\<lambda>(ka, k, t). height t) es))))"
| "height _ = 1"

text \<open>A tree that borrows nothing: all its bytes are in blocks of its own.\<close>

fun detached :: "gtree \<Rightarrow> bool" where
  "detached (GBorrow _ _ _ bs) \<longleftrightarrow> bs = []"
| "detached (GList _ _ _ _ ts) \<longleftrightarrow> (\<forall>t\<in>set ts. detached t)"
| "detached (GDict _ _ _ _ es) \<longleftrightarrow> (\<forall>(ka, k, t)\<in>set es. detached t)"
| "detached _ \<longleftrightarrow> True"

definition own_copy :: "bval \<Rightarrow> gtree \<Rightarrow> bool" where
  "own_copy v t \<longleftrightarrow> tree_val t = v \<and> detached t"

section \<open>Shells\<close>

text \<open>An array of capacity \<open>cap\<close> whose first elements are \<open>cs\<close>.\<close>

definition array :: "mem \<Rightarrow> bencode_allocator option \<Rightarrow> addr option \<Rightarrow> nat \<Rightarrow> nat \<Rightarrow> cell list \<Rightarrow> bool" where
  "array m al arr cap esz cs \<longleftrightarrow>
     (case arr of
        None \<Rightarrow> cap = 0 \<and> cs = []
      | Some b \<Rightarrow> 0 < cap \<and> cap \<le> SIZE_MAX div esz
          \<and> (case store m b of
               Some (p, Cells ds) \<Rightarrow> p = pool_of al \<and> length ds = cap \<and> length cs \<le> cap
                  \<and> take (length cs) ds = cs
             | _ \<Rightarrow> False))"

lemma array_Some:
  "array m al (Some b) cap esz cs \<longleftrightarrow> 0 < cap \<and> cap \<le> SIZE_MAX div esz
     \<and> (\<exists>rest. store m b = Some (pool_of al, Cells (cs @ rest)) \<and> length (cs @ rest) = cap)"
proof -
  have "take (length cs) ds = cs \<longleftrightarrow> (\<exists>rest. ds = cs @ rest)" for ds :: "cell list"
    by (metis append_eq_conv_conj append_take_drop_id)
  then show ?thesis by (fastforce simp: array_def split: option.splits block.splits prod.splits)
qed

lemma array_None: "array m al None cap esz cs \<longleftrightarrow> cap = 0 \<and> cs = []"
  by (simp add: array_def)

lemma array_length: "array m al arr cap esz cs \<Longrightarrow> length cs \<le> cap"
  by (cases arr) (auto simp: array_None array_Some)

lemma array_frame:
  "array m al arr cap esz cs \<Longrightarrow> (\<And>b. arr = Some b \<Longrightarrow> store m' b = store m b) \<Longrightarrow> array m' al arr cap esz cs"
  by (cases arr) (simp_all add: array_def)

lemma array_store:
  "array m al (Some b) cap esz cs \<Longrightarrow> \<exists>blk. store m b = Some (pool_of al, blk)"
  by (auto simp: array_Some)

lemma read_item_array:
  "array m al arr cap sizeof_item (map Item cs) \<Longrightarrow> i < length cs \<Longrightarrow> read_item arr i m = Some (cs ! i)"
  by (cases arr) (auto simp: array_None array_Some read_item_def read_cell_def nth_append)

definition entry_cell :: "addr option \<times> byte list \<times> addr \<Rightarrow> cell" where
  "entry_cell = (\<lambda>(ka, k, c). Entry \<lparr>ekey = ka, ekey_len = length k, evalue = c\<rparr>)"

lemma read_entry_array:
  "array m al arr cap sizeof_entry (map entry_cell es) \<Longrightarrow> i < length es \<Longrightarrow> es ! i = (ka, k, c) \<Longrightarrow>
   read_entry arr i m = Some \<lparr>ekey = ka, ekey_len = length k, evalue = c\<rparr>"
  by (cases arr) (auto simp: array_None array_Some read_entry_def read_cell_def nth_append entry_cell_def)

definition list_shell :: "mem \<Rightarrow> addr \<Rightarrow> bencode_allocator option \<Rightarrow> addr option \<Rightarrow> nat \<Rightarrow> addr list \<Rightarrow> bool" where
  "list_shell m a al arr cap cs \<longleftrightarrow>
     store m a = Some (pool_of al, Node \<lparr>valloc = al, payload = List_payload arr (length cs) cap\<rparr>)
     \<and> array m al arr cap sizeof_item (map Item cs)"

text \<open>A key's block.\<close>

definition key_at :: "mem \<Rightarrow> bencode_allocator option \<Rightarrow> addr option \<Rightarrow> byte list \<Rightarrow> bool" where
  "key_at m al ka k \<longleftrightarrow> length k \<le> SIZE_MAX \<and>
     (case ka of
        None \<Rightarrow> k = []
      | Some b \<Rightarrow> k \<noteq> [] \<and> store m b = Some (pool_of al, Bytes (map Some k)))"

lemma key_at_frame:
  "key_at m al ka k \<Longrightarrow> (\<And>b. ka = Some b \<Longrightarrow> store m' b = store m b) \<Longrightarrow> key_at m' al ka k"
  by (cases ka) (simp_all add: key_at_def)

lemma key_at_store: "key_at m al (Some b) k \<Longrightarrow> \<exists>blk. store m b = Some (pool_of al, blk)"
  by (simp add: key_at_def)

lemma read_key: "key_at m al ka k \<Longrightarrow> read_bytes (key_ptr ka) (length k) m = Some k"
  by (cases ka) (simp_all add: key_at_def key_ptr_def read_bytes_def slice_def)

definition dict_shell :: "mem \<Rightarrow> addr \<Rightarrow> bencode_allocator option \<Rightarrow> addr option \<Rightarrow> nat
    \<Rightarrow> (addr option \<times> byte list \<times> addr) list \<Rightarrow> bool" where
  "dict_shell m a al arr cap es \<longleftrightarrow>
     store m a = Some (pool_of al, Node \<lparr>valloc = al, payload = Dict_payload arr (length es) cap\<rparr>)
     \<and> array m al arr cap sizeof_entry (map entry_cell es)
     \<and> (\<forall>(ka, k, c)\<in>set es. key_at m al ka k)"

section \<open>Holding a tree\<close>

text \<open>Borrowed bytes lie in memory that the library does not own.\<close>

definition borrowed :: "mem \<Rightarrow> bptr \<Rightarrow> byte list \<Rightarrow> bool" where
  "borrowed m ptr bs \<longleftrightarrow> bs = [] \<or>
     (case ptr of
        BAt a off \<Rightarrow>
          (case store m a of
             Some (p, Bytes cs) \<Rightarrow> p = Foreign \<and> off + length bs \<le> length cs \<and> slice cs off (length bs) = map Some bs
           | _ \<Rightarrow> False)
      | _ \<Rightarrow> False)"

abbreviation shell_entries :: "(addr option \<times> byte list \<times> gtree) list \<Rightarrow> (addr option \<times> byte list \<times> addr) list" where
  "shell_entries \<equiv> map (\<lambda>(ka, k, t). (ka, k, root t))"

fun holds :: "mem \<Rightarrow> gtree \<Rightarrow> bool" where
  "holds m (GInt a al i) \<longleftrightarrow> alloc_ok al
     \<and> store m a = Some (pool_of al, Node \<lparr>valloc = al, payload = Int_payload i\<rparr>)"
| "holds m (GOwned a al b bs) \<longleftrightarrow> alloc_ok al \<and> bs \<noteq> [] \<and> length bs \<le> SIZE_MAX
     \<and> store m a = Some (pool_of al, Node \<lparr>valloc = al, payload = Str_payload (BAt b 0) (length bs) True\<rparr>)
     \<and> store m b = Some (pool_of al, Bytes (map Some bs))"
| "holds m (GBorrow a al ptr bs) \<longleftrightarrow> alloc_ok al \<and> length bs \<le> SIZE_MAX \<and> borrowed m ptr bs
     \<and> ptr \<noteq> BNull
     \<and> store m a = Some (pool_of al, Node \<lparr>valloc = al, payload = Str_payload ptr (length bs) False\<rparr>)"
| "holds m (GList a al arr cap ts) \<longleftrightarrow> alloc_ok al \<and> list_shell m a al arr cap (map root ts)
     \<and> (\<forall>t\<in>set ts. holds m t)"
| "holds m (GDict a al arr cap es) \<longleftrightarrow> alloc_ok al \<and> dict_shell m a al arr cap (shell_entries es)
     \<and> sorted_wrt (<) (map (\<lambda>(ka, k, t). k) es) \<and> (\<forall>(ka, k, t)\<in>set es. holds m t)"

definition owned :: "mem \<Rightarrow> gtree \<Rightarrow> bool" where
  "owned m t \<longleftrightarrow> holds m t \<and> distinct (blocks t)"

lemma root_in_blocks [simp]: "root t \<in> set (blocks t)"
  by (cases t) simp_all

text \<open>Nothing but the tree's blocks, and the memory of others, matters.\<close>

definition foreign_kept :: "mem \<Rightarrow> mem \<Rightarrow> bool" where
  "foreign_kept m m' \<longleftrightarrow> (\<forall>a b. store m a = Some (Foreign, b) \<longrightarrow> store m' a = Some (Foreign, b))"

lemma moves_foreign: "moves m F m' F' \<Longrightarrow> foreign_kept m m'"
  by (simp add: moves_def foreign_kept_def)

lemma borrowed_frame: "borrowed m ptr bs \<Longrightarrow> foreign_kept m m' \<Longrightarrow> borrowed m' ptr bs"
  by (auto simp: borrowed_def foreign_kept_def split: bptr.splits option.splits prod.splits block.splits)

lemma list_shell_frame:
  "list_shell m a al arr cap cs \<Longrightarrow> (\<And>b. b \<in> set (a # opt arr) \<Longrightarrow> store m' b = store m b)
   \<Longrightarrow> list_shell m' a al arr cap cs"
  unfolding list_shell_def by (auto elim: array_frame)

text \<open>The blocks of the keys of some entries.\<close>

definition keys_of :: "(addr option \<times> byte list \<times> 'x) list \<Rightarrow> addr list" where
  "keys_of es = concat (map (\<lambda>e. opt (fst e)) es)"

lemma keys_of_simps [simp]:
  "keys_of [] = []" "keys_of (e # es) = opt (fst e) @ keys_of es" "keys_of (es @ fs) = keys_of es @ keys_of fs"
  by (simp_all add: keys_of_def)

lemma in_keys_of: "(ka, k, c) \<in> set es \<Longrightarrow> b \<in> set (opt ka) \<Longrightarrow> b \<in> set (keys_of es)"
  by (force simp: keys_of_def)

lemma dict_shell_frame:
  assumes "dict_shell m a al arr cap es"
    and "\<And>b. b \<in> set (a # opt arr @ keys_of es) \<Longrightarrow> store m' b = store m b"
  shows "dict_shell m' a al arr cap es"
proof -
  have "key_at m' al ka k" if "(ka, k, c) \<in> set es" for ka k c
  proof (rule key_at_frame)
    show "key_at m al ka k" using assms(1) that by (auto simp: dict_shell_def)
    show "store m' b = store m b" if "ka = Some b" for b
      using assms(2) [of b] in_keys_of [OF \<open>(ka, k, c) \<in> set es\<close>, of b] that by simp
  qed
  moreover have "array m' al arr cap sizeof_entry (map entry_cell es)"
    using assms by (auto simp: dict_shell_def intro: array_frame)
  ultimately show ?thesis using assms by (auto simp: dict_shell_def)
qed

lemma holds_frame_or:
  assumes "holds m t" and "\<And>a. a \<in> set (blocks t) \<Longrightarrow> store m' a = store m a"
    and "foreign_kept m m' \<or> detached t"
  shows "holds m' t"
  using assms
proof (induction m t rule: holds.induct)
  case (3 m a al ptr bs)
  then show ?case using borrowed_frame [of m ptr bs m'] by (auto simp: borrowed_def)
next
  case (4 m a al arr cap ts)
  have "holds m' t" if "t \<in> set ts" for t
    using 4 that by auto
  moreover have "list_shell m' a al arr cap (map root ts)"
    by (rule list_shell_frame [of m]) (use 4 in auto)
  ultimately show ?case using 4 by simp
next
  case (5 m a al arr cap es)
  have "holds m' t" if e: "(ka, k, t) \<in> set es" for ka k t
  proof (rule "5.IH" [OF e refl refl])
    show "holds m t" using 5 e by auto
    show "foreign_kept m m' \<or> detached t" using "5.prems"(3) e by auto
    show "store m' b = store m b" if "b \<in> set (blocks t)" for b
      using "5.prems"(2) [of b] that e by fastforce
  qed
  moreover have "dict_shell m' a al arr cap (shell_entries es)"
  proof (rule dict_shell_frame)
    show "dict_shell m a al arr cap (shell_entries es)" using 5 by simp
    show "store m' b = store m b"
      if "b \<in> set (a # opt arr @ keys_of (shell_entries es))" for b
      using "5.prems"(2) [of b] that by (fastforce simp: keys_of_def)
  qed
  ultimately show ?case using 5 by auto
qed simp_all

lemma holds_frame:
  "holds m t \<Longrightarrow> (\<And>a. a \<in> set (blocks t) \<Longrightarrow> store m' a = store m a) \<Longrightarrow> foreign_kept m m' \<Longrightarrow> holds m' t"
  using holds_frame_or by blast

text \<open>A detached tree does not even depend on the memory of others.\<close>

lemma detached_frame:
  "owned m t \<Longrightarrow> detached t \<Longrightarrow> (\<And>a. a \<in> set (blocks t) \<Longrightarrow> store m' a = store m a) \<Longrightarrow> owned m' t"
  using holds_frame_or [of m t m'] by (simp add: owned_def)

text \<open>A tree's blocks are live, and none of them is foreign.\<close>

definition live :: "mem \<Rightarrow> addr \<Rightarrow> bool" where
  "live m a \<longleftrightarrow> (\<exists>p b. store m a = Some (p, b) \<and> p \<noteq> Foreign)"

lemma live_below: "wf_mem m \<Longrightarrow> live m a \<Longrightarrow> a < next_addr m"
  by (auto simp: live_def store_below)

lemma liveI: "alloc_ok al \<Longrightarrow> store m a = Some (pool_of al, b) \<Longrightarrow> live m a"
  by (auto simp: live_def)

lemma array_live: "alloc_ok al \<Longrightarrow> array m al arr cap esz cs \<Longrightarrow> b \<in> set (opt arr) \<Longrightarrow> live m b"
  by (cases arr) (auto simp: array_Some live_def)

lemma key_live: "alloc_ok al \<Longrightarrow> key_at m al ka k \<Longrightarrow> b \<in> set (opt ka) \<Longrightarrow> live m b"
  by (cases ka) (auto simp: key_at_def live_def)

lemma holds_live: "holds m t \<Longrightarrow> a \<in> set (blocks t) \<Longrightarrow> live m a"
proof (induction m t rule: holds.induct)
  case (4 m a' al arr cap ts)
  then show ?case by (auto simp: list_shell_def intro: array_live liveI)
next
  case (5 m a' al arr cap es)
  consider "a = a'" | "a \<in> set (opt arr)"
    | ka k t where "(ka, k, t) \<in> set es" "a \<in> set (opt ka)"
    | ka k t where "(ka, k, t) \<in> set es" "a \<in> set (blocks t)"
    using "5.prems"(2) by auto
  then show ?case
  proof cases
    case 1
    then show ?thesis using 5 by (auto simp: dict_shell_def intro: liveI)
  next
    case 2
    then show ?thesis using 5 by (auto simp: dict_shell_def intro: array_live)
  next
    case (3 ka k t)
    then have "key_at m al ka k" using 5 by (fastforce simp: dict_shell_def)
    then show ?thesis using 5 3 by (auto intro: key_live)
  next
    case (4 ka k t)
    then show ?thesis using 5 by fastforce
  qed
qed (auto simp: live_def)

lemma holds_below: "wf_mem m \<Longrightarrow> holds m t \<Longrightarrow> set (blocks t) \<subseteq> {..<next_addr m}"
  using holds_live live_below by blast

lemma holds_moves:
  assumes "holds m t" and "moves m F m' F'" and "set (blocks t) \<inter> F = {}"
  shows "holds m' t"
proof (rule holds_frame [OF assms(1) _ moves_foreign [OF assms(2)]])
  fix a
  assume "a \<in> set (blocks t)"
  then show "store m' a = store m a"
    using moves_kept [OF assms(2) holds_below [OF movesD(1) [OF assms(2)] assms(1)] assms(3)] by blast
qed

lemma holds_alloc_ok:
  "holds m t \<Longrightarrow> \<exists>v. store m (root t) = Some (pool_of (valloc v), Node v) \<and> alloc_ok (valloc v)"
  by (cases t) (auto simp: list_shell_def dict_shell_def)

lemma owned_moves: "owned m t \<Longrightarrow> moves m F m' F' \<Longrightarrow> set (blocks t) \<inter> F = {} \<Longrightarrow> owned m' t"
  using holds_moves by (auto simp: owned_def)

lemma read_borrowed: "borrowed m ptr bs \<Longrightarrow> read_bytes ptr (length bs) m = Some bs"
proof -
  assume b: "borrowed m ptr bs"
  show ?thesis
  proof (cases "bs = []")
    case False
    with b obtain a off cs where "ptr = BAt a off" "store m a = Some (Foreign, Bytes cs)"
      "off + length bs \<le> length cs" "slice cs off (length bs) = map Some bs"
      by (auto simp: borrowed_def split: bptr.splits option.splits block.splits)
    then show ?thesis using False by (simp add: read_bytes_def)
  qed simp
qed

section \<open>Depth\<close>

text \<open>What bounds a container bounds its children, and their number.\<close>

lemma blocks_nonempty: "0 < length (blocks t)"
  by (cases t) simp_all

lemma length_concat_member: "x \<in> set xs \<Longrightarrow> length (f x) \<le> length (concat (map f xs))"
  by (induction xs) auto

lemma length_concat_count: "(\<And>x. x \<in> set xs \<Longrightarrow> 0 < length (f x)) \<Longrightarrow> length xs \<le> length (concat (map f xs))"
proof (induction xs)
  case (Cons x xs)
  have "0 < length (f x)" and "length xs \<le> length (concat (map f xs))" using Cons by auto
  then show ?case by (cases "f x") auto
qed simp

lemma list_children:
  shows "t \<in> set ts \<Longrightarrow> height t < height (GList a al arr cap ts)"
    and "t \<in> set ts \<Longrightarrow> length (blocks t) \<le> length (blocks (GList a al arr cap ts))"
    and "length ts \<le> length (blocks (GList a al arr cap ts))"
proof -
  show "t \<in> set ts \<Longrightarrow> height t < height (GList a al arr cap ts)" by (simp add: less_Suc_eq_le)
  show "t \<in> set ts \<Longrightarrow> length (blocks t) \<le> length (blocks (GList a al arr cap ts))"
    using length_concat_member [of t ts blocks] by simp
  show "length ts \<le> length (blocks (GList a al arr cap ts))"
    using length_concat_count [of ts blocks] blocks_nonempty by simp
qed

lemma dict_children:
  shows "(ka, k, t) \<in> set es \<Longrightarrow> height t < height (GDict a al arr cap es)"
    and "(ka, k, t) \<in> set es \<Longrightarrow> length (blocks t) \<le> length (blocks (GDict a al arr cap es))"
    and "length es \<le> length (blocks (GDict a al arr cap es))"
proof -
  let ?h = "\<lambda>(ka, k, t). height t" and ?b = "\<lambda>(ka :: addr option, k :: byte list, t). opt ka @ blocks t"
  show "height t < height (GDict a al arr cap es)" if "(ka, k, t) \<in> set es"
  proof -
    have "?h (ka, k, t) \<in> set (map ?h es)" unfolding set_map by (rule imageI [OF that])
    then have "?h (ka, k, t) \<le> Max (insert 0 (set (map ?h es)))" by (intro Max_ge) simp_all
    then show ?thesis by simp
  qed
  show "(ka, k, t) \<in> set es \<Longrightarrow> length (blocks t) \<le> length (blocks (GDict a al arr cap es))"
    using length_concat_member [of "(ka, k, t)" es ?b] by simp
  have "0 < length (?b e)" for e using blocks_nonempty by (cases e) simp
  then show "length es \<le> length (blocks (GDict a al arr cap es))" using length_concat_count [of es ?b] by simp
qed

lemma height_le_blocks: "height t \<le> length (blocks t)"
proof (induction t rule: height.induct)
  case (1 a al arr cap ts)
  have "height t \<le> length (concat (map blocks ts))" if "t \<in> set ts" for t
    using 1 [OF that] that by (induction ts) (auto intro: order_trans trans_le_add2)
  then show ?case by (simp add: le_SucI trans_le_add2)
next
  case (2 a al arr cap es)
  have "height t \<le> length (concat (map (\<lambda>(ka, k, t). opt ka @ blocks t) es))"
    if "(ka, k, t) \<in> set es" for ka k t
    using 2 [OF that refl refl] that by (induction es) (auto intro: order_trans trans_le_add2)
  then show ?case by (fastforce simp: le_SucI trans_le_add2)
qed simp_all

lemma height_below: "wf_mem m \<Longrightarrow> owned m t \<Longrightarrow> height t \<le> next_addr m"
proof -
  assume "wf_mem m" "owned m t"
  then have "set (blocks t) \<subseteq> {..<next_addr m}" and "distinct (blocks t)"
    by (simp_all add: owned_def holds_below)
  then have "length (blocks t) \<le> next_addr m"
    by (metis card_lessThan card_mono distinct_card finite_lessThan)
  then show ?thesis using height_le_blocks [of t] by linarith
qed

end
