(* ===== verification/Owned_Free.thy ===== *)
theory Owned_Free
  imports Owned
begin

text \<open>
  \<open>bencode_value_free\<close> on an owned tree: it returns, releases every block of the tree exactly once, each
  through the allocator that made it, and touches nothing else.
\<close>

section \<open>A loop that releases one thing per iteration\<close>

lemma distinct_concat_drop: "distinct (concat (map f xs)) \<Longrightarrow> distinct (concat (map f (drop i xs)))"
proof -
  assume "distinct (concat (map f xs))"
  then have "distinct (concat (map f (take i xs @ drop i xs)))" by simp
  then show ?thesis unfolding map_append concat_append by simp
qed

lemma distinct_concat_nth:
  assumes "distinct (concat (map f xs))" and "i < length xs"
  shows "distinct (f (xs ! i))"
  using distinct_concat_drop [OF assms(1), of i] assms(2) by (simp add: Cons_nth_drop_Suc [symmetric])

lemma free_loop:
  fixes bl :: "'x \<Rightarrow> addr list"
  assumes wf: "wf_mem m" and dist: "distinct (concat (map bl xs))" and H: "\<forall>x\<in>set xs. H m x"
    and below: "\<And>m x. wf_mem m \<Longrightarrow> H m x \<Longrightarrow> set (bl x) \<subseteq> {..<next_addr m}"
    and frame: "\<And>m m' F F' x. H m x \<Longrightarrow> moves m F m' F' \<Longrightarrow> set (bl x) \<inter> F = {} \<Longrightarrow> H m' x"
    and K: "K \<subseteq> {..<next_addr m}" "K \<inter> set (concat (map bl xs)) = {}"
    and body: "\<And>i m1. i < length xs \<Longrightarrow> wf_mem m1 \<Longrightarrow> H m1 (xs ! i) \<Longrightarrow>
       (\<forall>a\<in>K. store m1 a = store m a) \<Longrightarrow>
       \<exists>m2. body i m1 = Some (BENCODE_OK, m2) \<and> moves m1 (set (bl (xs ! i))) m2 {}"
  shows "\<exists>m'. for_ok body 0 (length xs) m = Some (BENCODE_OK, m') \<and> moves m (set (concat (map bl xs))) m' {}"
proof -
  let ?rest = "\<lambda>i. set (concat (map bl (drop i xs)))"
  let ?I = "\<lambda>i m1. moves m (?rest 0) m1 (?rest i) \<and> (\<forall>x\<in>set (drop i xs). H m1 x)"
  have "\<exists>m'. for_ok body 0 (length xs) m = Some (BENCODE_OK, m') \<and> ?I (0 + length xs) m'"
  proof (rule for_ok_all)
    have "?rest 0 \<subseteq> {..<next_addr m}" using H below [OF wf] by fastforce
    then show "?I 0 m" using moves_refl [OF wf] H by simp
  next
    fix i m1
    assume "i < 0 + length xs" and I: "?I i m1"
    then have i: "i < length xs" by simp
    have drop: "drop i xs = xs ! i # drop (Suc i) xs" using i by (simp add: Cons_nth_drop_Suc)
    have split: "?rest i = set (bl (xs ! i)) \<union> ?rest (Suc i)" unfolding drop by simp
    have dist_i: "set (bl (xs ! i)) \<inter> ?rest (Suc i) = {}"
      using distinct_concat_drop [OF dist, of i] unfolding drop by simp
    have mv: "moves m (?rest 0) m1 (?rest i)" using I by blast
    have "\<forall>a\<in>K. store m1 a = store m a" using moves_kept [OF mv K(1)] K(2) by simp
    moreover have "H m1 (xs ! i)" using I drop by simp
    ultimately obtain m2 where m2: "body i m1 = Some (BENCODE_OK, m2)"
      and mv2: "moves m1 (set (bl (xs ! i))) m2 {}"
      using body [OF i movesD(2) [OF mv]] by blast
    have rest: "\<forall>x\<in>set (drop (Suc i) xs). H m2 x"
    proof
      fix x
      assume x: "x \<in> set (drop (Suc i) xs)"
      then have "set (bl x) \<inter> set (bl (xs ! i)) = {}" using dist_i by fastforce
      moreover have "H m1 x" using I x drop by simp
      ultimately show "H m2 x" using frame mv2 by blast
    qed
    have "?rest (Suc i) \<subseteq> {..<next_addr m1}" using movesD(4) [OF mv] split by blast
    then have "moves m1 (?rest i) m2 (?rest (Suc i))"
      using moves_frame [OF mv2, of "?rest (Suc i)"] dist_i split by auto
    then show "\<exists>m2. body i m1 = Some (BENCODE_OK, m2) \<and> ?I (Suc i) m2"
      using m2 rest moves_trans [OF mv] by blast
  qed
  then show ?thesis by simp
qed

section \<open>Leaves and arrays\<close>

text \<open>Releasing a block and then the node.\<close>

lemma free_pair:
  assumes "moves m F m1 {}" and "alloc_ok al" and "store m a = Some (pool_of al, b)" and "a \<notin> F"
  shows "\<exists>m2. bencode_free al (Some a) m1 = Some m2 \<and> moves m (insert a F) m2 {}"
proof -
  have below: "{a} \<subseteq> {..<next_addr m}" using store_below [OF movesD(1) [OF assms(1)] assms(3)] by simp
  have "store m1 a = Some (pool_of al, b)"
    using moves_kept [OF assms(1) below, of a] assms(3,4) by simp
  from free_to_moves [OF movesD(2) [OF assms(1)] this alloc_ok_pool [OF assms(2)]]
  obtain m2 where m2: "free_to (pool_of al) a m1 = Some m2" and mv: "moves m1 {a} m2 {}" .
  have "moves m (F \<union> {a}) m1 {a}" using moves_frame [OF assms(1) below] assms(4) by simp
  then show ?thesis using moves_trans [OF _ mv] m2 assms(2) by (auto simp: bencode_free_pool)
qed

lemma free_array:
  assumes "moves m F m1 {}" and "alloc_ok al" and "array m al arr cap esz cs" and "set (opt arr) \<inter> F = {}"
  shows "\<exists>m2. bencode_free al arr m1 = Some m2 \<and> moves m (set (opt arr) \<union> F) m2 {}"
proof (cases arr)
  case None
  then show ?thesis using assms(1) by simp
next
  case (Some b)
  then show ?thesis using free_pair [OF assms(1,2)] array_store assms(3,4) by fastforce
qed

section \<open>The release of a tree\<close>

text \<open>An entry of a dictionary: its key's block and its value.\<close>

definition entry_blocks :: "addr option \<times> byte list \<times> gtree \<Rightarrow> addr list" where
  "entry_blocks = (\<lambda>(ka, k, t). opt ka @ blocks t)"

lemma blocks_GDict: "blocks (GDict a al arr cap es) = a # opt arr @ concat (map entry_blocks es)"
  by (simp add: entry_blocks_def)

definition entry_holds :: "mem \<Rightarrow> bencode_allocator option \<Rightarrow> addr option \<times> byte list \<times> gtree \<Rightarrow> bool" where
  "entry_holds m al = (\<lambda>(ka, k, t). key_at m al ka k \<and> holds m t)"

lemma entry_holds_below:
  "wf_mem m \<Longrightarrow> alloc_ok al \<Longrightarrow> entry_holds m al e \<Longrightarrow> set (entry_blocks e) \<subseteq> {..<next_addr m}"
  using key_live live_below holds_below by (fastforce simp: entry_holds_def entry_blocks_def)

lemma entry_holds_moves:
  assumes "entry_holds m al e" and "alloc_ok al" and "moves m F m' F'" and "set (entry_blocks e) \<inter> F = {}"
  shows "entry_holds m' al e"
proof -
  obtain ka k t where e: "e = (ka, k, t)" by (cases e)
  have key: "key_at m al ka k" and t: "holds m t" using assms(1) e by (simp_all add: entry_holds_def)
  have "store m' b = store m b" if "ka = Some b" for b
  proof (rule moves_kept [OF assms(3)])
    show "{b} \<subseteq> {..<next_addr m}" using key that key_live [OF assms(2) key] live_below [OF movesD(1) [OF assms(3)]]
      by simp
  qed (use assms(4) e that in \<open>auto simp: entry_blocks_def\<close>)
  then have "key_at m' al ka k" by (rule key_at_frame [OF key])
  moreover have "holds m' t" using holds_moves [OF t assms(3)] assms(4) e by (auto simp: entry_blocks_def)
  ultimately show ?thesis using e by (simp add: entry_holds_def)
qed

definition frees :: "(addr option \<Rightarrow> mem \<Rightarrow> mem option) \<Rightarrow> gtree \<Rightarrow> bool" where
  "frees f t \<longleftrightarrow> (\<forall>m. wf_mem m \<and> owned m t \<longrightarrow>
     (\<exists>m'. f (Some (root t)) m = Some m' \<and> moves m (set (blocks t)) m' {}))"

lemma free_items:
  assumes "wf_mem m" and "list_shell m a al arr cap (map root ts)" and "\<forall>t\<in>set ts. holds m t"
    and "distinct (blocks (GList a al arr cap ts))" and "alloc_ok al" and "\<forall>t\<in>set ts. frees f t"
  shows "\<exists>m'. for_ok (free_item f arr) 0 (length ts) m = Some (BENCODE_OK, m')
    \<and> moves m (set (concat (map blocks ts))) m' {}"
proof (rule free_loop [where H = holds and K = "set (opt arr)", OF assms(1) _ assms(3)])
  show "set (opt arr) \<subseteq> {..<next_addr m}"
    using assms(2) array_live [OF assms(5)] live_below [OF assms(1)] by (force simp: list_shell_def)
next
  fix i m1
  assume i: "i < length ts" and wf: "wf_mem m1" and t: "holds m1 (ts ! i)"
    and K: "\<forall>a\<in>set (opt arr). store m1 a = store m a"
  have "array m1 al arr cap sizeof_item (map Item (map root ts))"
    using assms(2) K by (auto simp: list_shell_def intro: array_frame)
  from read_item_array [OF this, of i] have "read_item arr i m1 = Some (root (ts ! i))" using i by simp
  moreover have "owned m1 (ts ! i)"
    using t assms(4) distinct_concat_nth [of blocks, OF _ i] by (simp add: owned_def)
  ultimately show "\<exists>m2. free_item f arr i m1 = Some (BENCODE_OK, m2)
      \<and> moves m1 (set (blocks (ts ! i))) m2 {}"
    using assms(6) wf i by (fastforce simp: frees_def free_item_def)
qed (use assms(4) holds_below holds_moves in \<open>auto\<close>)

lemma free_entries:
  assumes "wf_mem m" and "dict_shell m a al arr cap (shell_entries es)" and "\<forall>(ka, k, t)\<in>set es. holds m t"
    and "distinct (blocks (GDict a al arr cap es))" and "alloc_ok al" and "\<forall>(ka, k, t)\<in>set es. frees f t"
  shows "\<exists>m'. for_ok (free_entry f al arr) 0 (length es) m = Some (BENCODE_OK, m')
    \<and> moves m (set (concat (map entry_blocks es))) m' {}"
proof (rule free_loop [where H = "\<lambda>m. entry_holds m al" and K = "set (opt arr)", OF assms(1)])
  show "set (opt arr) \<subseteq> {..<next_addr m}"
    using assms(2) array_live [OF assms(5)] live_below [OF assms(1)] by (force simp: dict_shell_def)
  show "\<forall>e\<in>set es. entry_holds m al e"
    using assms(2,3) by (fastforce simp: entry_holds_def dict_shell_def)
next
  fix i m1
  assume i: "i < length es" and wf: "wf_mem m1" and e: "entry_holds m1 al (es ! i)"
    and K: "\<forall>a\<in>set (opt arr). store m1 a = store m a"
  obtain ka k t where ei: "es ! i = (ka, k, t)" by (cases "es ! i")
  have arr: "array m1 al arr cap sizeof_entry (map entry_cell (shell_entries es))"
    using assms(2) K by (auto simp: dict_shell_def intro: array_frame)
  have nth: "shell_entries es ! i = (ka, k, root t)" using i ei by simp
  have rd: "read_entry arr i m1 = Some \<lparr>ekey = ka, ekey_len = length k, evalue = root t\<rparr>"
    using read_entry_array [OF arr _ nth] i by simp
  have key: "key_at m1 al ka k" and t: "holds m1 t" using e ei by (simp_all add: entry_holds_def)
  have "distinct (entry_blocks (es ! i))" and apart: "set (opt arr) \<inter> set (entry_blocks (es ! i)) = {}"
    using assms(4) distinct_concat_nth [of entry_blocks, OF _ i] nth_mem [OF i] unfolding blocks_GDict by auto
  then have dist: "distinct (opt ka @ blocks t)" using ei by (simp add: entry_blocks_def)
  obtain m2 where m2: "bencode_free al ka m1 = Some m2" and mv2: "moves m1 (set (opt ka)) m2 {}"
    by (rule bencode_free_moves [OF wf assms(5), of ka]) (use key_at_store key in blast)+
  have t2: "holds m2 t" using holds_moves [OF t mv2] dist by auto
  have arr_b: "set (opt arr) \<subseteq> {..<next_addr m1}" using array_live [OF assms(5) arr] live_below [OF wf] by blast
  have "array m2 al arr cap sizeof_entry (map entry_cell (shell_entries es))"
  proof (rule array_frame [OF arr])
    show "store m2 b = store m1 b" if "arr = Some b" for b
      using moves_kept [OF mv2 arr_b] apart ei that by (auto simp: entry_blocks_def)
  qed
  then have rd2: "read_entry arr i m2 = Some \<lparr>ekey = ka, ekey_len = length k, evalue = root t\<rparr>"
    using read_entry_array [OF _ _ nth] i by simp
  have "frees f t" using assms(6) nth_mem [OF i] ei by auto
  then obtain m3 where m3: "f (Some (root t)) m2 = Some m3" and mv3: "moves m2 (set (blocks t)) m3 {}"
    using t2 dist movesD(2) [OF mv2] by (auto simp: frees_def owned_def)
  have "moves m1 (set (opt ka) \<union> set (blocks t)) m2 ({} \<union> set (blocks t))"
    using moves_frame [OF mv2 holds_below [OF wf t]] dist by auto
  then have "moves m1 (set (entry_blocks (es ! i))) m3 {}"
    using moves_trans mv3 ei by (fastforce simp: entry_blocks_def)
  then show "\<exists>m2. free_entry f al arr i m1 = Some (BENCODE_OK, m2)
      \<and> moves m1 (set (entry_blocks (es ! i))) m2 {}"
    using rd m2 rd2 m3 by (simp add: free_entry_def)
qed (use assms(4,5) entry_holds_below entry_holds_moves in \<open>auto simp: blocks_GDict simp del: blocks.simps\<close>)

lemma free_bytes_block: "free_bytes al (BAt b 0) m = bencode_free al (Some b) m"
  by (simp add: free_bytes_def)

text \<open>The content of a node.\<close>

lemma free_list:
  assumes "wf_mem m" and "owned m (GList a al arr cap ts)" and "alloc_ok al" and "\<forall>t\<in>set ts. frees f t"
  shows "\<exists>m1. free_payload f \<lparr>valloc = al, payload = List_payload arr (length ts) cap\<rparr> m = Some m1
    \<and> moves m (set (tl (blocks (GList a al arr cap ts)))) m1 {}"
proof -
  have sh: "list_shell m a al arr cap (map root ts)" and ts: "\<forall>t\<in>set ts. holds m t"
    and dist: "distinct (blocks (GList a al arr cap ts))" using assms(2) by (simp_all add: owned_def)
  from free_items [OF assms(1) sh ts dist assms(3,4)] obtain m1 where
    m1: "for_ok (free_item f arr) 0 (length ts) m = Some (BENCODE_OK, m1)"
    and mv1: "moves m (set (concat (map blocks ts))) m1 {}" by blast
  have "array m al arr cap sizeof_item (map Item (map root ts))" using sh by (simp add: list_shell_def)
  from free_array [OF mv1 assms(3) this] dist obtain m2 where
    "bencode_free al arr m1 = Some m2" "moves m (set (opt arr) \<union> set (concat (map blocks ts))) m2 {}" by auto
  then show ?thesis using m1 by (simp add: free_payload_def)
qed

lemma free_dict:
  assumes "wf_mem m" and "owned m (GDict a al arr cap es)" and "alloc_ok al" and "\<forall>(ka, k, t)\<in>set es. frees f t"
  shows "\<exists>m1. free_payload f \<lparr>valloc = al, payload = Dict_payload arr (length es) cap\<rparr> m = Some m1
    \<and> moves m (set (tl (blocks (GDict a al arr cap es)))) m1 {}"
proof -
  have sh: "dict_shell m a al arr cap (shell_entries es)" and es: "\<forall>(ka, k, t)\<in>set es. holds m t"
    and dist: "distinct (blocks (GDict a al arr cap es))" using assms(2) by (simp_all add: owned_def)
  from free_entries [OF assms(1) sh es dist assms(3,4)] obtain m1 where
    m1: "for_ok (free_entry f al arr) 0 (length es) m = Some (BENCODE_OK, m1)"
    and mv1: "moves m (set (concat (map entry_blocks es))) m1 {}" by blast
  have "array m al arr cap sizeof_entry (map entry_cell (shell_entries es))" using sh by (simp add: dict_shell_def)
  from free_array [OF mv1 assms(3) this] dist [unfolded blocks_GDict] obtain m2 where
    "bencode_free al arr m1 = Some m2" "moves m (set (opt arr) \<union> set (concat (map entry_blocks es))) m2 {}" by auto
  then show ?thesis using m1 by (simp add: free_payload_def blocks_GDict del: blocks.simps)
qed

lemma free_payload_spec:
  assumes "wf_mem m" and "owned m t" and "store m (root t) = Some (pool_of (valloc v), Node v)" and "alloc_ok (valloc v)"
    and children: "\<And>t'. height t' < height t \<Longrightarrow> frees f t'"
  shows "\<exists>m1. free_payload f v m = Some m1 \<and> moves m (set (tl (blocks t))) m1 {}"
proof -
  have t: "holds m t" using assms(2) by (simp add: owned_def)
  have refl: "moves m {} m {}" using moves_refl [OF assms(1)] by simp
  show ?thesis
  proof (cases t)
    case (GInt a al i)
    then have "v = \<lparr>valloc = al, payload = Int_payload i\<rparr>" using t assms(3) by simp
    then show ?thesis using refl GInt by (simp add: free_payload_def)
  next
    case (GOwned a al b bs)
    then have v: "v = \<lparr>valloc = al, payload = Str_payload (BAt b 0) (length bs) True\<rparr>" using t assms(3) by simp
    have "store m b = Some (pool_of al, Bytes (map Some bs))" using t GOwned by simp
    then show ?thesis using free_pair [OF refl] assms(4) v GOwned by (simp add: free_payload_def free_bytes_block)
  next
    case (GBorrow a al ptr bs)
    then have "v = \<lparr>valloc = al, payload = Str_payload ptr (length bs) False\<rparr>" using t assms(3) by simp
    then show ?thesis using refl GBorrow by (simp add: free_payload_def)
  next
    case (GList a al arr cap ts)
    then have v: "v = \<lparr>valloc = al, payload = List_payload arr (length ts) cap\<rparr>"
      using t assms(3) by (simp add: list_shell_def)
    have "\<forall>t'\<in>set ts. frees f t'" using children list_children(1) GList by blast
    then show ?thesis using free_list [OF assms(1) assms(2) [unfolded GList]] assms(4) v GList by simp
  next
    case (GDict a al arr cap es)
    then have v: "v = \<lparr>valloc = al, payload = Dict_payload arr (length es) cap\<rparr>"
      using t assms(3) by (simp add: dict_shell_def)
    have "\<forall>(ka, k, t')\<in>set es. frees f t'" using children dict_children(1) GDict by blast
    then show ?thesis using free_dict [OF assms(1) assms(2) [unfolded GDict]] assms(4) v GDict by simp
  qed
qed

lemma value_free_spec: "height t \<le> n \<Longrightarrow> frees (value_free n) t"
proof (induction n arbitrary: t)
  case 0
  then show ?case by (cases t) simp_all
next
  case (Suc n)
  show ?case unfolding frees_def
  proof (intro allI impI, elim conjE)
    fix m
    assume wf: "wf_mem m" and own: "owned m t"
    then have t: "holds m t" and dist: "distinct (blocks t)" by (simp_all add: owned_def)
    from holds_alloc_ok [OF t] obtain v where
      node: "store m (root t) = Some (pool_of (valloc v), Node v)" and ok: "alloc_ok (valloc v)" by blast
    have "frees (value_free n) t'" if "height t' < height t" for t' using Suc.IH Suc.prems that by simp
    from free_payload_spec [OF wf own node ok this] obtain m1 where
      m1: "free_payload (value_free n) v m = Some m1" and mv1: "moves m (set (tl (blocks t))) m1 {}" by blast
    have bl: "blocks t = root t # tl (blocks t)" by (cases t) simp_all
    with dist have "root t \<notin> set (tl (blocks t))" by (metis distinct.simps(2))
    from free_pair [OF mv1 ok node this] obtain m2 where
      "bencode_free (valloc v) (Some (root t)) m1 = Some m2"
      and "moves m (insert (root t) (set (tl (blocks t)))) m2 {}" by blast
    moreover have "insert (root t) (set (tl (blocks t))) = set (blocks t)" by (metis bl list.simps(15))
    ultimately show "\<exists>m'. value_free (Suc n) (Some (root t)) m = Some m' \<and> moves m (set (blocks t)) m' {}"
      using node m1 by (simp add: read_node_def)
  qed
qed

lemma bencode_value_free_spec:
  assumes "wf_mem m" and "owned m t"
  obtains m' where "bencode_value_free (Some (root t)) m = Some m'" and "moves m (set (blocks t)) m' {}"
proof -
  have "height t \<le> Suc (next_addr m)" using height_below [OF assms] by simp
  from value_free_spec [OF this] assms show thesis using that
    unfolding frees_def bencode_value_free_def by blast
qed

lemma bencode_value_free_NULL [simp]: "bencode_value_free None m = Some m"
  by (simp add: bencode_value_free_def)

end
