(* ===== verification/Owned_Build.thy ===== *)
theory Owned_Build
  imports Owned_Free
begin

text \<open>
  The constructors of \<open>src/value.c\<close> and the growth of arrays: each constructor returns a fresh owned tree
  for its value, or \<open>BENCODE_ERR_NOMEM\<close> with the memory as it was, which only happens when the allocator
  refuses.
\<close>

section \<open>What a constructor promises\<close>

text \<open>On success the tree owns exactly the blocks that were taken.\<close>

definition built_as :: "(gtree \<Rightarrow> bool) \<Rightarrow> mem \<Rightarrow> new_result \<Rightarrow> bool" where
  "built_as good m res \<longleftrightarrow> (\<exists>st r m'. res = Some (st, r, m') \<and>
     (if st = BENCODE_OK
      then \<exists>t. r = Some (root t) \<and> owned m' t \<and> good t \<and> moves m {} m' (set (blocks t))
      else st = BENCODE_ERR_NOMEM \<and> r = None \<and> moves m {} m' {} \<and> \<not> granting m))"

definition built :: "mem \<Rightarrow> bval \<Rightarrow> new_result \<Rightarrow> bool" where
  "built m v res \<longleftrightarrow> built_as (\<lambda>t. tree_val t = v) m res"

lemma built_as_doneI:
  assumes "res = Some (BENCODE_OK, Some (root t), m')" and "owned m' t" and "good t"
    and "moves m {} m' (set (blocks t))"
  shows "built_as good m res"
  using assms by (auto simp: built_as_def)

lemma built_as_nomemI:
  assumes "res = Some (BENCODE_ERR_NOMEM, None, m')" and "moves m {} m' {}" and "\<not> granting m"
  shows "built_as good m res"
  using assms by (auto simp: built_as_def)

lemma built_as_cases:
  assumes "built_as good m res"
  obtains (success) t m' where "res = Some (BENCODE_OK, Some (root t), m')" and "owned m' t"
      and "good t" and "moves m {} m' (set (blocks t))"
  | (nomem) m' where "res = Some (BENCODE_ERR_NOMEM, None, m')" and "moves m {} m' {}" and "\<not> granting m"
  using assms by (auto simp: built_as_def split: if_splits)

lemma built_cases:
  assumes "built m v res"
  obtains (success) t m' where "res = Some (BENCODE_OK, Some (root t), m')" and "owned m' t"
      and "tree_val t = v" and "moves m {} m' (set (blocks t))"
  | (nomem) m' where "res = Some (BENCODE_ERR_NOMEM, None, m')" and "moves m {} m' {}" and "\<not> granting m"
  using assms unfolding built_def by (rule built_as_cases)

lemma own_copy_built: "built_as (own_copy v) m res \<Longrightarrow> built m v res"
  unfolding built_def by (erule built_as_cases) (auto simp: own_copy_def intro: built_as_doneI built_as_nomemI)

text \<open>A tree that was just built, next to one that is there already.\<close>

lemma beside:
  assumes "moves m0 {} m (set (blocks w))" and "owned m w" and "moves m {} m1 (set (blocks t))"
  shows "owned m1 w" and "moves m0 {} m1 (set (blocks w) \<union> set (blocks t))"
    and "set (blocks w) \<inter> set (blocks t) = {}"
proof -
  show "owned m1 w" using owned_moves [OF assms(2,3)] by simp
  have "moves m0 {} m1 (set (blocks t) \<union> (set (blocks w) - {}))" using moves_step [OF assms(1,3)] by simp
  then show "moves m0 {} m1 (set (blocks w) \<union> set (blocks t))" by (simp add: Un_commute)
  show "set (blocks w) \<inter> set (blocks t) = {}"
    using moves_apart [OF assms(3) movesD(4) [OF assms(1)]] by simp
qed

section \<open>Nodes\<close>

lemma value_alloc_cases:
  assumes "wf_mem m"
  obtains (granted) a m' where "value_alloc al ty m = Some (Some a, m')" and "moves m {} m' {a}"
      and "store m' a = Some (pool_of al, Node \<lparr>valloc = al, payload = zeroed ty\<rparr>)"
  | (refused) m' where "value_alloc al ty m = Some (None, m')" and "moves m {} m' {}" and "\<not> granting m"
using assms
proof (cases rule: alloc_from_cases [where p = "pool_of al" and nbytes = sizeof_value])
  case (granted a m1)
  let ?m2 = "put_block a (pool_of al, Node \<lparr>valloc = al, payload = zeroed ty\<rparr>) m1"
  have "value_alloc al ty m = Some (Some a, ?m2)"
    using granted(1,3) by (simp add: value_alloc_def bencode_alloc_pool write_node_def)
  moreover have "moves m {} ?m2 {a}" using granted(2,4)
    by (auto simp: moves_def put_block_def wf_mem_def)
  ultimately show thesis by (rule that(1)) simp
next
  case (refused m1)
  then show thesis by (intro that(2)) (simp_all add: value_alloc_def bencode_alloc_pool)
qed

text \<open>Writing over a block that was just taken.\<close>

lemma moves_put_fresh:
  assumes "moves m F m1 F1" and "a \<in> F1" and "store m1 a = Some (p, b)" and "p \<noteq> Foreign"
  shows "moves m F (put_block a (p, b') m1) F1"
proof -
  have "moves m1 {a} (put_block a (p, b') m1) {a}"
    using moves_put [OF movesD(2) [OF assms(1)] assms(3,4)] .
  from moves_frame [OF this, of "F1 - {a}"] have "moves m1 F1 (put_block a (p, b') m1) F1"
    using movesD(4) [OF assms(1)] assms(2) by (auto simp: insert_absorb)
  then show ?thesis by (rule moves_trans [OF assms(1)])
qed

lemma write_node_node:
  "store m a = Some (p, Node w) \<Longrightarrow> write_node a v m = Some (put_block a (p, Node v) m)"
  by (simp add: write_node_def)

lemma bencode_int_new_copy:
  assumes "wf_mem m" and "alloc_ok al"
  shows "built_as (own_copy (BInt (sint i))) m (bencode_int_new i al True m)"
using assms(1)
proof (cases rule: value_alloc_cases [where al = al and ty = BENCODE_INT])
  case (granted a m1)
  let ?m2 = "put_block a (pool_of al, Node \<lparr>valloc = al, payload = Int_payload i\<rparr>) m1"
  show ?thesis
  proof (rule built_as_doneI [of _ "GInt a al i" ?m2])
    show "moves m {} ?m2 (set (blocks (GInt a al i)))"
      using moves_put_fresh [OF granted(2) _ granted(3) alloc_ok_pool [OF assms(2)]] by simp
  qed (use granted assms(2) in \<open>simp_all add: bencode_int_new_def write_node_node owned_def own_copy_def\<close>)
next
  case (refused m1)
  then show ?thesis using assms(2) by (intro built_as_nomemI) (simp_all add: bencode_int_new_def)
qed

lemma bencode_list_new_copy:
  assumes "wf_mem m" and "alloc_ok al"
  shows "built_as (own_copy (BList [])) m (bencode_list_new al True m)"
using assms(1)
proof (cases rule: value_alloc_cases [where al = al and ty = BENCODE_LIST])
  case (granted a m1)
  show ?thesis
    by (rule built_as_doneI [of _ "GList a al None 0 []" m1])
      (use granted assms(2) in \<open>simp_all add: bencode_list_new_def owned_def list_shell_def array_None own_copy_def\<close>)
next
  case (refused m1)
  then show ?thesis using assms(2) by (intro built_as_nomemI) (simp_all add: bencode_list_new_def)
qed

lemma bencode_dict_new_copy:
  assumes "wf_mem m" and "alloc_ok al"
  shows "built_as (own_copy (BDict [])) m (bencode_dict_new al True m)"
using assms(1)
proof (cases rule: value_alloc_cases [where al = al and ty = BENCODE_DICT])
  case (granted a m1)
  show ?thesis
    by (rule built_as_doneI [of _ "GDict a al None 0 []" m1])
      (use granted assms(2) in \<open>simp_all add: bencode_dict_new_def owned_def dict_shell_def array_None own_copy_def\<close>)
next
  case (refused m1)
  then show ?thesis using assms(2) by (intro built_as_nomemI) (simp_all add: bencode_dict_new_def)
qed

section \<open>Strings\<close>

text \<open>Bytes that can be read stay readable when blocks are taken.\<close>

lemma read_bytes_length: "read_bytes ptr len m = Some bs \<Longrightarrow> length bs = len"
proof -
  have those_length: "those xs = Some ys \<Longrightarrow> length ys = length xs" for xs :: "'x option list" and ys
    by (induction xs arbitrary: ys) (auto split: option.splits)
  show "read_bytes ptr len m = Some bs \<Longrightarrow> length bs = len"
    by (auto simp: read_bytes_def slice_def split: if_splits bptr.splits Option.bind_splits dest!: those_length)
qed

lemma read_bytes_frame:
  "read_bytes ptr len m = Some bs \<Longrightarrow> (\<And>a off. ptr = BAt a off \<Longrightarrow> store m' a = store m a)
   \<Longrightarrow> read_bytes ptr len m' = Some bs"
  by (cases ptr) (simp_all add: read_bytes_def split: if_splits)

lemma read_bytes_live: "read_bytes (BAt a off) len m = Some bs \<Longrightarrow> len \<noteq> 0 \<Longrightarrow> store m a \<noteq> None"
  by (cases "store m a") (simp_all add: read_bytes_def)

lemma read_bytes_moves:
  assumes "read_bytes ptr len m = Some bs" and "moves m {} m' F'"
  shows "read_bytes ptr len m' = Some bs"
proof (cases "len = 0")
  case False
  show ?thesis
  proof (rule read_bytes_frame [OF assms(1)])
    fix a off
    assume "ptr = BAt a off"
    then obtain b where b: "store m a = Some b" using read_bytes_live assms(1) False by fastforce
    then have "{a} \<subseteq> {..<next_addr m}" using store_below [OF movesD(1) [OF assms(2)]] by simp
    from moves_kept [OF assms(2) this] show "store m' a = store m a" by simp
  qed
qed (use assms(1) in simp)

lemma write_bytes_Raw:
  assumes "store m a = Some (p, Raw (length bs))"
  shows "write_bytes a 0 bs m = Some (put_block a (p, Bytes (map Some bs)) m)"
  using assms by (simp add: write_bytes_def)

text \<open>Taking a block and filling it with a copy of readable bytes.\<close>

lemma copy_bytes_cases:
  assumes "wf_mem m" and "alloc_ok al" and "read_bytes ptr len m = Some bs"
  obtains (granted) b m1 m2 where "bencode_alloc al len m = (Some b, m1)"
      and "read_bytes ptr len m1 = Some bs" and "write_bytes b 0 bs m1 = Some m2"
      and "moves m {} m2 {b}" and "store m2 b = Some (pool_of al, Bytes (map Some bs))"
  | (refused) m1 where "bencode_alloc al len m = (None, m1)" and "moves m {} m1 {}" and "\<not> granting m"
using assms(1)
proof (cases rule: alloc_from_cases [where p = "pool_of al" and nbytes = len])
  case (granted b m1)
  have len: "len = length bs" using read_bytes_length [OF assms(3)] by simp
  let ?m2 = "put_block b (pool_of al, Bytes (map Some bs)) m1"
  show thesis
  proof (rule that(1))
    show "bencode_alloc al len m = (Some b, m1)" using granted by (simp add: bencode_alloc_pool)
    show "read_bytes ptr len m1 = Some bs" using read_bytes_moves [OF assms(3) granted(2)] .
    show "write_bytes b 0 bs m1 = Some ?m2" using granted(3) len by (simp add: write_bytes_Raw)
    show "moves m {} ?m2 {b}"
      using moves_put_fresh [OF granted(2) _ granted(3) alloc_ok_pool [OF assms(2)]] by simp
  qed simp
next
  case (refused m1)
  then show thesis by (intro that(2)) (simp_all add: bencode_alloc_pool)
qed

text \<open>A string that is not empty: its node was allocated as \<open>a\<close>, and now its bytes are copied.\<close>

lemma string_new_bytes:
  assumes wf: "wf_mem m" and al: "alloc_ok al" and read: "read_bytes ptr len m = Some bs" and "len \<noteq> 0" and "len \<le> SIZE_MAX"
    and node: "value_alloc al BENCODE_STRING m = Some (Some a, m1)" and mv1: "moves m {} m1 {a}"
    and a1: "store m1 a = Some (pool_of al, Node \<lparr>valloc = al, payload = zeroed BENCODE_STRING\<rparr>)"
  shows "built_as (own_copy (BStr bs)) m (bencode_string_new ptr len al True m)"
proof -
  have len: "len = length bs" using read_bytes_length [OF read] by simp
  have ptr: "\<not> (ptr = BNull \<and> len \<noteq> 0)" using read by (auto simp: read_bytes_def split: if_splits)
  have below: "{a} \<subseteq> {..<next_addr m1}" using movesD(4) [OF mv1] .
  from movesD(2) [OF mv1] al read_bytes_moves [OF read mv1] show ?thesis
  proof (cases rule: copy_bytes_cases)
    case (granted b m2 m3)
    have a3: "store m3 a = Some (pool_of al, Node \<lparr>valloc = al, payload = zeroed BENCODE_STRING\<rparr>)"
      using moves_kept [OF granted(4) below] a1 by simp
    have ab: "a \<noteq> b" using moves_apart [OF granted(4) below] by simp
    let ?m4 = "put_block a (pool_of al, Node \<lparr>valloc = al, payload = Str_payload (BAt b 0) len True\<rparr>) m3"
    have mv3: "moves m {} m3 {a, b}"
      using moves_trans [OF mv1] moves_frame [OF granted(4) below] by (simp add: insert_commute)
    show ?thesis
    proof (rule built_as_doneI [of _ "GOwned a al b bs" ?m4])
      show "moves m {} ?m4 (set (blocks (GOwned a al b bs)))"
        using moves_put_fresh [OF mv3 _ a3 alloc_ok_pool [OF al]] by simp
      show "bencode_string_new ptr len al True m = Some (BENCODE_OK, Some (root (GOwned a al b bs)), ?m4)"
        using ptr assms(4) node granted a3 al by (simp add: bencode_string_new_def write_node_node)
    qed (use granted ab assms(2,4,5) len in \<open>auto simp: owned_def own_copy_def\<close>)
  next
    case (refused m2)
    have "store m2 a = Some (pool_of al, Node \<lparr>valloc = al, payload = zeroed BENCODE_STRING\<rparr>)"
      using moves_kept [OF refused(2) below] a1 by simp
    from free_to_moves [OF movesD(2) [OF refused(2)] this alloc_ok_pool [OF al]]
    obtain m3 where m3: "free_to (pool_of al) a m2 = Some m3" and mv3: "moves m2 {a} m3 {}" .
    have "moves m1 {a} m2 {a}" using moves_frame [OF refused(2) below] by simp
    then have mv: "moves m {} m3 {}" using moves_trans mv1 mv3 by blast
    show ?thesis
    proof (rule built_as_nomemI [OF _ mv])
      show "\<not> granting m" using refused(3) moves_granting [OF mv1] by simp
      show "bencode_string_new ptr len al True m = Some (BENCODE_ERR_NOMEM, None, m3)"
        using ptr assms(4) node a1 refused m3 al by (simp add: bencode_string_new_def bencode_free_pool)
    qed
  qed
qed

lemma bencode_string_new_copy:
  assumes "wf_mem m" and "alloc_ok al" and "read_bytes ptr len m = Some bs" and "len \<le> SIZE_MAX"
  shows "built_as (own_copy (BStr bs)) m (bencode_string_new ptr len al True m)"
proof -
  have len: "len = length bs" using read_bytes_length [OF assms(3)] by simp
  have ptr: "\<not> (ptr = BNull \<and> len \<noteq> 0)" using assms(3) by (auto simp: read_bytes_def split: if_splits)
  from assms(1) show ?thesis
  proof (cases rule: value_alloc_cases [where al = al and ty = BENCODE_STRING])
    case (granted a m1)
    show ?thesis
    proof (cases "len = 0")
      case True
      let ?m2 = "put_block a (pool_of al, Node \<lparr>valloc = al, payload = Str_payload BEmpty 0 False\<rparr>) m1"
      show ?thesis
      proof (rule built_as_doneI [of _ "GBorrow a al BEmpty []" ?m2])
        show "moves m {} ?m2 (set (blocks (GBorrow a al BEmpty [])))"
          using moves_put_fresh [OF granted(2) _ granted(3) alloc_ok_pool [OF assms(2)]] by simp
      qed (use granted assms(2) True len
          in \<open>simp_all add: bencode_string_new_def write_node_node owned_def borrowed_def own_copy_def\<close>)
    next
      case False
      then show ?thesis by (rule string_new_bytes [OF assms(1-3) _ assms(4) granted])
    qed
  next
    case (refused m1)
    then show ?thesis using assms(2) ptr by (intro built_as_nomemI) (auto simp: bencode_string_new_def)
  qed
qed

lemmas bencode_int_new_spec = bencode_int_new_copy [THEN own_copy_built]
lemmas bencode_list_new_spec = bencode_list_new_copy [THEN own_copy_built]
lemmas bencode_dict_new_spec = bencode_dict_new_copy [THEN own_copy_built]
lemmas bencode_string_new_spec = bencode_string_new_copy [THEN own_copy_built]

lemma bencode_string_new_borrowed_spec:
  assumes "wf_mem m" and "alloc_ok al" and "borrowed m ptr bs" and "length bs \<le> SIZE_MAX"
  shows "built m (BStr bs) (bencode_string_new_borrowed ptr (length bs) al True m)"
proof -
  have ptr: "\<not> (ptr = BNull \<and> length bs \<noteq> 0)" using assms(3) by (auto simp: borrowed_def)
  from assms(1) show ?thesis
  proof (cases rule: value_alloc_cases [where al = al and ty = BENCODE_STRING])
    case (granted a m1)
    let ?ptr = "if length bs = 0 then BEmpty else ptr"
    let ?m2 = "put_block a (pool_of al, Node \<lparr>valloc = al, payload = Str_payload ?ptr (length bs) False\<rparr>) m1"
    have mv: "moves m {} ?m2 {a}"
      using moves_put_fresh [OF granted(2) _ granted(3) alloc_ok_pool [OF assms(2)]] by simp
    show ?thesis unfolding built_def
    proof (rule built_as_doneI [of _ "GBorrow a al ?ptr bs" ?m2])
      have "borrowed ?m2 ?ptr bs"
        using borrowed_frame [OF assms(3) moves_foreign [OF mv]]
        by (cases "bs = []") (simp add: borrowed_def, simp)
      then show "owned ?m2 (GBorrow a al ?ptr bs)" using assms ptr by (auto simp: owned_def)
    qed (use granted ptr mv in \<open>auto simp: bencode_string_new_borrowed_def write_node_node\<close>)
  next
    case (refused m1)
    then show ?thesis using ptr unfolding built_def by (intro built_as_nomemI) (auto simp: bencode_string_new_borrowed_def)
  qed
qed

end
