(* ===== verification/Owned_Array.thy ===== *)
theory Owned_Array
  imports Owned_Build
begin

text \<open>
  Growing arrays: \<open>grow_array\<close> keeps the elements, makes room for one more and gives back the old
  storage, or fails and leaves everything as it was.  On top of it, \<open>bencode_list_append\<close>.
\<close>

section \<open>Doubling\<close>

lemma double_until_spec:
  assumes "0 < c" and "c \<le> SIZE_MAX"
  shows "\<exists>r. double_until c needed = Some r \<and>
    (case r of None \<Rightarrow> SIZE_MAX div 2 < needed
     | Some n \<Rightarrow> needed \<le> n \<and> c \<le> n \<and> n \<le> max c (2 * needed) \<and> n \<le> SIZE_MAX)"
  using assms
proof (induction "needed - c" arbitrary: c rule: less_induct)
  case less
  show ?case
  proof (cases "c < needed")
    case False
    then show ?thesis using less.prems by (subst double_until.simps) simp
  next
    case lt: True
    show ?thesis
    proof (cases "c > SIZE_MAX div 2")
      case True
      then show ?thesis using lt by (subst double_until.simps) simp
    next
      case False
      then have le: "c * 2 \<le> SIZE_MAX" by linarith
      then have eq: "double_until c needed = double_until (c * 2) needed"
        using lt False by (subst double_until.simps) (simp add: sz_id)
      have "needed - c * 2 < needed - c" using lt less.prems(1) by linarith
      from less.hyps [OF this _ le] less.prems(1) obtain r where r: "double_until (c * 2) needed = Some r"
        "case r of None \<Rightarrow> SIZE_MAX div 2 < needed
         | Some n \<Rightarrow> needed \<le> n \<and> c * 2 \<le> n \<and> n \<le> max (c * 2) (2 * needed) \<and> n \<le> SIZE_MAX"
        by auto
      show ?thesis
      proof (cases r)
        case None
        then show ?thesis using r eq by simp
      next
        case (Some n)
        have "max (c * 2) (2 * needed) = 2 * needed" using lt by simp
        then have "needed \<le> n \<and> c \<le> n \<and> n \<le> 2 * needed \<and> n \<le> SIZE_MAX"
          using r(2) Some by simp
        then show ?thesis using r(1) eq Some by auto
      qed
    qed
  qed
qed

section \<open>Growth\<close>

text \<open>An array with at least one free place after \<open>cs\<close>.\<close>

definition roomy :: "mem \<Rightarrow> bencode_allocator option \<Rightarrow> addr option \<Rightarrow> nat \<Rightarrow> nat \<Rightarrow> cell list \<Rightarrow> bool" where
  "roomy m al arr cap esz cs \<longleftrightarrow> (\<exists>b blk rest. arr = Some b \<and> store m b = Some (pool_of al, blk)
     \<and> cells_of esz blk = Some (cs @ rest) \<and> length (cs @ rest) = cap \<and> rest \<noteq> [] \<and> cap \<le> SIZE_MAX div esz)"

text \<open>So many elements that doubling would exceed \<open>size_t\<close>.\<close>

definition crowded :: "nat \<Rightarrow> nat \<Rightarrow> bool" where
  "crowded esz n \<longleftrightarrow> SIZE_MAX div esz < 2 * n + 4"

lemma grow_array_room:
  assumes "array m al arr cap esz cs" and "length cs < cap"
  shows "roomy m al arr cap esz cs" and "grow_array al arr esz cap (Suc (length cs)) m = Some (BENCODE_OK, arr, cap, m)"
proof -
  obtain b where "arr = Some b" using assms by (cases arr) (auto simp: array_None)
  then show "roomy m al arr cap esz cs" using assms by (auto simp: roomy_def array_Some)
  show "grow_array al arr esz cap (Suc (length cs)) m = Some (BENCODE_OK, arr, cap, m)"
    using assms(2) by (simp add: grow_array_def)
qed

text \<open>Moving the elements to fresh storage.\<close>

lemma move_cells:
  assumes "wf_mem m" and "alloc_ok al" and "array m al (Some b) cap esz cs" and "length cs = cap"
    and "moves m {} m1 {f}" and "store m1 f = Some (pool_of al, Raw (n * esz))" and "cap < n" and "0 < esz"
  shows "\<exists>m3 m2. copy_cells esz f b cap m1 = Some m3 \<and> bencode_free al (Some b) m3 = Some m2
    \<and> store m2 f = Some (pool_of al, Cells (cs @ replicate (n - cap) Uninit)) \<and> moves m {b} m2 {f}"
proof -
  have b: "store m b = Some (pool_of al, Cells cs)" using assms(3,4) by (auto simp: array_Some)
  then have below: "{b} \<subseteq> {..<next_addr m}" using store_below [OF assms(1)] by simp
  have b1: "store m1 b = Some (pool_of al, Cells cs)" using moves_kept [OF assms(5) below] b by simp
  have fb: "f \<noteq> b" using moves_apart [OF assms(5) below] by simp
  let ?m3 = "put_block f (pool_of al, Cells (cs @ replicate (n - cap) Uninit)) m1"
  have copy: "copy_cells esz f b cap m1 = Some ?m3"
    using b1 fb assms(4,6,7,8) by (simp add: copy_cells_def)
  have mv3: "moves m {} ?m3 {f}"
    using moves_put_fresh [OF assms(5) _ assms(6) alloc_ok_pool [OF assms(2)]] by simp
  have "store ?m3 b = Some (pool_of al, Cells cs)" using b1 fb by simp
  from free_to_moves [OF movesD(2) [OF mv3] this alloc_ok_pool [OF assms(2)]]
  obtain m2 where m2: "free_to (pool_of al) b ?m3 = Some m2" and mv2: "moves ?m3 {b} m2 {}" .
  have f_below: "{f} \<subseteq> {..<next_addr ?m3}" using movesD(4) [OF mv3] .
  have "store m2 f = store ?m3 f" using moves_kept [OF mv2 f_below] fb by simp
  moreover have "moves m {b} m2 {f}"
    using moves_step [OF moves_frame [OF mv3 below] mv2] fb by (simp add: insert_Diff_if)
  ultimately show ?thesis using copy m2 assms(2) by (simp add: bencode_free_pool)
qed

text \<open>The capacity that doubling finds for a full array, unless there is none within \<open>size_t\<close>.\<close>

lemma double_full:
  assumes "cap \<le> SIZE_MAX"
  obtains (fits) n where "double_until (if cap = 0 then 4 else cap) (Suc cap) = Some (Some n)" and "cap < n"
      and "n \<le> SIZE_MAX div esz"
  | (none) r where "double_until (if cap = 0 then 4 else cap) (Suc cap) = Some r"
      and "case r of None \<Rightarrow> True | Some n \<Rightarrow> n > SIZE_MAX div esz" and "crowded esz cap"
proof -
  let ?start = "if cap = 0 then 4 else cap"
  have "0 < ?start" "?start \<le> SIZE_MAX" using assms by (simp_all add: SIZE_MAX_def)
  from double_until_spec [OF this, of "Suc cap"] obtain r where
    r: "double_until ?start (Suc cap) = Some r"
    and rn: "case r of None \<Rightarrow> SIZE_MAX div 2 < Suc cap
       | Some n \<Rightarrow> Suc cap \<le> n \<and> ?start \<le> n \<and> n \<le> max ?start (2 * Suc cap) \<and> n \<le> SIZE_MAX" by blast
  show thesis
  proof (cases r)
    case None
    have "SIZE_MAX div esz \<le> SIZE_MAX" by simp
    moreover have "SIZE_MAX < 2 * (SIZE_MAX div 2) + 2" by linarith
    moreover have "SIZE_MAX div 2 < Suc cap" using rn None by simp
    ultimately have "crowded esz cap" unfolding crowded_def by linarith
    then show thesis using none r None by simp
  next
    case (Some n)
    then have n: "cap < n" "n \<le> max ?start (2 * Suc cap)" using rn by simp_all
    show thesis
    proof (cases "n > SIZE_MAX div esz")
      case True
      then have "crowded esz cap" using n by (auto simp: crowded_def split: if_splits)
      then show thesis using none r Some True by simp
    next
      case False
      then show thesis using fits r Some n(1) by simp
    qed
  qed
qed

text \<open>The new array takes over the elements, and the old one is given back.\<close>

abbreviation take_over :: "bencode_allocator option \<Rightarrow> addr option \<Rightarrow> nat \<Rightarrow> addr \<Rightarrow> nat \<Rightarrow> mem \<Rightarrow> mem option" where
  "take_over al arr esz f cap m1 \<equiv> (case arr of
       Some old \<Rightarrow> if cap > 0 then do { m3 \<leftarrow> copy_cells esz f old cap m1; bencode_free al (Some old) m3 } else Some m1
     | None \<Rightarrow> Some m1)"

lemma take_over_spec:
  assumes "wf_mem m" and "alloc_ok al" and arr: "array m al arr cap esz cs" and cap: "length cs = cap"
    and new: "moves m {} m1 {f}" "store m1 f = Some (pool_of al, Raw (n * esz))"
    and n: "cap < n" "n \<le> SIZE_MAX div esz" and "0 < esz"
  obtains m2 where "take_over al arr esz f cap m1 = Some m2" and "roomy m2 al (Some f) n esz cs"
    and "moves m (set (opt arr)) m2 {f}"
proof (cases arr)
  case None
  then have "cs = []" "cap = 0" using arr by (simp_all add: array_None)
  moreover have "roomy m1 al (Some f) n esz []" using new(2) n assms(9) by (auto simp: roomy_def)
  ultimately show thesis using that [of m1] new(1) None by simp
next
  case (Some b)
  then have pos: "0 < cap" using arr by (simp add: array_Some)
  from move_cells [OF assms(1,2) arr [unfolded Some] cap new n(1) assms(9)] obtain m3 m2 where
    m2: "copy_cells esz f b cap m1 = Some m3 \<and> bencode_free al (Some b) m3 = Some m2"
      "store m2 f = Some (pool_of al, Cells (cs @ replicate (n - cap) Uninit))" "moves m {b} m2 {f}" by blast
  have "roomy m2 al (Some f) n esz cs" using m2(2) n cap by (auto simp: roomy_def)
  then show thesis using that [of m2] Some m2 pos by simp
qed

lemma grow_array_spec:
  assumes "wf_mem m" and "alloc_ok al" and "array m al arr cap esz cs" and "0 < esz" and "esz \<le> 24"
  obtains (grown) arr' cap' m' where
      "grow_array al arr esz cap (Suc (length cs)) m = Some (BENCODE_OK, arr', cap', m')"
      and "roomy m' al arr' cap' esz cs" and "moves m (set (opt arr)) m' (set (opt arr'))"
  | (nomem) m' where "grow_array al arr esz cap (Suc (length cs)) m = Some (BENCODE_ERR_NOMEM, arr, cap, m')"
      and "moves m {} m' {}" and "\<not> granting m \<or> crowded esz (length cs)"
proof (cases "length cs < cap")
  case True
  have "moves m (set (opt arr)) m (set (opt arr))"
    using array_live [OF assms(2,3)] live_below [OF assms(1)] by (intro moves_refl [OF assms(1)]) auto
  then show thesis using grow_array_room [OF assms(3) True] grown by blast
next
  case False
  then have cap: "length cs = cap" using array_length [OF assms(3)] by simp
  have "cap \<le> SIZE_MAX" using assms(3) by (cases arr) (auto simp: array_None array_Some intro: order_trans div_le_dividend)
  then show thesis
  proof (cases rule: double_full [where esz = esz])
    case (none r)
    then have "grow_array al arr esz cap (Suc (length cs)) m = Some (BENCODE_ERR_NOMEM, arr, cap, m)"
      using cap by (simp add: grow_array_def split: option.splits)
    then show thesis using nomem none(3) cap moves_refl [OF assms(1), of "{}"] by simp
  next
    case (fits n)
    have "n * esz \<le> SIZE_MAX"
      using fits(3) by (metis div_le_mono linorder_not_less mult.commute mult_le_mono2 order_trans times_div_less_eq_dividend)
    then have go: "grow_array al arr esz cap (Suc (length cs)) m = (case bencode_alloc al (n * esz) m of
           (None, m1) \<Rightarrow> Some (BENCODE_ERR_NOMEM, arr, cap, m1)
         | (Some f, m1) \<Rightarrow> do { m2 \<leftarrow> take_over al arr esz f cap m1; Some (BENCODE_OK, Some f, n, m2) })"
      using cap fits by (simp add: grow_array_def sz_id)
    from assms(1) show thesis
    proof (cases rule: alloc_from_cases [where p = "pool_of al" and nbytes = "n * esz"])
      case (refused m1)
      then show thesis using go nomem by (simp add: bencode_alloc_pool)
    next
      case (granted f m1)
      obtain m2 where m2: "take_over al arr esz f cap m1 = Some m2" "roomy m2 al (Some f) n esz cs" "moves m (set (opt arr)) m2 {f}"
        by (rule take_over_spec [OF assms(1,2,3) cap granted(2,3) fits(2,3) assms(4)])
      have "grow_array al arr esz cap (Suc (length cs)) m = Some (BENCODE_OK, Some f, n, m2)"
        unfolding go bencode_alloc_pool granted(1) by (simp only: option.case prod.case m2(1) bind.bind_lunit)
      then show thesis using grown m2(2,3) by simp
    qed
  qed
qed

lemma write_cell_room:
  assumes "wf_mem m" and "alloc_ok al" and "roomy m al arr cap esz cs"
  obtains b m' where "arr = Some b" and "write_cell esz b (length cs) c m = Some m'"
    and "array m' al arr cap esz (cs @ [c])" and "moves m {b} m' {b}"
proof -
  from assms(3) obtain b blk rest where b: "arr = Some b" "store m b = Some (pool_of al, blk)"
    "cells_of esz blk = Some (cs @ rest)" "length (cs @ rest) = cap" "rest \<noteq> []" "cap \<le> SIZE_MAX div esz"
    by (auto simp: roomy_def)
  obtain x xs where rest: "rest = x # xs" using b(5) by (cases rest) auto
  let ?m' = "put_block b (pool_of al, Cells ((cs @ [c]) @ xs)) m"
  have "write_cell esz b (length cs) c m = Some ?m'" using b rest by (simp add: write_cell_def)
  moreover have "array ?m' al arr cap esz (cs @ [c])" using b rest by (auto simp: array_Some)
  moreover have "moves m {b} ?m' {b}" using moves_put [OF assms(1) b(2) alloc_ok_pool [OF assms(2)]] .
  ultimately show thesis using that b(1) by blast
qed

section \<open>Appending to a list\<close>

lemma sizeof_bounds [simp]: "0 < sizeof_item" "sizeof_item \<le> 24" "0 < sizeof_entry" "sizeof_entry \<le> 24"
  by (simp_all add: sizeof_defs)

lemma count_less: "array m al arr cap esz cs \<Longrightarrow> 2 \<le> esz \<Longrightarrow> Suc (length cs) \<le> SIZE_MAX"
proof -
  assume a: "array m al arr cap esz cs" and "2 \<le> esz"
  then have "SIZE_MAX div esz \<le> SIZE_MAX div 2" by (simp add: div_le_mono2)
  moreover have "length cs \<le> SIZE_MAX div esz"
    using a array_length [OF a] by (cases arr) (auto simp: array_None array_Some)
  ultimately show ?thesis by (simp add: SIZE_MAX_def)
qed

lemma crowded_mono: "crowded esz n \<Longrightarrow> n \<le> n' \<Longrightarrow> crowded esz n'"
  by (simp add: crowded_def)

lemma crowded_item: "crowded sizeof_item n \<Longrightarrow> crowded sizeof_entry n"
proof -
  have "SIZE_MAX div 24 \<le> SIZE_MAX div 8" by (rule div_le_mono2) simp_all
  then show "crowded sizeof_item n \<Longrightarrow> crowded sizeof_entry n"
    by (simp add: crowded_def sizeof_defs)
qed

lemma not_crowded: "n \<le> 2 ^ 58 \<Longrightarrow> \<not> crowded sizeof_entry n"
  by (simp add: crowded_def sizeof_defs SIZE_MAX_def)

lemma crowded_bound: "crowded sizeof_entry n \<Longrightarrow> 2 ^ 58 < n"
  using not_crowded [of n] linorder_not_less by blast

lemma list_append_shell:
  assumes "wf_mem m" and "alloc_ok al" and "list_shell m a al arr cap cs" and "a \<notin> set (opt arr)"
  obtains (appended) arr' cap' m' where "bencode_list_append (Some a) (Some c) m = Some (BENCODE_OK, m')"
      and "list_shell m' a al arr' cap' (cs @ [c])" and "a \<notin> set (opt arr')"
      and "moves m (set (a # opt arr)) m' (set (a # opt arr'))"
  | (nomem) m' where "bencode_list_append (Some a) (Some c) m = Some (BENCODE_ERR_NOMEM, m')"
      and "moves m {} m' {}" and "\<not> granting m \<or> crowded sizeof_item (length cs)"
proof -
  have node: "store m a = Some (pool_of al, Node \<lparr>valloc = al, payload = List_payload arr (length cs) cap\<rparr>)"
    and arr: "array m al arr cap sizeof_item (map Item cs)"
    using assms(3) by (simp_all add: list_shell_def)
  have rd: "read_node m a = Some \<lparr>valloc = al, payload = List_payload arr (length cs) cap\<rparr>"
    using node by (simp add: read_node_def)
  have "Suc (length cs) \<le> SIZE_MAX" using count_less [OF arr] by (simp add: sizeof_defs)
  then have sz: "sz (Suc (length cs)) = Suc (length cs)" by (rule sz_id)
  have below: "{a} \<subseteq> {..<next_addr m}" using store_below [OF assms(1) node] by simp
  from assms(1,2) arr sizeof_bounds(1,2) show thesis
  proof (cases rule: grow_array_spec)
    case (nomem m1)
    then show thesis using that(2) rd sz by (simp add: bencode_list_append_def)
  next
    case (grown arr' cap' m1)
    have mv1: "moves m (set (a # opt arr)) m1 (set (a # opt arr'))"
      using moves_frame [OF grown(3) below] assms(4) by simp
    have apart: "a \<notin> set (opt arr')" using moves_apart [OF grown(3) below] assms(4) by simp
    have node1: "store m1 a = store m a" using moves_kept [OF grown(3) below] assms(4) by simp
    from movesD(2) [OF mv1] assms(2) grown(2) show thesis
    proof (cases rule: write_cell_room [where c = "Item c"])
      case (1 b m2)
      have "{a} \<subseteq> {..<next_addr m1}" using movesD(4) [OF mv1] by simp
      from moves_kept [OF 1(4) this] have node2: "store m2 a = store m a"
        using apart 1(1) node1 by simp
      let ?v = "\<lparr>valloc = al, payload = List_payload arr' (Suc (length cs)) cap'\<rparr>"
      let ?m3 = "put_block a (pool_of al, Node ?v) m2"
      have mv2: "moves m (set (a # opt arr)) m2 (set (a # opt arr'))"
        using moves_step [OF mv1 1(4)] 1(1) apart by (simp add: insert_commute insert_Diff_if)
      have mv3: "moves m (set (a # opt arr)) ?m3 (set (a # opt arr'))"
        by (rule moves_put_fresh [OF mv2 _ _ alloc_ok_pool [OF assms(2)]]) (use node2 node in simp_all)
      have "list_shell ?m3 a al arr' cap' (cs @ [c])"
        using 1(1,3) apart by (auto simp: list_shell_def intro: array_frame)
      moreover have "bencode_list_append (Some a) (Some c) m = Some (BENCODE_OK, ?m3)"
        using rd sz grown(1) 1(1,2) node2 node by (simp add: bencode_list_append_def write_node_node)
      ultimately show thesis using that(1) mv3 apart by blast
    qed
  qed
qed

end
