(* ===== verification/Owned_Dict.thy ===== *)
theory Owned_Dict
  imports Owned_Array
begin

text \<open>
  Dictionaries: the binary search of \<open>dict_search\<close> finds the place of a key in the sorted entries, and
  \<open>bencode_dict_set\<close> inserts or replaces there.
\<close>

section \<open>Binary search\<close>

text \<open>The keys that can be read through the array.\<close>

definition readable_keys :: "mem \<Rightarrow> addr option \<Rightarrow> byte list list \<Rightarrow> bool" where
  "readable_keys m arr ks \<longleftrightarrow> (\<forall>j<length ks. \<exists>e. read_entry arr j m = Some e
     \<and> read_bytes (key_ptr (ekey e)) (ekey_len e) m = Some (ks ! j))"

text \<open>\<open>i\<close> is where \<open>k\<close> is, or would be inserted.\<close>

definition position :: "byte list list \<Rightarrow> byte list \<Rightarrow> nat \<Rightarrow> bool \<Rightarrow> bool" where
  "position ks k i found \<longleftrightarrow> i \<le> length ks \<and> (\<forall>j<i. ks ! j < k)
     \<and> (if found then i < length ks \<and> ks ! i = k else \<forall>j. i \<le> j \<and> j < length ks \<longrightarrow> k < ks ! j)"

lemma search_loop_spec:
  assumes "readable_keys m arr ks" and "sorted_wrt (<) ks" and "read_bytes key len m = Some k"
    and "lo \<le> hi" and "hi \<le> length ks"
    and "\<forall>j<lo. ks ! j < k" and "\<forall>j. hi \<le> j \<and> j < length ks \<longrightarrow> k < ks ! j"
  shows "\<exists>i found. search_loop arr key len m lo hi = Some (i, found) \<and> position ks k i found"
  using assms(4-7)
proof (induction "hi - lo" arbitrary: lo hi rule: less_induct)
  case less
  show ?case
  proof (cases "lo < hi")
    case False
    then have "search_loop arr key len m lo hi = Some (lo, False)" by (subst search_loop.simps) simp
    then show ?thesis using less.prems False by (auto simp: position_def)
  next
    case lt: True
    define mid where "mid = lo + (hi - lo) div 2"
    have mid: "lo \<le> mid" "mid < hi" using lt by (auto simp: mid_def)
    then have len: "mid < length ks" using less.prems(2) by simp
    obtain e where e: "read_entry arr mid m = Some e"
      "read_bytes (key_ptr (ekey e)) (ekey_len e) m = Some (ks ! mid)"
      using assms(1) len by (auto simp: readable_keys_def)
    let ?c = "entry_cmp (ks ! mid) k"
    have go: "search_loop arr key len m lo hi =
        (if ?c = 0 then Some (mid, True)
         else if ?c < 0 then search_loop arr key len m (mid + 1) hi
         else search_loop arr key len m lo mid)"
      using lt e assms(3) by (subst search_loop.simps) (simp add: mid_def [symmetric] Let_def)
    consider (eq) "?c = 0" | (right) "?c < 0" | (left) "?c > 0" by linarith
    then show ?thesis
    proof cases
      case eq
      then have "ks ! mid = k" by (simp add: entry_cmp.cmp_zero)
      moreover have "ks ! j < k" if "j < mid" for j
        using sorted_wrt_nth_less [OF assms(2) that len] \<open>ks ! mid = k\<close> by simp
      ultimately have "position ks k mid True" using len by (simp add: position_def)
      then show ?thesis using go eq by (intro exI [of _ mid] exI [of _ True]) simp
    next
      case right
      have "hi - (mid + 1) < hi - lo" using mid by linarith
      moreover have "\<forall>j<mid + 1. ks ! j < k"
        using entry_cmp.cmp_right [OF assms(2) len right] by simp
      ultimately have "\<exists>i found. search_loop arr key len m (mid + 1) hi = Some (i, found) \<and> position ks k i found"
        using mid less.prems(2,4) by (intro less.hyps) simp_all
      then show ?thesis using go right by simp
    next
      case left
      have "mid - lo < hi - lo" using mid by linarith
      moreover have "\<forall>j. mid \<le> j \<and> j < length ks \<longrightarrow> k < ks ! j"
        using entry_cmp.cmp_left [OF assms(2) left] by simp
      ultimately have "\<exists>i found. search_loop arr key len m lo mid = Some (i, found) \<and> position ks k i found"
        using mid less.prems(2,3) by (intro less.hyps) simp_all
      then show ?thesis using go left by simp
    qed
  qed
qed

lemma dict_search_spec:
  assumes "readable_keys m arr ks" and "sorted_wrt (<) ks" and "read_bytes key len m = Some k"
  obtains i found where "dict_search arr (length ks) key len m = Some (i, found)" and "position ks k i found"
proof -
  have "\<forall>j. length ks \<le> j \<and> j < length ks \<longrightarrow> k < ks ! j" by auto
  from search_loop_spec [OF assms _ _ _ this, of 0] show thesis
    using that by (auto simp: dict_search_def)
qed

lemma dict_shell_readable:
  assumes "dict_shell m a al arr cap es"
  shows "readable_keys m arr (map (\<lambda>(ka, k, c). k) es)"
  unfolding readable_keys_def
proof (intro allI impI)
  fix j
  assume j: "j < length (map (\<lambda>(ka, k, c). k) es)"
  obtain ka k c where e: "es ! j = (ka, k, c)" by (cases "es ! j")
  have "(ka, k, c) \<in> set es" using j e nth_mem [of j es] by simp
  then have "key_at m al ka k" using assms by (fastforce simp: dict_shell_def)
  moreover have "read_entry arr j m = Some \<lparr>ekey = ka, ekey_len = length k, evalue = c\<rparr>"
    using assms j e read_entry_array by (auto simp: dict_shell_def)
  ultimately show "\<exists>e. read_entry arr j m = Some e
      \<and> read_bytes (key_ptr (ekey e)) (ekey_len e) m = Some (map (\<lambda>(ka, k, c). k) es ! j)"
    using j e read_key by simp
qed

text \<open>The entries before and after the place.\<close>

lemma position_split:
  assumes "position (map f es) k i found"
  shows "\<forall>e\<in>set (take i es). f e < k"
    and "\<forall>e\<in>set (drop (if found then Suc i else i) es). sorted_wrt (<) (map f es) \<longrightarrow> k < f e"
proof -
  show "\<forall>e\<in>set (take i es). f e < k"
    using assms by (auto simp: position_def in_set_conv_nth)
  show "\<forall>e\<in>set (drop (if found then Suc i else i) es). sorted_wrt (<) (map f es) \<longrightarrow> k < f e"
  proof (intro ballI impI)
    fix e
    assume e: "e \<in> set (drop (if found then Suc i else i) es)" and s: "sorted_wrt (<) (map f es)"
    from e obtain j where j: "(if found then Suc i else i) \<le> j" "j < length es" "e = es ! j"
      by (auto simp: in_set_conv_nth) (metis add.commute le_add2 less_diff_conv add_Suc_right nth_drop)+
    show "k < f e"
    proof (cases found)
      case True
      then have "i < j" using j by simp
      then show ?thesis using True assms j sorted_wrt_nth_less [OF s, of i j] by (simp add: position_def)
    next
      case False
      then show ?thesis using assms j by (auto simp: position_def)
    qed
  qed
qed

section \<open>Inserting an entry\<close>

lemma copy_key_cases:
  assumes "wf_mem m" and "alloc_ok al" and "read_bytes ptr len m = Some k" and "len \<le> SIZE_MAX"
  obtains (copied) ka m1 where "copy_key al ptr len m = Some (False, ka, m1)" and "key_at m1 al ka k"
      and "moves m {} m1 (set (opt ka))"
  | (refused) m1 where "copy_key al ptr len m = Some (True, None, m1)" and "moves m {} m1 {}"
      and "\<not> granting m"
proof (cases "len = 0")
  case True
  then show thesis using assms(3) moves_refl [OF assms(1), of "{}"]
    by (intro that(1) [of None m]) (simp_all add: copy_key_def key_at_def)
next
  case False
  have len: "length k = len" using read_bytes_length [OF assms(3)] .
  from assms(1-3) show thesis
  proof (cases rule: copy_bytes_cases)
    case (granted b m1 m2)
    show thesis
      by (rule that(1) [of "Some b" m2])
        (use granted False len assms(4) in \<open>auto simp: copy_key_def key_at_def\<close>)
  next
    case (refused m1)
    then show thesis using False by (intro that(2)) (simp_all add: copy_key_def)
  qed
qed

lemma insert_cell_room:
  assumes "wf_mem m" and "alloc_ok al" and "roomy m al arr cap esz cs" and "i \<le> length cs"
  obtains b m1 m2 where "arr = Some b"
    and "(if i < length cs then shift_cells esz b i (length cs - i) m else Some m) = Some m1"
    and "write_cell esz b i c m1 = Some m2"
    and "array m2 al arr cap esz (take i cs @ c # drop i cs)" and "moves m {b} m2 {b}"
proof -
  from assms(3) obtain b blk rest where b: "arr = Some b" "store m b = Some (pool_of al, blk)"
    "cells_of esz blk = Some (cs @ rest)" "length (cs @ rest) = cap" "rest \<noteq> []" "cap \<le> SIZE_MAX div esz"
    by (auto simp: roomy_def)
  obtain x xs where rest: "rest = x # xs" using b(5) by (cases rest) auto
  let ?m2 = "put_block b (pool_of al, Cells ((take i cs @ c # drop i cs) @ xs)) m"
  have mv: "moves m {b} ?m2 {b}" using moves_put [OF assms(1) b(2) alloc_ok_pool [OF assms(2)]] .
  have arr: "array ?m2 al arr cap esz (take i cs @ c # drop i cs)"
    using b rest assms(4) by (auto simp: array_Some)
  show thesis
  proof (cases "i < length cs")
    case False
    then have i: "i = length cs" using assms(4) by simp
    have "write_cell esz b i c m = Some ?m2" using b rest i by (simp add: write_cell_def)
    then show thesis using that b(1) mv arr False by auto
  next
    case True
    let ?mid = "take (i + 1) (cs @ rest) @ take (length cs - i) (drop i (cs @ rest))
        @ drop (i + 1 + (length cs - i)) (cs @ rest)"
    let ?m1 = "put_block b (pool_of al, Cells ?mid) m"
    have mid: "?mid = take i cs @ cs ! i # drop i cs @ xs"
      using True rest by (simp add: take_Suc_conv_app_nth)
    have "shift_cells esz b i (length cs - i) m = Some ?m1"
      using b rest True by (simp add: shift_cells_def)
    moreover have "write_cell esz b i c ?m1 = Some ?m2"
      unfolding mid using True by (simp add: write_cell_def put_block_def list_update_append)
    ultimately show thesis using that b(1) mv arr True by auto
  qed
qed

text \<open>The blocks of a dictionary's own: the node, the array and the keys.\<close>

abbreviation shell_blocks :: "addr \<Rightarrow> addr option \<Rightarrow> (addr option \<times> byte list \<times> 'x) list \<Rightarrow> addr list" where
  "shell_blocks a arr es \<equiv> a # opt arr @ keys_of es"

lemma dict_shell_live:
  "alloc_ok al \<Longrightarrow> dict_shell m a al arr cap es \<Longrightarrow> b \<in> set (shell_blocks a arr es) \<Longrightarrow> live m b"
  by (fastforce simp: dict_shell_def keys_of_def intro: array_live key_live liveI)

text \<open>The steps after the array has room: the entries after the place move up, the new entry is written, and the node
  gets the new array and count.\<close>

lemma insert_entry_shell:
  assumes wf: "wf_mem m" and al: "alloc_ok al" and room: "roomy m al arr cap sizeof_entry (map entry_cell es)"
    and node: "store m a = Some (pool_of al, Node v)" "valloc v = al"
    and keys: "\<forall>(ka', k', c')\<in>set es. key_at m al ka' k'" and key: "key_at m al ka k"
    and apart: "a \<notin> set (opt arr)" "set (a # opt arr) \<inter> (set (opt ka) \<union> set (keys_of es)) = {}"
    and i: "i \<le> length es"
  obtains b m1 m2 m3 where "arr = Some b"
    and "(if i < length es then shift_cells sizeof_entry b i (length es - i) m else Some m) = Some m1"
    and "write_cell sizeof_entry b i (Entry \<lparr>ekey = ka, ekey_len = length k, evalue = c\<rparr>) m1 = Some m2"
    and "write_node a (v\<lparr>payload := Dict_payload arr (Suc (length es)) cap\<rparr>) m2 = Some m3"
    and "dict_shell m3 a al arr cap (take i es @ (ka, k, c) # drop i es)"
    and "moves m (set (a # opt arr)) m3 (set (a # opt arr))"
proof -
  let ?es' = "take i es @ (ka, k, c) # drop i es"
  let ?v = "v\<lparr>payload := Dict_payload arr (Suc (length es)) cap\<rparr>"
  have le: "i \<le> length (map entry_cell es)" using i by simp
  from wf al room le show thesis
  proof (cases rule: insert_cell_room [where c = "Entry \<lparr>ekey = ka, ekey_len = length k, evalue = c\<rparr>"])
    case (1 b m1 m2)
    let ?m3 = "put_block a (pool_of al, Node ?v) m2"
    let ?R = "insert a (set (opt ka) \<union> set (keys_of es))"
    have R: "?R \<subseteq> {..<next_addr m}"
      using store_below [OF wf node(1)] key_live [OF al] key keys live_below [OF wf] by (fastforce simp: keys_of_def)
    have Rb: "?R \<inter> {b} = {}" using apart 1(1) by auto
    have kept: "store m2 x = store m x" if "x \<in> ?R" for x using moves_kept [OF 1(5) R Rb that] .
    have node2: "store m2 a = Some (pool_of al, Node v)" using kept [of a] node(1) by simp
    have key_kept: "key_at ?m3 al ka' k'" if "key_at m al ka' k'" "set (opt ka') \<subseteq> set (opt ka) \<union> set (keys_of es)" for ka' k'
    proof (rule key_at_frame [OF that(1)])
      show "store ?m3 x = store m x" if "ka' = Some x" for x
        using kept [of x] apart(2) \<open>set (opt ka') \<subseteq> _\<close> that by auto
    qed
    have "key_at ?m3 al ka' k'" if e: "(ka', k', c') \<in> set ?es'" for ka' k' c'
    proof -
      consider "(ka', k', c') = (ka, k, c)" | "(ka', k', c') \<in> set es"
        using e by (auto dest: in_set_takeD in_set_dropD)
      then show ?thesis
      proof cases
        case 2
        then show ?thesis using keys in_keys_of [OF 2] by (intro key_kept) auto
      qed (use key in \<open>auto intro: key_kept\<close>)
    qed
    moreover have "array ?m3 al arr cap sizeof_entry (map entry_cell ?es')"
      using 1(1,4) apart(1) by (auto simp: entry_cell_def take_map drop_map intro: array_frame)
    ultimately have "dict_shell ?m3 a al arr cap ?es'" using node(2) i by (auto simp: dict_shell_def)
    moreover have "write_node a ?v m2 = Some ?m3" using node2 by (simp add: write_node_node)
    moreover have "moves m (set (a # opt arr)) ?m3 (set (a # opt arr))"
    proof (rule moves_put_fresh [OF _ _ node2 alloc_ok_pool [OF al]])
      have "{a} \<subseteq> {..<next_addr m}" "{a} \<inter> {b} = {}" using R Rb by auto
      then show "moves m (set (a # opt arr)) m2 (set (a # opt arr))"
        using moves_frame [OF 1(5), of "{a}"] 1(1) by (simp add: insert_commute)
    qed simp
    ultimately show thesis using that [OF 1(1) _ 1(3)] 1(2) by (simp only: length_map)
  qed
qed

text \<open>The dictionary after the key was copied, and after its array was moved.\<close>

lemma key_copied:
  assumes "wf_mem m" and "alloc_ok al" and "dict_shell m a al arr cap es" and "distinct (shell_blocks a arr es)"
    and "moves m {} m1 (set (opt ka))"
  shows "b \<in> set (shell_blocks a arr es) \<Longrightarrow> store m1 b = store m b"
    and "set (opt ka) \<inter> set (shell_blocks a arr es) = {}"
    and "set (opt ka) \<union> set (shell_blocks a arr es) \<subseteq> {..<next_addr m1}"
    and "moves m (set (a # opt arr)) m1 (set (opt ka) \<union> set (a # opt arr))"
    and "array m1 al arr cap sizeof_entry (map entry_cell es)"
proof -
  have old: "set (shell_blocks a arr es) \<subseteq> {..<next_addr m}"
    using dict_shell_live [OF assms(2,3)] live_below [OF assms(1)] by blast
  show kept: "store m1 b = store m b" if "b \<in> set (shell_blocks a arr es)" for b
    using moves_kept [OF assms(5) old _ that] by simp
  show "set (opt ka) \<inter> set (shell_blocks a arr es) = {}" using moves_apart [OF assms(5) old] by blast
  show "set (opt ka) \<union> set (shell_blocks a arr es) \<subseteq> {..<next_addr m1}"
    using movesD(4) [OF assms(5)] moves_below [OF assms(5) old] by blast
  show "moves m (set (a # opt arr)) m1 (set (opt ka) \<union> set (a # opt arr))"
    using moves_frame [OF assms(5), of "set (a # opt arr)"] old by simp
  have "array m al arr cap sizeof_entry (map entry_cell es)" using assms(3) by (simp add: dict_shell_def)
  then show "array m1 al arr cap sizeof_entry (map entry_cell es)" by (rule array_frame) (use kept in simp)
qed

lemma array_moved:
  assumes "wf_mem m" and "alloc_ok al" and "dict_shell m a al arr cap es" and "distinct (shell_blocks a arr es)"
    and "moves m {} m1 (set (opt ka))" and "key_at m1 al ka k" and "moves m1 (set (opt arr)) m2 (set (opt arr'))"
  shows "store m2 a = store m a" and "\<forall>(ka', k', c')\<in>set es. key_at m2 al ka' k'" and "key_at m2 al ka k"
    and "a \<notin> set (opt arr')" and "set (a # opt arr') \<inter> (set (opt ka) \<union> set (keys_of es)) = {}"
    and "moves m (set (a # opt arr)) m2 (set (a # opt arr' @ opt ka))" and "distinct (a # opt arr' @ opt ka)"
proof -
  note old = key_copied [OF assms(1-5)]
  let ?R = "insert a (set (opt ka) \<union> set (keys_of es))"
  have R: "?R \<subseteq> {..<next_addr m1}" "?R \<inter> set (opt arr) = {}" using old(2,3) assms(4) by auto
  have R': "?R \<inter> set (opt arr') = {}" using moves_apart [OF assms(7) R] .
  have kept: "store m2 b = store m1 b" if "b \<in> ?R" for b using moves_kept [OF assms(7) R that] .
  show "store m2 a = store m a" using kept [of a] old(1) [of a] by simp
  show "key_at m2 al ka k" by (rule key_at_frame [OF assms(6)]) (use kept in simp)
  have "key_at m2 al ka' k'" if e: "(ka', k', c') \<in> set es" for ka' k' c'
  proof (rule key_at_frame)
    show "key_at m al ka' k'" using assms(3) e by (auto simp: dict_shell_def)
    show "store m2 x = store m x" if "ka' = Some x" for x
      using old(1) [of x] kept [of x] in_keys_of [OF e] that by simp
  qed
  then show "\<forall>(ka', k', c')\<in>set es. key_at m2 al ka' k'" by blast
  show "a \<notin> set (opt arr')" "set (a # opt arr') \<inter> (set (opt ka) \<union> set (keys_of es)) = {}"
    using R' old(2) assms(4) by auto
  show "distinct (a # opt arr' @ opt ka)" using R' old(2) by (cases arr'; cases ka) auto
  have "set (opt arr') \<union> (set (opt ka) \<union> set (a # opt arr) - set (opt arr)) = set (a # opt arr' @ opt ka)"
    using old(2) assms(4) by auto
  then show "moves m (set (a # opt arr)) m2 (set (a # opt arr' @ opt ka))" using moves_step [OF old(4) assms(7)] by auto
qed

lemma dict_insert_shell:
  assumes "wf_mem m" and "alloc_ok al" and "dict_shell m a al arr cap es"
    and "distinct (shell_blocks a arr es)" and "read_bytes ptr len m = Some k" and "len \<le> SIZE_MAX"
    and "i \<le> length es" and "v = \<lparr>valloc = al, payload = Dict_payload arr (length es) cap\<rparr>"
  obtains (inserted) arr' cap' ka m' where "dict_insert a v i ptr len c m = Some (BENCODE_OK, m')"
      and "dict_shell m' a al arr' cap' (take i es @ (ka, k, c) # drop i es)"
      and "moves m (set (a # opt arr)) m' (set (a # opt arr' @ opt ka))"
      and "distinct (a # opt arr' @ opt ka)"
  | (nomem) m' where "dict_insert a v i ptr len c m = Some (BENCODE_ERR_NOMEM, m')"
      and "moves m {} m' {}" and "\<not> granting m \<or> crowded sizeof_entry (length es)"
proof -
  have node: "store m a = Some (pool_of al, Node v)"
    and arr: "array m al arr cap sizeof_entry (map entry_cell es)"
    using assms(3,8) by (auto simp: dict_shell_def)
  have pl: "valloc v = al" "payload v = Dict_payload arr (length es) cap" using assms(8) by simp_all
  have "Suc (length es) \<le> SIZE_MAX" using count_less [OF arr] by (simp add: sizeof_defs)
  then have sz: "sz (Suc (length es)) = Suc (length es)" by (rule sz_id)
  have len_k: "length k = len" using read_bytes_length [OF assms(5)] .
  from assms(1,2,5,6) show thesis
  proof (cases rule: copy_key_cases)
    case (refused m1)
    then show thesis using that(2) by (simp add: dict_insert_def pl)
  next
    case (copied ka m1)
    note old = key_copied [OF assms(1-4) copied(3)]
    from movesD(2) [OF copied(3)] assms(2) old(5) sizeof_bounds(3,4) show thesis
    proof (cases rule: grow_array_spec)
      case (nomem m2)
      have "store m2 b = store m1 b" if "ka = Some b" for b
        using moves_kept [OF nomem(2) movesD(4) [OF copied(3)]] that by simp
      then have "\<And>b. ka = Some b \<Longrightarrow> \<exists>blk. store m2 b = Some (pool_of al, blk)"
        using key_at_store copied(2) by metis
      with movesD(2) [OF nomem(2)] assms(2) obtain m3 where m3: "bencode_free al ka m2 = Some m3"
        and mv3: "moves m2 (set (opt ka)) m3 {}" by (rule bencode_free_moves)
      have "moves m {} m2 (set (opt ka))" using moves_step [OF copied(3) nomem(2)] by simp
      then have "moves m {} m3 {}" using moves_trans mv3 by blast
      moreover have "dict_insert a v i ptr len c m = Some (BENCODE_ERR_NOMEM, m3)"
        using copied nomem m3 sz by (simp add: dict_insert_def pl)
      ultimately show thesis using that(2) nomem(3) moves_granting [OF copied(3)] by simp
    next
      case (grown arr' cap' m2)
      note new = array_moved [OF assms(1-4) copied(3,2) grown(3)]
      have node2: "store m2 a = Some (pool_of al, Node v)" using new(1) node by simp
      from movesD(2) [OF new(6)] assms(2) grown(2) node2 pl(1) new(2,3,4,5) assms(7) show thesis
      proof (cases rule: insert_entry_shell [where c = c])
        case (1 b m3 m4 m5)
        have "moves m (set (a # opt arr)) m5 (set (a # opt arr') \<union> (set (a # opt arr' @ opt ka) - set (a # opt arr')))"
          by (rule moves_step [OF new(6) 1(6)]) auto
        moreover have "set (a # opt arr') \<union> (set (a # opt arr' @ opt ka) - set (a # opt arr')) = set (a # opt arr' @ opt ka)"
          by auto
        ultimately have mv: "moves m (set (a # opt arr)) m5 (set (a # opt arr' @ opt ka))" by simp
        have g: "grow_array al arr sizeof_entry cap (sz (length es + 1)) m1 = Some (BENCODE_OK, arr', cap', m2)"
          using grown(1) sz by simp
        have w: "write_node a (v\<lparr>payload := Dict_payload arr' (sz (length es + 1)) cap'\<rparr>) m4 = Some m5"
          using 1(4) sz by simp
        have "dict_insert a v i ptr len c m = Some (BENCODE_OK, m5)"
          using g w by (simp add: dict_insert_def pl copied(1) 1(1) 1(2) 1(3) [unfolded len_k] del: One_nat_def add_Suc_right)
        then show thesis by (rule that(1) [OF _ 1(5) mv new(7)])
      qed
    qed
  qed
qed

end
