(* ===== verification/Owned_Trees.thy ===== *)
theory Owned_Trees
  imports Owned_Dict
begin

text \<open>
  The list and dictionary builders on owned trees: \<open>bencode_list_append\<close> and \<open>bencode_dict_set\<close> take over
  the child, and on failure leave list, dictionary and child as they were.
\<close>

section \<open>Lists\<close>

lemma list_append_tree:
  assumes "wf_mem m" and "owned m (GList a al arr cap ts)" and "owned m t"
    and "set (blocks (GList a al arr cap ts)) \<inter> set (blocks t) = {}"
  obtains (appended) arr' cap' m' where
      "bencode_list_append (Some a) (Some (root t)) m = Some (BENCODE_OK, m')"
      and "owned m' (GList a al arr' cap' (ts @ [t]))"
      and "moves m (set (blocks (GList a al arr cap ts)) \<union> set (blocks t)) m'
             (set (blocks (GList a al arr' cap' (ts @ [t]))))"
  | (nomem) m' where "bencode_list_append (Some a) (Some (root t)) m = Some (BENCODE_ERR_NOMEM, m')"
      and "moves m {} m' {}" and "\<not> granting m \<or> crowded sizeof_item (length ts)"
proof -
  have al: "alloc_ok al" and sh: "list_shell m a al arr cap (map root ts)" and ts: "\<forall>t\<in>set ts. holds m t"
    and dist: "distinct (a # opt arr @ concat (map blocks ts))"
    using assms(2) by (auto simp: owned_def)
  have t: "holds m t" and dist_t: "distinct (blocks t)" using assms(3) by (simp_all add: owned_def)
  have a: "a \<notin> set (opt arr)" using dist by simp
  from assms(1) al sh a show thesis
  proof (cases rule: list_append_shell [where c = "root t"])
    case (nomem m')
    then show thesis using that(2) by simp
  next
    case (appended arr' cap' m')
    let ?R = "set (concat (map blocks ts)) \<union> set (blocks t)"
    have R: "?R \<subseteq> {..<next_addr m}"
      using ts holds_below [OF assms(1)] t by fastforce
    have RF: "?R \<inter> set (a # opt arr) = {}" using dist assms(4) by auto
    have RF': "?R \<inter> set (a # opt arr') = {}" using moves_apart [OF appended(4) R RF] .
    have "holds m' x" if "x \<in> set (ts @ [t])" for x
    proof (rule holds_moves [OF _ appended(4)])
      show "holds m x" using that ts t by auto
      show "set (blocks x) \<inter> set (a # opt arr) = {}" using that RF by fastforce
    qed
    moreover have "distinct (blocks (GList a al arr' cap' (ts @ [t])))"
    proof -
      have "distinct (concat (map blocks ts) @ blocks t)" using dist dist_t assms(4) by auto
      moreover have "distinct (a # opt arr')" using appended(3) by (cases arr') auto
      ultimately show ?thesis using RF' by auto
    qed
    ultimately have "owned m' (GList a al arr' cap' (ts @ [t]))"
      using al appended(2) by (auto simp: owned_def)
    moreover have "moves m (set (blocks (GList a al arr cap ts)) \<union> set (blocks t)) m'
        (set (blocks (GList a al arr' cap' (ts @ [t]))))"
    proof -
      have "set (blocks (GList a al arr cap ts)) \<union> set (blocks t) = set (a # opt arr) \<union> ?R"
        and "set (blocks (GList a al arr' cap' (ts @ [t]))) = set (a # opt arr') \<union> ?R"
        by auto
      then show ?thesis using moves_frame [OF appended(4) R RF] by (simp only:)
    qed
    ultimately show thesis using that(1) appended(1) by blast
  qed
qed

section \<open>Dictionaries\<close>

lemma set_entry_blocks: "set (concat (map entry_blocks es))
   = set (keys_of es) \<union> (\<Union>(ka, k, t)\<in>set es. set (blocks t))"
  by (induction es) (auto simp: entry_blocks_def)

lemma keys_of_shell [simp]: "keys_of (shell_entries es) = keys_of es"
  by (induction es) (auto split: prod.splits)

lemma distinct_entries:
  "distinct (concat (map entry_blocks es)) \<Longrightarrow> distinct (keys_of es)
     \<and> set (keys_of es) \<inter> (\<Union>(ka, k, t)\<in>set es. set (blocks t)) = {}"
proof (induction es)
  case (Cons e es)
  obtain ka k t where e: "e = (ka, k, t)" by (cases e)
  have "distinct (opt ka @ blocks t @ concat (map entry_blocks es))"
    using Cons.prems e by (simp add: entry_blocks_def)
  then show ?case using Cons.IH e unfolding distinct_append set_append set_entry_blocks by auto
qed simp

lemma sorted_wrt_insert:
  fixes k :: "'a :: order"
  assumes "sorted_wrt (<) (xs @ ys)" and "\<forall>x\<in>set xs. x < k" and "\<forall>y\<in>set ys. k < y"
  shows "sorted_wrt (<) (xs @ k # ys)"
  using assms by (auto simp: sorted_wrt_append intro: less_trans)

lemma distinct_between:
  assumes "distinct (xs @ ys)" and "set (xs @ ys) \<inter> set ts = {}" and "distinct ts"
    and "distinct (ns @ ks)" and "set (ns @ ks) \<inter> (set (xs @ ys) \<union> set ts) = {}"
  shows "distinct (ns @ xs @ (ks @ ts) @ ys)"
  using assms by auto

lemma owned_dict:
  assumes "owned m (GDict a al arr cap es)"
  shows "alloc_ok al" and "dict_shell m a al arr cap (shell_entries es)"
    and "sorted_wrt (<) (map (\<lambda>(ka, k, t). k) es)" and "\<forall>(ka, k, t)\<in>set es. holds m t"
    and "distinct (a # opt arr @ concat (map entry_blocks es))"
    and "distinct (shell_blocks a arr (shell_entries es))"
proof -
  show own: "alloc_ok al" "dict_shell m a al arr cap (shell_entries es)" "sorted_wrt (<) (map (\<lambda>(ka, k, t). k) es)"
    "\<forall>(ka, k, t)\<in>set es. holds m t" "distinct (a # opt arr @ concat (map entry_blocks es))"
    using assms by (auto simp: owned_def blocks_GDict simp del: blocks.simps)
  have "distinct (keys_of es)" using distinct_entries [of es] own(5) by simp
  then show "distinct (shell_blocks a arr (shell_entries es))"
    unfolding keys_of_shell using own(5) by (auto simp: set_entry_blocks simp del: set_concat)
qed

text \<open>The dictionary after a new entry took the place of the entries \<open>mid\<close>: the other entries and the new child come
  through whatever was done to the node, the array, the new key and the blocks of \<open>mid\<close>.\<close>

lemma dict_with_entry:
  assumes wf: "wf_mem m" and own: "owned m (GDict a al arr cap es)" and t: "owned m t"
    and apart: "set (blocks (GDict a al arr cap es)) \<inter> set (blocks t) = {}" and es: "es = xs @ mid @ ys"
    and shell: "dict_shell m' a al arr' cap' (shell_entries (xs @ (ka, k, t) # ys))"
    and mv: "moves m (set (a # opt arr) \<union> set (concat (map entry_blocks mid))) m' (set (a # opt arr' @ opt ka))"
    and dist: "distinct (a # opt arr' @ opt ka)"
    and sorted: "sorted_wrt (<) (map (\<lambda>(ka, k, t). k) (xs @ (ka, k, t) # ys))"
  shows "owned m' (GDict a al arr' cap' (xs @ (ka, k, t) # ys))"
    and "moves m (set (blocks (GDict a al arr cap es)) \<union> set (blocks t)) m'
           (set (blocks (GDict a al arr' cap' (xs @ (ka, k, t) # ys))))"
proof -
  let ?es' = "xs @ (ka, k, t) # ys" and ?B = "\<lambda>es. concat (map entry_blocks es)"
  let ?R = "set (?B xs) \<union> set (?B ys) \<union> set (blocks t)"
  have ht: "holds m t" "distinct (blocks t)" using t by (simp_all add: owned_def)
  have all: "set (blocks (GDict a al arr cap es)) = set (a # opt arr) \<union> set (?B mid) \<union> (set (?B xs) \<union> set (?B ys))"
    unfolding blocks_GDict es by auto
  have new: "set (blocks (GDict a al arr' cap' ?es')) = set (a # opt arr' @ opt ka) \<union> ?R"
    "blocks (GDict a al arr' cap' ?es') = (a # opt arr') @ ?B xs @ (opt ka @ blocks t) @ ?B ys"
    unfolding blocks_GDict by (auto simp: entry_blocks_def)
  have old: "distinct ((a # opt arr) @ ?B xs @ ?B mid @ ?B ys)" using owned_dict(5) [OF own] unfolding es by simp
  have R: "?R \<subseteq> {..<next_addr m}"
    using holds_below [OF wf, of "GDict a al arr cap es"] own holds_below [OF wf ht(1)] unfolding owned_def all by blast
  have RF: "?R \<inter> (set (a # opt arr) \<union> set (?B mid)) = {}"
    using old apart [unfolded all] by auto
  have RF': "?R \<inter> set (a # opt arr' @ opt ka) = {}" by (rule moves_apart [OF mv R RF])
  have "holds m' x" if "(ka', k', x) \<in> set ?es'" for ka' k' x
  proof (rule holds_moves [OF _ mv])
    show "holds m x" using that owned_dict(4) [OF own] ht(1) unfolding es by fastforce
    have "set (blocks x) \<subseteq> ?R" using that by (auto simp: set_entry_blocks simp del: set_concat)
    then show "set (blocks x) \<inter> (set (a # opt arr) \<union> set (?B mid)) = {}" using RF by blast
  qed
  moreover have "distinct (blocks (GDict a al arr' cap' ?es'))"
    unfolding new(2)
  proof (rule distinct_between [OF _ _ ht(2)])
    show "distinct (?B xs @ ?B ys)" using old by auto
    show "set (?B xs @ ?B ys) \<inter> set (blocks t) = {}" using apart [unfolded all] by auto
    show "distinct ((a # opt arr') @ opt ka)" using dist by simp
    show "set ((a # opt arr') @ opt ka) \<inter> (set (?B xs @ ?B ys) \<union> set (blocks t)) = {}" using RF' by auto
  qed
  ultimately show "owned m' (GDict a al arr' cap' ?es')"
    using owned_dict(1) [OF own] shell sorted by (auto simp: owned_def simp del: blocks.simps)
  show "moves m (set (blocks (GDict a al arr cap es)) \<union> set (blocks t)) m' (set (blocks (GDict a al arr' cap' ?es')))"
    using moves_frame [OF mv R RF] unfolding all new(1) by (simp add: Un_ac)
qed

lemma dict_set_tree_new:
  assumes "wf_mem m" and "owned m (GDict a al arr cap es)" and "owned m t"
    and "set (blocks (GDict a al arr cap es)) \<inter> set (blocks t) = {}"
    and "read_bytes ptr len m = Some k" and "len \<le> SIZE_MAX"
    and es: "es = xs @ ys" and xs: "\<forall>(ka, k', t)\<in>set xs. k' < k" and ys: "\<forall>(ka, k', t)\<in>set ys. k < k'"
    and v: "v = \<lparr>valloc = al, payload = Dict_payload arr (length es) cap\<rparr>"
  obtains (inserted) arr' cap' ka m' where
      "dict_insert a v (length xs) ptr len (root t) m = Some (BENCODE_OK, m')"
      and "owned m' (GDict a al arr' cap' (xs @ (ka, k, t) # ys))"
      and "moves m (set (blocks (GDict a al arr cap es)) \<union> set (blocks t)) m'
             (set (blocks (GDict a al arr' cap' (xs @ (ka, k, t) # ys))))"
  | (nomem) m' where "dict_insert a v (length xs) ptr len (root t) m = Some (BENCODE_ERR_NOMEM, m')"
      and "moves m {} m' {}" and "\<not> granting m \<or> crowded sizeof_entry (length es)"
proof -
  note own = owned_dict [OF assms(2)]
  have v': "v = \<lparr>valloc = al, payload = Dict_payload arr (length (shell_entries es)) cap\<rparr>" using v by simp
  have le: "length xs \<le> length (shell_entries es)" using es by simp
  from assms(1) own(1,2,6) assms(5,6) le v' show thesis
  proof (cases rule: dict_insert_shell [where c = "root t"])
    case (nomem m')
    then show thesis using that(2) by simp
  next
    case (inserted arr' cap' ka m')
    let ?f = "\<lambda>(ka :: addr option, k, t :: gtree). k"
    have shell: "dict_shell m' a al arr' cap' (shell_entries (xs @ (ka, k, t) # ys))"
      using inserted(2) es by simp
    have sorted: "sorted_wrt (<) (map ?f (xs @ (ka, k, t) # ys))"
    proof -
      have x: "\<forall>x\<in>set (map ?f xs). x < k" and y: "\<forall>y\<in>set (map ?f ys). k < y" using xs ys by auto
      show ?thesis unfolding map_append list.map prod.case
        by (rule sorted_wrt_insert [OF own(3) [unfolded es map_append] x y])
    qed
    have split: "es = xs @ [] @ ys" using es by simp
    have mv: "moves m (set (a # opt arr) \<union> set (concat (map entry_blocks []))) m' (set (a # opt arr' @ opt ka))"
      using inserted(3) by simp
    show thesis by (rule that(1) [OF inserted(1) dict_with_entry [OF assms(1-4) split shell mv inserted(4) sorted]])
  qed
qed

text \<open>Overwriting an element.\<close>

lemma write_cell_array:
  assumes "wf_mem m" and "alloc_ok al" and "array m al (Some b) cap esz cs" and "i < length cs"
  obtains m' where "write_cell esz b i c m = Some m'" and "array m' al (Some b) cap esz (cs[i := c])"
    and "moves m {b} m' {b}"
proof -
  from assms(3) obtain rest where b: "store m b = Some (pool_of al, Cells (cs @ rest))"
    and cap: "0 < cap" "cap \<le> SIZE_MAX div esz" "length (cs @ rest) = cap" by (auto simp: array_Some)
  let ?m' = "put_block b (pool_of al, Cells (cs[i := c] @ rest)) m"
  have "write_cell esz b i c m = Some ?m'" using b assms(4) by (simp add: write_cell_def list_update_append)
  moreover have "array ?m' al (Some b) cap esz (cs[i := c])" using cap by (auto simp: array_Some)
  ultimately show thesis using that moves_put [OF assms(1) b alloc_ok_pool [OF assms(2)]] by blast
qed

lemma write_entry_shell:
  assumes wf: "wf_mem m" and al: "alloc_ok al" and sh: "dict_shell m a al arr cap (xs @ (ka, k, c0) # ys)"
    and dist: "distinct (shell_blocks a arr (xs @ (ka, k, c0) # ys))"
  obtains b m' where "arr = Some b"
    and "read_entry arr (length xs) m = Some \<lparr>ekey = ka, ekey_len = length k, evalue = c0\<rparr>"
    and "write_cell sizeof_entry b (length xs) (Entry \<lparr>ekey = ka, ekey_len = length k, evalue = c\<rparr>) m = Some m'"
    and "dict_shell m' a al arr cap (xs @ (ka, k, c) # ys)" and "moves m {b} m' {b}"
proof -
  let ?es = "xs @ (ka, k, c0) # ys" and ?c = "Entry \<lparr>ekey = ka, ekey_len = length k, evalue = c\<rparr>"
  have arr: "array m al arr cap sizeof_entry (map entry_cell ?es)" using sh by (simp add: dict_shell_def)
  then obtain b where b: "arr = Some b" by (cases arr) (auto simp: array_None)
  have rd: "read_entry arr (length xs) m = Some \<lparr>ekey = ka, ekey_len = length k, evalue = c0\<rparr>"
    by (rule read_entry_array [OF arr]) simp_all
  have len: "length xs < length (map entry_cell ?es)" by simp
  obtain m' where m': "write_cell sizeof_entry b (length xs) ?c m = Some m'"
    "array m' al (Some b) cap sizeof_entry ((map entry_cell ?es)[length xs := ?c])" "moves m {b} m' {b}"
    by (rule write_cell_array [OF wf al arr [unfolded b] len])
  have cells: "(map entry_cell ?es)[length xs := ?c] = map entry_cell (xs @ (ka, k, c) # ys)"
    by (simp add: list_update_append entry_cell_def)
  have kept: "store m' x = store m x" if "x \<in> set (a # keys_of ?es)" for x
  proof (rule moves_kept [OF m'(3) _ _ that])
    show "set (a # keys_of ?es) \<subseteq> {..<next_addr m}" using dict_shell_live [OF al sh] live_below [OF wf] by auto
    show "set (a # keys_of ?es) \<inter> {b} = {}" using dist b by auto
  qed
  have "key_at m' al ka' k'" if e: "(ka', k', x) \<in> set ?es" for ka' k' x
  proof (rule key_at_frame)
    show "key_at m al ka' k'" using sh e by (fastforce simp: dict_shell_def)
    show "store m' y = store m y" if "ka' = Some y" for y using kept [of y] in_keys_of [OF e, of y] that by simp
  qed
  then have "dict_shell m' a al arr cap (xs @ (ka, k, c) # ys)"
    using sh m'(2) kept [of a] unfolding cells b by (auto simp: dict_shell_def)
  then show thesis using that b rd m' by blast
qed

lemma dict_set_tree_old:
  assumes "wf_mem m" and "owned m (GDict a al arr cap es)" and "owned m t"
    and "set (blocks (GDict a al arr cap es)) \<inter> set (blocks t) = {}"
    and es: "es = xs @ (ka, k, old) # ys"
  obtains m' where "dict_replace arr (length xs) (root t) m = Some (BENCODE_OK, m')"
    and "owned m' (GDict a al arr cap (xs @ (ka, k, t) # ys))"
    and "moves m (set (blocks (GDict a al arr cap es)) \<union> set (blocks t)) m'
           (set (blocks (GDict a al arr cap (xs @ (ka, k, t) # ys))))"
proof -
  note own = owned_dict [OF assms(2)]
  let ?se = "xs @ [(ka, k, old)] @ ys"
  let ?S = "set (a # opt arr @ opt ka)" and ?K = "set (shell_blocks a arr (shell_entries es))"
  have split: "es = ?se" using es by simp
  have old: "owned m old" and apart: "?K \<inter> set (blocks old) = {}" and dist: "distinct (a # opt arr @ opt ka)"
    using own(4,5) distinct_entries [of es] unfolding split
    by (auto simp: owned_def entry_blocks_def set_entry_blocks simp del: set_concat)
  have K: "?K \<subseteq> {..<next_addr m}" using dict_shell_live [OF own(1,2)] live_below [OF assms(1)] by blast
  obtain m1 where m1: "bencode_value_free (Some (root old)) m = Some m1"
    and mv1: "moves m (set (blocks old)) m1 {}" by (rule bencode_value_free_spec [OF assms(1) old])
  have sh1: "dict_shell m1 a al arr cap (shell_entries es)"
    by (rule dict_shell_frame [OF own(2)]) (rule moves_kept [OF mv1 K apart])
  have entries: "shell_entries es = shell_entries xs @ (ka, k, root old) # shell_entries ys" unfolding es by simp
  from movesD(2) [OF mv1] own(1) sh1 [unfolded entries] own(6) [unfolded entries] obtain b m2 where b: "arr = Some b"
    and rd: "read_entry arr (length xs) m1 = Some \<lparr>ekey = ka, ekey_len = length k, evalue = root old\<rparr>"
    and wr: "write_cell sizeof_entry b (length xs) (Entry \<lparr>ekey = ka, ekey_len = length k, evalue = root t\<rparr>) m1 = Some m2"
    and sh2: "dict_shell m2 a al arr cap (shell_entries (xs @ (ka, k, t) # ys))" and mv2: "moves m1 {b} m2 {b}"
    by (rule write_entry_shell [where c = "root t"]) simp
  have "array m al arr cap sizeof_entry (map entry_cell (shell_entries es))" using own(2) by (simp add: dict_shell_def)
  then have "read_entry arr (length xs) m = Some \<lparr>ekey = ka, ekey_len = length k, evalue = root old\<rparr>"
    by (rule read_entry_array) (simp_all add: es nth_append)
  then have run: "dict_replace arr (length xs) (root t) m = Some (BENCODE_OK, m2)"
    using m1 rd wr b by (simp add: dict_replace_def)
  have S: "?S \<subseteq> ?K" unfolding es by auto
  then have "moves m (set (blocks old) \<union> ?S) m1 ({} \<union> ?S)"
    using K apart by (intro moves_frame [OF mv1]) auto
  then have "moves m (set (blocks old) \<union> ?S) m2 ({b} \<union> ({} \<union> ?S - {b}))"
    by (rule moves_step [OF _ mv2]) (use b in simp)
  moreover have "{b} \<union> ({} \<union> ?S - {b}) = ?S" using b by auto
  moreover have "set (blocks old) \<union> ?S = set (a # opt arr) \<union> set (concat (map entry_blocks [(ka, k, old)]))"
    by (auto simp: entry_blocks_def)
  ultimately have mv: "moves m (set (a # opt arr) \<union> set (concat (map entry_blocks [(ka, k, old)]))) m2 ?S" by simp
  have sorted: "sorted_wrt (<) (map (\<lambda>(ka, k, t). k) (xs @ (ka, k, t) # ys))" using own(3) es by simp
  show thesis by (rule that [OF run dict_with_entry [OF assms(1-4) split sh2 mv dist sorted]])
qed

text \<open>\<open>bencode_dict_set\<close> on an owned dictionary: \<open>xs\<close> are the entries before the key, \<open>mid\<close> the entry with
  that key, if there is one, and \<open>ys\<close> the entries after it.\<close>

lemma dict_set_tree:
  assumes "wf_mem m" and "owned m (GDict a al arr cap es)" and "owned m t"
    and "set (blocks (GDict a al arr cap es)) \<inter> set (blocks t) = {}"
    and "read_bytes ptr len m = Some k" and "len \<le> SIZE_MAX"
  obtains (inserted) arr' cap' ka xs mid ys m' where "es = xs @ mid @ ys"
      and "\<forall>(ka, k', t)\<in>set xs. k' < k" and "\<forall>(ka, k', t)\<in>set mid. k' = k" and "\<forall>(ka, k', t)\<in>set ys. k < k'"
      and "bencode_dict_set (Some a) ptr len (Some (root t)) m = Some (BENCODE_OK, m')"
      and "owned m' (GDict a al arr' cap' (xs @ (ka, k, t) # ys))"
      and "moves m (set (blocks (GDict a al arr cap es)) \<union> set (blocks t)) m'
             (set (blocks (GDict a al arr' cap' (xs @ (ka, k, t) # ys))))"
  | (nomem) m' where "bencode_dict_set (Some a) ptr len (Some (root t)) m = Some (BENCODE_ERR_NOMEM, m')"
      and "moves m {} m' {}" and "\<not> granting m \<or> crowded sizeof_entry (length es)"
proof -
  let ?f = "\<lambda>(ka, k, t). k"
  let ?v = "\<lparr>valloc = al, payload = Dict_payload arr (length es) cap\<rparr>"
  have sh: "dict_shell m a al arr cap (shell_entries es)" and sorted: "sorted_wrt (<) (map ?f es)"
    using assms(2) by (simp_all add: owned_def del: blocks.simps)
  have keys: "map (\<lambda>(ka, k, c). k) (shell_entries es) = map ?f es" by (simp add: case_prod_unfold)
  have rd: "readable_keys m arr (map ?f es)" using dict_shell_readable [OF sh] unfolding keys .
  have node: "read_node m a = Some ?v" using sh by (simp add: dict_shell_def read_node_def)
  have ptr: "\<not> (ptr = BNull \<and> len \<noteq> 0)" using assms(5) by (auto simp: read_bytes_def split: if_splits)
  obtain i found where s: "dict_search arr (length (map ?f es)) ptr len m = Some (i, found)"
    and pos: "position (map ?f es) k i found" by (rule dict_search_spec [OF rd sorted assms(5)])
  note sp = position_split [OF pos]
  have go: "bencode_dict_set (Some a) ptr len (Some (root t)) m
      = (if found then dict_replace arr i (root t) m else dict_insert a ?v i ptr len (root t) m)"
    using node ptr s by (auto simp: bencode_dict_set_def)
  show thesis
  proof (cases found)
    case True
    then have i: "i < length es" and k: "?f (es ! i) = k" using pos by (auto simp: position_def)
    obtain ka old where ei: "es ! i = (ka, k, old)" using k by (cases "es ! i") auto
    have es: "es = take i es @ (ka, k, old) # drop (Suc i) es" using i ei id_take_nth_drop by metis
    obtain m' where m': "dict_replace arr (length (take i es)) (root t) m = Some (BENCODE_OK, m')"
      and own: "owned m' (GDict a al arr cap (take i es @ (ka, k, t) # drop (Suc i) es))"
      and mv: "moves m (set (blocks (GDict a al arr cap es)) \<union> set (blocks t)) m'
           (set (blocks (GDict a al arr cap (take i es @ (ka, k, t) # drop (Suc i) es))))"
      by (rule dict_set_tree_old [OF assms(1-4) es])
    have len: "length (take i es) = i" using i by simp
    show thesis
    proof (rule that(1) [OF _ _ _ _ _ own mv])
      show "es = take i es @ [(ka, k, old)] @ drop (Suc i) es" using es by simp
      show "\<forall>(ka, k', t)\<in>set (take i es). k' < k" using sp(1) by (simp add: case_prod_unfold)
      show "\<forall>(ka, k', t)\<in>set (drop (Suc i) es). k < k'" using sp(2) sorted True by (simp add: case_prod_unfold)
      show "bencode_dict_set (Some a) ptr len (Some (root t)) m = Some (BENCODE_OK, m')"
        using go True m' len by simp
    qed simp
  next
    case False
    have i: "i \<le> length es" using pos by (simp add: position_def)
    have es: "es = take i es @ drop i es" by simp
    have xs: "\<forall>(ka, k', t)\<in>set (take i es). k' < k" using sp(1) by (simp add: case_prod_unfold)
    have ys: "\<forall>(ka, k', t)\<in>set (drop i es). k < k'" using sp(2) sorted False by (simp add: case_prod_unfold)
    have len: "length (take i es) = i" using i by simp
    from assms(1-6) es xs ys refl [of ?v] show thesis
    proof (cases rule: dict_set_tree_new)
      case (inserted arr' cap' ka m')
      have "bencode_dict_set (Some a) ptr len (Some (root t)) m = Some (BENCODE_OK, m')"
        using go False inserted(1) unfolding len by simp
      then show thesis using that(1) [of "take i es" "[]" "drop i es", OF _ xs _ ys _ inserted(2,3)] by simp
    next
      case (nomem m')
      have "bencode_dict_set (Some a) ptr len (Some (root t)) m = Some (BENCODE_ERR_NOMEM, m')"
        using go False nomem(1) unfolding len by simp
      then show thesis using that(2) nomem(2,3) by blast
    qed
  qed
qed

end
