(* ===== verification/Dom_Zipper.thy ===== *)
theory Dom_Zipper
  imports Owned_Trees
begin

text \<open>
  A tree under construction: the innermost open container together with the containers around it, each
  with a hole where the next one hangs.  What changes the innermost container and keeps its node
  changes the whole tree accordingly.
\<close>

section \<open>Contexts\<close>

text \<open>A list whose last element is the hole; a dictionary with a hole at the key \<open>k\<close>.\<close>

datatype gctx =
    CList addr "bencode_allocator option" "addr option" nat "gtree list"
  | CDict addr "bencode_allocator option" "addr option" nat "(addr option \<times> byte list \<times> gtree) list"
      "addr option" "byte list" "(addr option \<times> byte list \<times> gtree) list"

fun plug :: "gctx \<Rightarrow> gtree \<Rightarrow> gtree" where
  "plug (CList a al arr cap ts) t = GList a al arr cap (ts @ [t])"
| "plug (CDict a al arr cap xs ka k ys) t = GDict a al arr cap (xs @ (ka, k, t) # ys)"

fun ctx_root :: "gctx \<Rightarrow> addr" where
  "ctx_root (CList a al arr cap ts) = a"
| "ctx_root (CDict a al arr cap xs ka k ys) = a"

fun ctx_blocks :: "gctx \<Rightarrow> addr list" where
  "ctx_blocks (CList a al arr cap ts) = a # opt arr @ concat (map blocks ts)"
| "ctx_blocks (CDict a al arr cap xs ka k ys) =
     a # opt arr @ concat (map entry_blocks xs) @ opt ka @ concat (map entry_blocks ys)"

abbreviation entry_key :: "addr option \<times> byte list \<times> 'x \<Rightarrow> byte list" where
  "entry_key \<equiv> \<lambda>(ka, k, t). k"

fun ctx_holds :: "mem \<Rightarrow> gctx \<Rightarrow> addr \<Rightarrow> bool" where
  "ctx_holds m (CList a al arr cap ts) r \<longleftrightarrow> alloc_ok al \<and> list_shell m a al arr cap (map root ts @ [r])
     \<and> (\<forall>t\<in>set ts. holds m t)"
| "ctx_holds m (CDict a al arr cap xs ka k ys) r \<longleftrightarrow> alloc_ok al
     \<and> dict_shell m a al arr cap (shell_entries xs @ (ka, k, r) # shell_entries ys)
     \<and> sorted_wrt (<) (map entry_key xs @ k # map entry_key ys)
     \<and> (\<forall>(ka, k, t)\<in>set xs. holds m t) \<and> (\<forall>(ka, k, t)\<in>set ys. holds m t)"

lemma root_plug [simp]: "root (plug c t) = ctx_root c"
  by (cases c) simp_all

lemma entry_blocks_simp [simp]: "entry_blocks (ka, k, t) = opt ka @ blocks t"
  by (simp add: entry_blocks_def)

lemma blocks_plug: "set (blocks (plug c t)) = set (ctx_blocks c) \<union> set (blocks t)"
  by (cases c) (auto simp: blocks_GDict simp del: blocks.simps(5))

lemma distinct_plug: "distinct (blocks (plug c t)) \<longleftrightarrow>
    distinct (ctx_blocks c) \<and> distinct (blocks t) \<and> set (ctx_blocks c) \<inter> set (blocks t) = {}"
proof -
  have perm: "distinct (ns @ xs @ (ks @ ts) @ ys) \<longleftrightarrow>
      distinct (ns @ xs @ ks @ ys) \<and> distinct ts \<and> set (ns @ xs @ ks @ ys) \<inter> set ts = {}"
    for ns xs ks ts ys :: "addr list"
    by auto
  show ?thesis
  proof (cases c)
    case (CList a al arr cap us)
    have "blocks (plug c t) = ctx_blocks c @ blocks t" using CList by simp
    then show ?thesis by simp
  next
    case (CDict a al arr cap xs ka k ys)
    have "blocks (plug c t) = (a # opt arr) @ concat (map entry_blocks xs) @ (opt ka @ blocks t) @ concat (map entry_blocks ys)"
      and "ctx_blocks c = (a # opt arr) @ concat (map entry_blocks xs) @ opt ka @ concat (map entry_blocks ys)"
      using CDict by (simp_all add: blocks_GDict del: blocks.simps)
    then show ?thesis by (simp only: perm)
  qed
qed

lemma holds_plug: "holds m (plug c t) \<longleftrightarrow> ctx_holds m c (root t) \<and> holds m t"
proof (cases c)
  case (CDict a al arr cap xs ka k ys)
  then show ?thesis by (simp add: ball_Un) blast
qed auto

lemma owned_plug: "owned m (plug c t) \<longleftrightarrow> ctx_holds m c (root t) \<and> owned m t
    \<and> distinct (ctx_blocks c) \<and> set (ctx_blocks c) \<inter> set (blocks t) = {}"
  unfolding owned_def holds_plug distinct_plug by blast

lemma ctx_holds_frame:
  assumes "ctx_holds m c r" and "\<And>a. a \<in> set (ctx_blocks c) \<Longrightarrow> store m' a = store m a" and "foreign_kept m m'"
  shows "ctx_holds m' c r"
proof (cases c)
  case (CList a al arr cap ts)
  have "list_shell m' a al arr cap (map root ts @ [r])"
    by (rule list_shell_frame [of m]) (use assms CList in auto)
  moreover have "holds m' t" if "t \<in> set ts" for t
    by (rule holds_frame [OF _ _ assms(3)]) (use assms(1,2) CList that in auto)
  ultimately show ?thesis using assms(1) CList by simp
next
  case (CDict a al arr cap xs ka k ys)
  have sets: "set (ctx_blocks c) = set (a # opt arr @ keys_of xs @ opt ka @ keys_of ys)
      \<union> (\<Union>(ka, k, t)\<in>set xs. set (blocks t)) \<union> (\<Union>(ka, k, t)\<in>set ys. set (blocks t))"
    using CDict set_entry_blocks [of xs] set_entry_blocks [of ys] by (auto simp del: set_concat)
  have "dict_shell m' a al arr cap (shell_entries xs @ (ka, k, r) # shell_entries ys)"
  proof (rule dict_shell_frame)
    show "dict_shell m a al arr cap (shell_entries xs @ (ka, k, r) # shell_entries ys)"
      using assms(1) CDict by simp
    show "store m' b = store m b"
      if "b \<in> set (a # opt arr @ keys_of (shell_entries xs @ (ka, k, r) # shell_entries ys))" for b
    proof (rule assms(2))
      show "b \<in> set (ctx_blocks c)" unfolding sets using that by auto
    qed
  qed
  moreover have "holds m' t" if "(ka', k', t) \<in> set xs \<or> (ka', k', t) \<in> set ys" for ka' k' t
  proof (rule holds_frame [OF _ _ assms(3)])
    show "holds m t" using assms(1) CDict that by auto
    show "store m' x = store m x" if "x \<in> set (blocks t)" for x
      using assms(2) [of x] that \<open>_ \<or> _\<close> unfolding sets by fastforce
  qed
  ultimately show ?thesis using assms(1) CDict by auto
qed

lemma ctx_holds_live: "ctx_holds m c r \<Longrightarrow> a \<in> set (ctx_blocks c) \<Longrightarrow> live m a"
proof (cases c)
  case (CList a' al arr cap ts)
  assume "ctx_holds m c r" "a \<in> set (ctx_blocks c)"
  then show ?thesis using CList
    by (auto simp: list_shell_def intro: liveI array_live holds_live)
next
  case (CDict a' al arr cap xs ka k ys)
  assume h: "ctx_holds m c r" and a: "a \<in> set (ctx_blocks c)"
  then have al: "alloc_ok al" and sh: "dict_shell m a' al arr cap (shell_entries xs @ (ka, k, r) # shell_entries ys)"
    using CDict by simp_all
  have "a \<in> set (shell_blocks a' arr (shell_entries xs @ (ka, k, r) # shell_entries ys))
      \<or> a \<in> (\<Union>(ka, k, t)\<in>set xs. set (blocks t)) \<or> a \<in> (\<Union>(ka, k, t)\<in>set ys. set (blocks t))"
    using a CDict set_entry_blocks [of xs] set_entry_blocks [of ys] by (auto simp del: set_concat)
  then consider "a \<in> set (shell_blocks a' arr (shell_entries xs @ (ka, k, r) # shell_entries ys))"
    | ka k t where "(ka, k, t) \<in> set xs" "a \<in> set (blocks t)"
    | ka k t where "(ka, k, t) \<in> set ys" "a \<in> set (blocks t)"
    by auto
  then show ?thesis
  proof cases
    case 1
    then show ?thesis by (rule dict_shell_live [OF al sh])
  next
    case (2 ka k t)
    then have "holds m t" using h CDict by auto
    then show ?thesis using 2 holds_live by blast
  next
    case (3 ka k t)
    then have "holds m t" using h CDict by auto
    then show ?thesis using 3 holds_live by blast
  qed
qed

section \<open>Stacks of contexts\<close>

primrec plugs :: "gctx list \<Rightarrow> gtree \<Rightarrow> gtree" where
  "plugs [] t = t"
| "plugs (c # cs) t = plugs cs (plug c t)"

lemma owned_inner: "owned m (plugs cs t) \<Longrightarrow> owned m t"
proof (induction cs arbitrary: t)
  case (Cons c cs)
  then have "owned m (plug c t)" by simp
  then show ?case by (simp add: owned_plug)
qed simp

lemma blocks_inner: "set (blocks t) \<subseteq> set (blocks (plugs cs t))"
proof (induction cs arbitrary: t)
  case (Cons c cs)
  have "set (blocks t) \<subseteq> set (blocks (plug c t))" by (simp add: blocks_plug)
  also have "\<dots> \<subseteq> set (blocks (plugs cs (plug c t)))" by (rule Cons.IH)
  finally show ?case by simp
qed simp

lemma root_plugs: "root t' = root t \<Longrightarrow> root (plugs cs t') = root (plugs cs t)"
proof (induction cs arbitrary: t t')
  case (Cons c cs)
  then show ?case by simp
qed simp

text \<open>Replacing the innermost container; \<open>X\<close> are blocks that it absorbs.\<close>

lemma replace_inner:
  assumes "owned m (plugs cs t)" and "owned m' t'" and "root t' = root t"
    and "moves m (set (blocks t) \<union> X) m' (set (blocks t'))" and "X \<inter> set (blocks (plugs cs t)) = {}"
  shows "owned m' (plugs cs t')
    \<and> moves m (set (blocks (plugs cs t)) \<union> X) m' (set (blocks (plugs cs t')))"
  using assms
proof (induction cs arbitrary: t t')
  case Nil
  then show ?case by simp
next
  case (Cons c cs)
  have own: "owned m (plug c t)" using owned_inner [of m cs] Cons.prems(1) by simp
  then have ch: "ctx_holds m c (root t)" and dist: "distinct (ctx_blocks c)"
    and apart: "set (ctx_blocks c) \<inter> set (blocks t) = {}" by (simp_all add: owned_plug)
  have "set (blocks (plug c t)) \<subseteq> set (blocks (plugs cs (plug c t)))" by (rule blocks_inner)
  then have apart2: "set (ctx_blocks c) \<inter> (set (blocks t) \<union> X) = {}"
    using Cons.prems(5) apart by (auto simp: blocks_plug)
  have R: "set (ctx_blocks c) \<subseteq> {..<next_addr m}"
    using ctx_holds_live [OF ch] live_below [OF movesD(1) [OF Cons.prems(4)]] by blast
  have kept: "store m' a = store m a" if "a \<in> set (ctx_blocks c)" for a
    using moves_kept [OF Cons.prems(4) R apart2 that] .
  have "ctx_holds m' c (root t')"
    unfolding Cons.prems(3) using ctx_holds_frame [OF ch kept moves_foreign [OF Cons.prems(4)]] .
  moreover have "set (ctx_blocks c) \<inter> set (blocks t') = {}"
    using moves_apart [OF Cons.prems(4) R apart2] .
  ultimately have own': "owned m' (plug c t')" using Cons.prems(2) dist by (simp add: owned_plug)
  have mv: "moves m (set (blocks (plug c t)) \<union> X) m' (set (blocks (plug c t')))"
    using moves_frame [OF Cons.prems(4) R apart2] by (simp add: blocks_plug Un_commute Un_left_commute)
  show ?case
    using Cons.IH [of "plug c t" "plug c t'"] Cons.prems(1,5) own' mv by simp
qed

end
