(* ===== verification/Dom_Run.thy ===== *)
theory Dom_Run
  imports Dom Dom_Abs Dom_Zipper
begin

text \<open>
  The DOM callbacks follow the abstract builder: the memory holds the tree that the builder's stack
  describes, the frames point at the open containers, and a callback that fails has only run out of
  memory and leaves a tree that can be released.
\<close>

section \<open>The relation\<close>

text \<open>A container around the innermost one; the abstract builder still lists the entry, if there was
  one, that the new value of the key replaced.\<close>

fun outer_rel :: "gctx \<Rightarrow> aframe \<Rightarrow> bool" where
  "outer_rel (CList a al arr cap ts) (AList vs) \<longleftrightarrow> vs = map tree_val ts"
| "outer_rel (CDict a al arr cap xs ka k ys) (ADict es (Some k')) \<longleftrightarrow> k' = k
     \<and> (\<exists>mid. es = entry_vals xs @ mid @ entry_vals ys \<and> (\<forall>e\<in>set mid. fst e = k))"
| "outer_rel _ _ \<longleftrightarrow> False"

text \<open>The innermost container and its frame.\<close>

fun inner_rel :: "mem \<Rightarrow> gtree \<Rightarrow> dom_frame \<Rightarrow> aframe \<Rightarrow> bool" where
  "inner_rel m (GList a al arr cap ts) f (AList vs) \<longleftrightarrow> container f = a \<and> vs = map tree_val ts"
| "inner_rel m (GDict a al arr cap es) f (ADict vs pend) \<longleftrightarrow> container f = a \<and> vs = entry_vals es
     \<and> (case pend of
          None \<Rightarrow> fexpecting_key f
        | Some k \<Rightarrow> \<not> fexpecting_key f \<and> pending_key_len f = length k \<and> length k \<le> SIZE_MAX
            \<and> borrowed m (pending_key f) k)"
| "inner_rel _ _ _ _ \<longleftrightarrow> False"

fun outer_frame :: "dom_frame \<Rightarrow> gctx \<Rightarrow> bool" where
  "outer_frame f (CList a al arr cap ts) \<longleftrightarrow> container f = a"
| "outer_frame f (CDict a al arr cap xs ka k ys) \<longleftrightarrow> container f = a \<and> fexpecting_key f"

primrec outer_frames :: "dom_state \<Rightarrow> gctx list \<Rightarrow> bool" where
  "outer_frames s [] \<longleftrightarrow> True"
| "outer_frames s (c # cs) \<longleftrightarrow> (\<exists>f. get_frame s (length cs) = Some f \<and> outer_frame f c) \<and> outer_frames s cs"

text \<open>The parameters that do not change.\<close>

definition setting :: "bencode_allocator option \<Rightarrow> bptr \<Rightarrow> byte list \<Rightarrow> dom_state \<Rightarrow> mem \<Rightarrow> bool" where
  "setting al input inp s m \<longleftrightarrow> alloc_ok al \<and> dalloc s = al \<and> depth_cap s = FRAMES
     \<and> length (frames s) = FRAMES \<and> borrowed m input inp \<and> length inp \<le> SIZE_MAX"

text \<open>The tree that has been built since \<open>m0\<close>, with \<open>t\<close> hanging in the open containers \<open>cs\<close>.\<close>

definition hung :: "mem \<Rightarrow> gctx list \<Rightarrow> gtree \<Rightarrow> dom_state \<Rightarrow> mem \<Rightarrow> bool" where
  "hung m0 cs t s m \<longleftrightarrow> droot s = Some (root (plugs cs t)) \<and> owned m (plugs cs t)
     \<and> moves m0 {} m (set (blocks (plugs cs t))) \<and> outer_frames s cs"

fun dom_rel :: "mem \<Rightarrow> abuild \<Rightarrow> dom_state \<Rightarrow> mem \<Rightarrow> bool" where
  "dom_rel m0 ([], None) s m \<longleftrightarrow> ddepth s = 0 \<and> droot s = None \<and> moves m0 {} m {}"
| "dom_rel m0 ([], Some v) s m \<longleftrightarrow> ddepth s = 0 \<and> (\<exists>t. hung m0 [] t s m \<and> tree_val t = v)"
| "dom_rel m0 (fr # frs, r) s m \<longleftrightarrow> r = None \<and> length frs < 256
     \<and> (\<exists>cs t f. ddepth s = Suc (length cs) \<and> hung m0 cs t s m \<and> list_all2 outer_rel cs frs
          \<and> get_frame s (length cs) = Some f \<and> inner_rel m t f fr)"

definition dom_inv :: "mem \<Rightarrow> bencode_allocator option \<Rightarrow> bptr \<Rightarrow> byte list \<Rightarrow> nat \<Rightarrow> abuild
    \<Rightarrow> dom_state \<times> mem \<Rightarrow> bool" where
  "dom_inv m0 al input inp n a = (\<lambda>(s, m). setting al input inp s m \<and> within n a \<and> dom_rel m0 a s m)"

text \<open>What a failure leaves: at most the tree at the root, owned in full.\<close>

definition releasable :: "mem \<Rightarrow> dom_state \<Rightarrow> mem \<Rightarrow> bool" where
  "releasable m0 s m \<longleftrightarrow>
     (case droot s of
        None \<Rightarrow> moves m0 {} m {}
      | Some r \<Rightarrow> \<exists>t. r = root t \<and> owned m t \<and> moves m0 {} m (set (blocks t)))"

definition dom_failed :: "mem \<Rightarrow> nat \<Rightarrow> bencode_status \<Rightarrow> dom_state \<times> mem \<Rightarrow> bool" where
  "dom_failed m0 n st = (\<lambda>(s, m). st = BENCODE_ERR_NOMEM \<and> releasable m0 s m
     \<and> (\<not> granting m0 \<or> crowded sizeof_entry n))"

lemma hung_releasable: "hung m0 cs t s m \<Longrightarrow> releasable m0 s m"
  unfolding hung_def releasable_def by auto

lemma dom_rel_releasable: "dom_rel m0 a s m \<Longrightarrow> releasable m0 s m"
proof (cases "(m0, a, s, m)" rule: dom_rel.cases)
  case 1
  then show "dom_rel m0 a s m \<Longrightarrow> releasable m0 s m" by (simp add: releasable_def)
qed (auto intro: hung_releasable)

lemma releasable_moves:
  assumes "releasable m0 s m" and "moves m {} m' {}" and "droot s' = droot s"
  shows "releasable m0 s' m'"
proof (cases "droot s")
  case None
  then show ?thesis using assms moves_trans by (auto simp: releasable_def)
next
  case (Some r)
  with assms(1) obtain t where t: "r = root t" "owned m t" "moves m0 {} m (set (blocks t))"
    by (auto simp: releasable_def)
  have "owned m' t" using owned_moves [OF t(2) assms(2)] by simp
  moreover have "moves m0 {} m' (set (blocks t))" using moves_step [OF t(3) assms(2)] by simp
  ultimately show ?thesis using t(1) Some assms(3) by (auto simp: releasable_def)
qed

lemma dom_rel_wf: "dom_rel m0 a s m \<Longrightarrow> wf_mem m \<and> granting m = granting m0"
  using dom_rel_releasable [of m0 a s m] movesD(2) moves_granting
  by (fastforce simp: releasable_def split: option.splits)

section \<open>Frames\<close>

lemma put_frame_Some: "i < length (frames s) \<Longrightarrow>
    put_frame s i f = Some (s\<lparr>frames := (frames s)[i := Some f]\<rparr>)"
  by (simp add: put_frame_def)

lemma get_frame_bound: "get_frame s i = Some f \<Longrightarrow> i < length (frames s)"
  by (simp add: get_frame_def split: if_splits)

lemma get_frame_put:
  "get_frame (s\<lparr>frames := (frames s)[i := Some f]\<rparr>) j = (if i = j \<and> i < length (frames s) then Some f else get_frame s j)"
  by (auto simp: get_frame_def)

lemma outer_frames_cong:
  "(\<And>j. j < length cs \<Longrightarrow> get_frame s' j = get_frame s j) \<Longrightarrow> outer_frames s' cs = outer_frames s cs"
  by (induction cs) auto

lemma outer_frames_put [simp]:
  "length cs \<le> i \<Longrightarrow> outer_frames (s\<lparr>frames := (frames s)[i := Some f]\<rparr>) cs = outer_frames s cs"
  by (rule outer_frames_cong) (auto simp: get_frame_put)

lemma get_frame_depth [simp]: "get_frame (s\<lparr>ddepth := d\<rparr>) i = get_frame s i"
  by (simp add: get_frame_def)

lemma outer_frames_depth [simp]: "outer_frames (s\<lparr>ddepth := d\<rparr>) cs = outer_frames s cs"
  by (rule outer_frames_cong) simp

lemma hung_depth [simp]: "hung m0 cs t (s\<lparr>ddepth := d\<rparr>) m = hung m0 cs t s m"
  by (simp add: hung_def)

lemma setting_depth [simp]: "setting al input inp (s\<lparr>ddepth := d\<rparr>) m = setting al input inp s m"
  by (simp add: setting_def)

lemma setting_frames [simp]:
  "setting al input inp (s\<lparr>frames := (frames s)[i := f]\<rparr>) m = setting al input inp s m"
  by (simp add: setting_def)

lemma setting_moves: "setting al input inp s m \<Longrightarrow> moves m F m' F' \<Longrightarrow> setting al input inp s m'"
  using borrowed_frame moves_foreign by (auto simp: setting_def)

section \<open>Closing\<close>

lemma plug_rel:
  assumes "outer_rel c fr" and "outer_frame f c" and "owned m (plug c t)"
    and "add_value (tree_val t) (fr # frs, None) = Some a"
  shows "\<exists>fr'. a = (fr' # frs, None) \<and> inner_rel m (plug c t) f fr'"
proof (cases c)
  case (CList a' al arr cap ts)
  then show ?thesis using assms by (cases fr) auto
next
  case (CDict a' al arr cap xs ka k ys)
  then obtain es where fr: "fr = ADict es (Some k)" using assms(1)
    by (cases "(c, fr)" rule: outer_rel.cases) auto
  with assms(1) CDict obtain mid where
    mid: "es = entry_vals xs @ mid @ entry_vals ys" "\<forall>e\<in>set mid. fst e = k" by auto
  have "sorted_wrt (<) (map entry_key xs @ k # map entry_key ys)"
    using assms(3) CDict by (simp add: owned_def del: blocks.simps)
  then have "\<forall>e\<in>set (entry_vals xs). fst e < k" "\<forall>e\<in>set (entry_vals ys). k < fst e"
    by (auto simp: sorted_wrt_append)
  from insert_key_split [OF this(1) mid(2) this(2)] show ?thesis
    using assms(2,4) CDict fr mid(1) by auto
qed

lemma hung_closed:
  assumes "hung m0 cs t s m" and "ddepth s = length cs" and "list_all2 outer_rel cs frs"
    and "length frs \<le> 256" and "add_value (tree_val t) (frs, None) = Some a"
  shows "dom_rel m0 a s m"
proof (cases cs)
  case Nil
  then show ?thesis using assms by auto
next
  case (Cons c cs')
  then obtain fr frs' where frs: "frs = fr # frs'" "outer_rel c fr" "list_all2 outer_rel cs' frs'"
    using assms(3) by (cases frs) auto
  obtain f where f: "get_frame s (length cs') = Some f" "outer_frame f c"
    using assms(1) Cons by (auto simp: hung_def)
  have h: "hung m0 cs' (plug c t) s m" using assms(1) Cons by (simp add: hung_def)
  then have "owned m (plug c t)" using owned_inner by (auto simp: hung_def)
  from plug_rel [OF frs(2) f(2) this assms(5) [unfolded frs]] obtain fr' where
    "a = (fr' # frs', None)" "inner_rel m (plug c t) f fr'" by blast
  then show ?thesis using h f(1) frs assms(2,4) Cons by auto
qed

end
