(* ===== verification/Dom_Step.thy ===== *)
theory Dom_Step
  imports Dom_Run
begin

text \<open>
  Each DOM callback is one step of the abstract builder, so the builder is a client of the SAX parser.
\<close>

section \<open>Attaching\<close>

lemma read_inner:
  assumes "owned m t" and "inner_rel m' t f fr"
  obtains v where "read_node m (container f) = Some v"
    and "payload_type (payload v) = (case fr of AList _ \<Rightarrow> BENCODE_LIST | ADict _ _ \<Rightarrow> BENCODE_DICT)"
proof (cases "(m', t, f, fr)" rule: inner_rel.cases)
  case 1
  then show thesis using assms that
    by (auto simp: owned_def list_shell_def read_node_def split: option.splits)
next
  case 2
  then show thesis using assms that
    by (auto simp: owned_def dict_shell_def read_node_def split: option.splits)
qed (use assms(2) in auto)

text \<open>Putting the new node into the innermost container, given that the container has taken it.\<close>

lemma hung_inner:
  assumes "hung m0 cs w s m" and "moves m {} m1 (set (blocks t))"
    and "owned m2 (plug c t)" and "ctx_root c = root w"
    and "moves m1 (set (blocks w) \<union> set (blocks t)) m2 (set (blocks (plug c t)))"
    and "droot s2 = droot s" and "outer_frames s2 (c # cs)"
  shows "hung m0 (c # cs) t s2 m2"
proof -
  have h: "droot s = Some (root (plugs cs w))" "owned m (plugs cs w)" "moves m0 {} m (set (blocks (plugs cs w)))"
    using assms(1) by (simp_all add: hung_def)
  note b = beside [OF h(3,2) assms(2)]
  have apart: "set (blocks t) \<inter> set (blocks (plugs cs w)) = {}" using b(3) by blast
  have root: "root (plug c t) = root w" using assms(4) by simp
  from replace_inner [OF b(1) assms(3) root assms(5) apart]
  have own: "owned m2 (plugs cs (plug c t))"
    and mv: "moves m1 (set (blocks (plugs cs w)) \<union> set (blocks t)) m2 (set (blocks (plugs cs (plug c t))))"
    by blast+
  show ?thesis
    using own moves_trans [OF b(2) mv] root_plugs [OF root] h(1) assms(6,7) by (simp add: hung_def)
qed

text \<open>The new node goes into the innermost container, a list or a dictionary with a pending key.\<close>

lemma attach_item:
  assumes h: "hung m0 cs w s m" and f: "get_frame s (length cs) = Some f" and depth: "ddepth s = Suc (length cs)"
    and lw: "w = GList x xal arr cap ts" and cf: "container f = x"
    and t: "owned m1 t" and mv: "moves m {} m1 (set (blocks t))"
  obtains (attached) arr' cap' m2 where "attach s (Some (root t)) m1 = Some (BENCODE_OK, s, m2)"
      and "hung m0 (CList x xal arr' cap' ts # cs) t s m2" and "moves m1 (set (blocks w) \<union> set (blocks t)) m2
        (set (blocks (plug (CList x xal arr' cap' ts) t)))"
  | (nomem) m2 where "attach s (Some (root t)) m1 = Some (BENCODE_ERR_NOMEM, s, m2)"
      and "moves m1 {} m2 {}" and "\<not> granting m1 \<or> crowded sizeof_item (length ts)"
proof -
  have hm: "owned m (plugs cs w)" "moves m0 {} m (set (blocks (plugs cs w)))" using h by (simp_all add: hung_def)
  note b = beside [OF hm(2,1) mv]
  have w1: "owned m1 w" using owned_inner [OF b(1)] .
  have apart: "set (blocks w) \<inter> set (blocks t) = {}" using b(3) blocks_inner [of w cs] by blast
  have "read_node m1 x = Some \<lparr>valloc = xal, payload = List_payload arr (length ts) cap\<rparr>"
    using w1 lw by (auto simp: owned_def list_shell_def read_node_def)
  then have go: "attach s (Some (root t)) m1 = do {
      (st, m2) \<leftarrow> bencode_list_append (Some x) (Some (root t)) m1; Some (st, s, m2) }"
    using depth f cf by (simp add: attach_def)
  from movesD(2) [OF mv] w1 [unfolded lw] t apart [unfolded lw] show thesis
  proof (cases rule: list_append_tree)
    case (appended arr' cap' m2)
    let ?c = "CList x xal arr' cap' ts"
    have own: "owned m2 (plug ?c t)" using appended(2) by simp
    have mv2: "moves m1 (set (blocks w) \<union> set (blocks t)) m2 (set (blocks (plug ?c t)))"
      using appended(3) lw by simp
    have fr_ok: "outer_frames s (?c # cs)" using h f cf by (simp add: hung_def)
    have root: "ctx_root ?c = root w" using lw by simp
    have "hung m0 (?c # cs) t s m2" by (rule hung_inner [OF h mv own root mv2 refl fr_ok])
    then show thesis using that(1) go appended(1) mv2 by simp
  next
    case (nomem m2)
    then show thesis using that(2) go by simp
  qed
qed

lemma attach_entry:
  assumes h: "hung m0 cs w s m" and f: "get_frame s (length cs) = Some f" and depth: "ddepth s = Suc (length cs)"
    and dw: "w = GDict x xal arr cap es" and cf: "container f = x"
    and kf: "pending_key_len f = length k" "length k \<le> SIZE_MAX" "borrowed m (pending_key f) k"
    and t: "owned m1 t" and mv: "moves m {} m1 (set (blocks t))"
  defines "s' \<equiv> s\<lparr>frames := (frames s)[length cs :=
    Some (f\<lparr>pending_key := BNull, pending_key_len := 0, fexpecting_key := True\<rparr>)]\<rparr>"
  obtains (attached) arr' cap' ka xs mid ys m2 where "attach s (Some (root t)) m1 = Some (BENCODE_OK, s', m2)"
      and "hung m0 (CDict x xal arr' cap' xs ka k ys # cs) t s' m2"
      and "moves m1 (set (blocks w) \<union> set (blocks t)) m2 (set (blocks (plug (CDict x xal arr' cap' xs ka k ys) t)))"
      and "es = xs @ mid @ ys" and "\<forall>(ka, k', t)\<in>set mid. k' = k"
      and "\<forall>(ka, k', t)\<in>set xs. k' < k" and "\<forall>(ka, k', t)\<in>set ys. k < k'"
  | (nomem) m2 where "attach s (Some (root t)) m1 = Some (BENCODE_ERR_NOMEM, s', m2)"
      and "moves m1 {} m2 {}" and "\<not> granting m1 \<or> crowded sizeof_entry (length es)"
proof -
  have hm: "owned m (plugs cs w)" "moves m0 {} m (set (blocks (plugs cs w)))" using h by (simp_all add: hung_def)
  note b = beside [OF hm(2,1) mv]
  have w1: "owned m1 w" using owned_inner [OF b(1)] .
  have apart: "set (blocks w) \<inter> set (blocks t) = {}" using b(3) blocks_inner [of w cs] by blast
  have rd: "read_node m1 x = Some \<lparr>valloc = xal, payload = Dict_payload arr (length es) cap\<rparr>"
    using w1 dw by (auto simp: owned_def dict_shell_def read_node_def)
  have key: "read_bytes (pending_key f) (length k) m1 = Some k"
    using read_borrowed borrowed_frame [OF kf(3) moves_foreign [OF mv]] by blast
  have put: "put_frame s (length cs) (f\<lparr>pending_key := BNull, pending_key_len := 0, fexpecting_key := True\<rparr>) = Some s'"
    unfolding s'_def using get_frame_bound [OF f] by (rule put_frame_Some)
  have go: "attach s (Some (root t)) m1 = do {
      (st, m2) \<leftarrow> bencode_dict_set (Some x) (pending_key f) (length k) (Some (root t)) m1; Some (st, s', m2) }"
    using depth f rd cf kf(1) put by (simp add: attach_def)
  from movesD(2) [OF mv] w1 [unfolded dw] t apart [unfolded dw] key kf(2) show thesis
  proof (cases rule: dict_set_tree)
    case (inserted arr' cap' ka xs mid ys m2)
    let ?c = "CDict x xal arr' cap' xs ka k ys"
    have own: "owned m2 (plug ?c t)" using inserted(6) by simp
    have mv2: "moves m1 (set (blocks w) \<union> set (blocks t)) m2 (set (blocks (plug ?c t)))"
      using inserted(7) dw by simp
    have fr_ok: "outer_frames s' (?c # cs)"
      unfolding s'_def using h get_frame_bound [OF f] cf by (simp add: hung_def get_frame_put)
    have root: "ctx_root ?c = root w" and same: "droot s' = droot s" using dw by (simp_all add: s'_def)
    have "hung m0 (?c # cs) t s' m2" by (rule hung_inner [OF h mv own root mv2 same fr_ok])
    then show thesis using that(1) go inserted(1-5) mv2 by simp
  next
    case (nomem m2)
    then show thesis using that(2) go by simp
  qed
qed

lemma attach_spec:
  assumes rel: "dom_rel m0 a s m" and set: "setting al input inp s m" and "opens a" and "within n a"
    and t: "owned m1 t" and mv: "moves m {} m1 (set (blocks t))"
  obtains (attached) cs s' m' where "attach s (Some (root t)) m1 = Some (BENCODE_OK, s', m')"
      and "hung m0 cs t s' m'" and "ddepth s' = length cs" and "list_all2 outer_rel cs (fst a)"
      and "setting al input inp s' m'"
  | (nomem) s' m' where "attach s (Some (root t)) m1 = Some (BENCODE_ERR_NOMEM, s', m')"
      and "moves m1 {} m' {}" and "droot s' = droot s" and "\<not> granting m1 \<or> crowded sizeof_entry n"
proof (cases "fst a")
  case Nil
  then have a: "a = ([], None)" using assms(3) by (cases a) (auto split: option.splits)
  then have depth: "ddepth s = 0" and mv0: "moves m0 {} m {}" using rel by simp_all
  have "hung m0 [] t (s\<lparr>droot := Some (root t)\<rparr>) m1"
    using t moves_step [OF mv0 mv] by (simp add: hung_def)
  moreover have "setting al input inp (s\<lparr>droot := Some (root t)\<rparr>) m1"
    using setting_moves [OF set mv] by (simp add: setting_def)
  ultimately show thesis using depth a by (intro attached [of _ _ "[]"]) (simp_all add: attach_def)
next
  case (Cons fr frs)
  then obtain r where a: "a = (fr # frs, r)" by (cases a) auto
  with rel obtain cs w f where depth: "ddepth s = Suc (length cs)" and h: "hung m0 cs w s m"
    and outer: "list_all2 outer_rel cs frs" and f: "get_frame s (length cs) = Some f"
    and inner: "inner_rel m w f fr" by auto
  note set1 = setting_moves [OF set mv]
  show thesis
  proof (cases fr)
    case (AList vs)
    with inner obtain x xal arr cap ts where lw: "w = GList x xal arr cap ts" and cf: "container f = x"
      and vs: "vs = map tree_val ts" by (cases w) auto
    have few: "length ts \<le> n" using assms(4) a AList vs by (simp add: within_def)
    from h f depth lw cf t mv show thesis
    proof (cases rule: attach_item)
      case (attached arr' cap' m2)
      then show thesis using depth outer AList vs a setting_moves [OF set1 attached(3)]
        by (intro that(1) [of s m2 "CList x xal arr' cap' ts # cs"]) simp_all
    next
      case (nomem m2)
      then show thesis using that(2) few crowded_item crowded_mono by blast
    qed
  next
    case (ADict vs pend)
    with assms(3) a obtain k where pend: "pend = Some k" by auto
    from inner ADict obtain x xal arr cap es where dw: "w = GDict x xal arr cap es" and cf: "container f = x"
      by (cases w) auto
    have vs: "vs = entry_vals es" and kf: "pending_key_len f = length k" "length k \<le> SIZE_MAX" "borrowed m (pending_key f) k"
      using inner ADict dw pend by auto
    have few: "length es \<le> n" using assms(4) a ADict vs by (simp add: within_def)
    let ?s = "s\<lparr>frames := (frames s)[length cs :=
      Some (f\<lparr>pending_key := BNull, pending_key_len := 0, fexpecting_key := True\<rparr>)]\<rparr>"
    from h f depth dw cf kf t mv show thesis
    proof (cases rule: attach_entry)
      case (attached arr' cap' ka xs mid ys m2)
      have "outer_rel (CDict x xal arr' cap' xs ka k ys) fr"
        using ADict vs pend attached(4,5) by (auto intro!: exI [of _ "entry_vals mid"])
      then show thesis using depth outer a attached(1,2) setting_moves [OF set1 attached(3)]
        by (intro that(1) [of ?s m2 "CDict x xal arr' cap' xs ka k ys # cs"]) simp_all
    next
      case (nomem m2)
      have "crowded sizeof_entry (length es) \<Longrightarrow> crowded sizeof_entry n" using crowded_mono few by blast
      then show thesis using that(2) [OF nomem(1,2)] nomem(3) by auto
    qed
  qed
qed

lemma attach_or_free_spec:
  assumes rel: "dom_rel m0 a s m" and set: "setting al input inp s m" and "opens a" and "within n a"
    and t: "owned m1 t" and mv: "moves m {} m1 (set (blocks t))"
  obtains (attached) cs s' m' where "attach_or_free s (Some (root t)) m1 = Some (BENCODE_OK, s', m')"
      and "hung m0 cs t s' m'" and "ddepth s' = length cs" and "list_all2 outer_rel cs (fst a)"
      and "setting al input inp s' m'"
  | (nomem) u' where "attach_or_free s (Some (root t)) m1 = Some (BENCODE_ERR_NOMEM, u')"
      and "dom_failed m0 n BENCODE_ERR_NOMEM u'"
  using assms
proof (cases rule: attach_spec)
  case (attached cs s' m')
  then show thesis using that(1) by (simp add: attach_or_free_def)
next
  case (nomem s' m2)
  have t2: "owned m2 t" using owned_moves [OF t nomem(2)] by simp
  obtain m3 where m3: "bencode_value_free (Some (root t)) m2 = Some m3" and mv3: "moves m2 (set (blocks t)) m3 {}"
    by (rule bencode_value_free_spec [OF movesD(2) [OF nomem(2)] t2])
  have "moves m1 (set (blocks t)) m2 (set (blocks t))"
    using moves_frame [OF nomem(2) movesD(4) [OF mv]] by simp
  then have "moves m {} m3 {}" using moves_trans [OF moves_trans [OF mv] mv3] by simp
  then have "releasable m0 s' m3" using releasable_moves [OF dom_rel_releasable [OF rel]] nomem(3) by blast
  moreover have "granting m1 = granting m0" using moves_granting [OF mv] dom_rel_wf [OF rel] by simp
  ultimately have "dom_failed m0 n BENCODE_ERR_NOMEM (s', m3)"
    using nomem(4) by (simp add: dom_failed_def)
  then show thesis using that(2) nomem(1) m3 by (simp add: attach_or_free_def)
qed

section \<open>The callbacks\<close>

lemma dom_failed_mono: "dom_failed m0 n st u \<Longrightarrow> n \<le> n' \<Longrightarrow> dom_failed m0 n' st u"
  by (auto simp: dom_failed_def intro: crowded_mono)

text \<open>A new node: built, then attached.\<close>

lemma new_node_failed:
  assumes "dom_rel m0 a s m" and "moves m {} m1 {}" and "\<not> granting m"
  shows "dom_failed m0 n BENCODE_ERR_NOMEM (s, m1)"
  using assms releasable_moves [OF dom_rel_releasable [OF assms(1)] assms(2) refl] dom_rel_wf [OF assms(1)]
  by (simp add: dom_failed_def)

lemma opens_empty_root: "dom_rel m0 a s m \<Longrightarrow> opens a \<Longrightarrow> snd a = None"
  by (cases "(m0, a, s, m)" rule: dom_rel.cases) auto

lemma dom_rel_length: "dom_rel m0 a s m \<Longrightarrow> length (fst a) \<le> 256"
  by (cases "(m0, a, s, m)" rule: dom_rel.cases) auto

lemma new_leaf:
  assumes inv: "dom_inv m0 al input inp n a (s, m)" and built: "built m v res"
    and add: "add_value v a = Some a'" and "opens a"
  shows "\<exists>st u'. (do { (st, node, m1) \<leftarrow> res;
       if st \<noteq> BENCODE_OK then Some (st, s, m1) else attach_or_free s node m1 }) = Some (st, u')
     \<and> (if st = BENCODE_OK then dom_inv m0 al input inp (Suc n) a' u' else dom_failed m0 (Suc n) st u')"
proof -
  have set: "setting al input inp s m" and wn: "within n a" and rel: "dom_rel m0 a s m"
    using inv by (simp_all add: dom_inv_def)
  from built show ?thesis
  proof (cases rule: built_cases)
    case (nomem m1)
    then show ?thesis using new_node_failed [OF rel] by simp
  next
    case (success t m1)
    from rel set \<open>opens a\<close> wn success(2,4) show ?thesis
    proof (cases rule: attach_or_free_spec)
      case (attached cs s' m')
      have "a = (fst a, None)" using opens_empty_root [OF rel \<open>opens a\<close>] by (metis prod.collapse)
      then have add': "add_value (tree_val t) (fst a, None) = Some a'" using add success(3) by simp
      from hung_closed [OF attached(2,3,4) dom_rel_length [OF rel] add']
      have "dom_inv m0 al input inp (Suc n) a' (s', m')"
        using attached(5) within_add [OF wn add] by (simp add: dom_inv_def)
      then show ?thesis using success(1) attached(1) by simp
    next
      case (nomem u')
      then show ?thesis using success(1) dom_failed_mono [OF nomem(2)] by simp
    qed
  qed
qed

text \<open>The tree \<open>t\<close> was attached, and a frame for it is put on the stack.\<close>

lemma push_frame_inv:
  assumes h: "hung m0 cs t s m" and outer: "list_all2 outer_rel cs fs" and set: "setting al input inp s m"
    and len: "length fs < 256" and inner: "inner_rel m t f fr" and wn: "within n (fr # fs, None)"
  shows "put_frame s (length cs) f = Some (s\<lparr>frames := (frames s)[length cs := Some f]\<rparr>)"
    and "dom_inv m0 al input inp n (fr # fs, None) (s\<lparr>frames := (frames s)[length cs := Some f], ddepth := Suc (length cs)\<rparr>, m)"
proof -
  have "length cs = length fs" using outer by (simp add: list_all2_lengthD)
  then have bound: "length cs < length (frames s)" using len set by (simp add: setting_def FRAMES_def)
  then show "put_frame s (length cs) f = Some (s\<lparr>frames := (frames s)[length cs := Some f]\<rparr>)" by (rule put_frame_Some)
  let ?s = "s\<lparr>frames := (frames s)[length cs := Some f], ddepth := Suc (length cs)\<rparr>"
  have "hung m0 cs t ?s m" using h by (simp add: hung_def)
  then have "dom_rel m0 (fr # fs, None) ?s m"
    using outer bound len inner by (auto simp: get_frame_put intro!: exI [of _ cs] exI [of _ t])
  then show "dom_inv m0 al input inp n (fr # fs, None) (?s, m)" using wn set by (simp add: dom_inv_def)
qed

lemma open_container_step:
  assumes inv: "dom_inv m0 al input inp n a (s, m)" and "opens a" and len: "length (fst a) < 256"
    and ty: "ty = BENCODE_LIST \<and> fr = AList [] \<or> ty = BENCODE_DICT \<and> fr = ADict [] None"
  shows "\<exists>st u'. open_container ty (s, m) = Some (st, u')
     \<and> (if st = BENCODE_OK then dom_inv m0 al input inp (Suc n) (fr # fst a, snd a) u'
        else dom_failed m0 (Suc n) st u')"
proof -
  have set: "setting al input inp s m" and wn: "within n a" and rel: "dom_rel m0 a s m"
    using inv by (simp_all add: dom_inv_def)
  have al: "alloc_ok al" "dalloc s = al" using set by (simp_all add: setting_def)
  have wf: "wf_mem m" using dom_rel_wf [OF rel] by blast
  let ?res = "if ty = BENCODE_LIST then bencode_list_new al True m else bencode_dict_new al True m"
  let ?v = "if ty = BENCODE_LIST then BList [] else BDict []"
  have built: "built m ?v ?res" using bencode_list_new_spec [OF wf al(1)] bencode_dict_new_spec [OF wf al(1)] by simp
  have go: "open_container ty (s, m) = do {
     (st, node, m1) \<leftarrow> ?res;
     if st \<noteq> BENCODE_OK then Some (st, s, m1)
     else do {
       (st, s1, m2) \<leftarrow> attach_or_free s node m1;
       if st \<noteq> BENCODE_OK then Some (st, s1, m2)
       else if ddepth s1 \<ge> depth_cap s1 then Some (BENCODE_ERR_NESTING_TOO_DEEP, s1, m2)
       else do {
         c \<leftarrow> node;
         s2 \<leftarrow> put_frame s1 (ddepth s1)
                \<lparr>container = c, fexpecting_key = (ty = BENCODE_DICT), pending_key = BNull,
                 pending_key_len = 0\<rparr>;
         Some (BENCODE_OK, s2\<lparr>ddepth := ddepth s2 + 1\<rparr>, m2)
       }
     }
   }"
    using al(2) by (simp add: open_container_def)
  from built show ?thesis
  proof (cases rule: built_cases)
    case (nomem m1)
    then show ?thesis using new_node_failed [OF rel] by (simp add: go del: if_split)
  next
    case (success t m1)
    from rel set \<open>opens a\<close> wn success(2,4) show ?thesis
    proof (cases rule: attach_or_free_spec)
      case (nomem u')
      obtain s' m' where u': "u' = (s', m')" by (cases u')
      show ?thesis using nomem(1) dom_failed_mono [OF nomem(2)] u' unfolding go success(1) by simp
    next
      case (attached cs s' m')
      let ?f = "\<lparr>container = root t, fexpecting_key = (ty = BENCODE_DICT), pending_key = BNull, pending_key_len = 0\<rparr>"
      have root: "snd a = None" using opens_empty_root [OF rel \<open>opens a\<close>] .
      have inner: "inner_rel m' t ?f fr" using ty success(3) by (cases t) auto
      have "within (Suc n) (fr # fst a, None)"
        using within_mono [OF wn, of "Suc n"] ty root by (auto simp: within_def)
      note push = push_frame_inv [OF attached(2,4,5) len inner this]
      have "length cs < 256" "depth_cap s' = 257"
        using attached(4,5) len by (simp_all add: list_all2_lengthD setting_def FRAMES_def)
      then show ?thesis using push attached(1,3) root unfolding go success(1) by simp
    qed
  qed
qed

text \<open>Closing the innermost container.\<close>

lemma close_container_step:
  assumes inv: "dom_inv m0 al input inp n (fr # frs, r) (s, m)"
    and add: "add_value v (frs, r) = Some a'"
    and v: "\<And>t f. inner_rel m t f fr \<Longrightarrow> tree_val t = v"
  shows "ddepth s > 0" and "dom_inv m0 al input inp (Suc n) a' (s\<lparr>ddepth := ddepth s - 1\<rparr>, m)"
proof -
  have set: "setting al input inp s m" and wn: "within n (fr # frs, r)" and rel: "dom_rel m0 (fr # frs, r) s m"
    using inv by (simp_all only: dom_inv_def prod.case)
  from rel obtain cs t f where r: "r = None" "length frs < 256" and d: "ddepth s = Suc (length cs)"
    and h: "hung m0 cs t s m" and o: "list_all2 outer_rel cs frs" and i: "inner_rel m t f fr" by auto
  show "ddepth s > 0" using d by simp
  have "hung m0 cs t (s\<lparr>ddepth := length cs\<rparr>) m" using h by simp
  then have "dom_rel m0 a' (s\<lparr>ddepth := length cs\<rparr>) m"
    by (rule hung_closed) (use o r add v [OF i] in simp_all)
  moreover have "within n (frs, r)" using wn by (simp add: within_def)
  then have "within (Suc n) a'" using within_add add by blast
  ultimately show "dom_inv m0 al input inp (Suc n) a' (s\<lparr>ddepth := ddepth s - 1\<rparr>, m)"
    using set d by (simp add: dom_inv_def)
qed

end
