(* ===== verification/Dom_Events.thy ===== *)
theory Dom_Events
  imports Dom_Step
begin

text \<open>
  One event is one step of the builder: the DOM callback table as an instance of the interface of
  theory \<open>Sax_Client\<close>.
\<close>

section \<open>Strings\<close>

lemma borrowed_slice:
  assumes "borrowed m input inp" and "off + len \<le> length inp"
  shows "borrowed m (ptr_add input off) (slice inp off len)"
proof (cases "slice inp off len = []")
  case False
  then have "inp \<noteq> []" by (auto simp: slice_def)
  with assms(1) obtain a o1 cs where i: "input = BAt a o1" "store m a = Some (Foreign, Bytes cs)"
    "o1 + length inp \<le> length cs" "take (length inp) (drop o1 cs) = map Some inp"
    by (auto simp: borrowed_def slice_def split: bptr.splits option.splits block.splits)
  have "take len (drop (o1 + off) cs) = take len (drop off (take (length inp) (drop o1 cs)))"
    using assms(2) by (simp add: drop_take add.commute min_absorb1)
  also have "\<dots> = map Some (take len (drop off inp))" unfolding i(4) by (simp add: take_map drop_map)
  finally have "slice cs (o1 + off) len = map Some (slice inp off len)" by (simp add: slice_def)
  then show ?thesis using i assms(2) by (simp add: borrowed_def ptr_add_def)
qed (simp add: borrowed_def)

lemma add_value_open: "add_value v a = Some a' \<Longrightarrow> opens a"
  by (cases "(v, a)" rule: add_value.cases) auto

lemma astep_string_cases:
  assumes "astep inp (EStr off len) a = Some a'"
  obtains (key) es fs r where "a = (ADict es None # fs, r)"
      and "a' = (ADict es (Some (slice inp off len)) # fs, r)"
  | (item) "opens a" and "add_value (BStr (slice inp off len)) a = Some a'"
proof (cases "\<exists>es fs r. a = (ADict es None # fs, r)")
  case True
  then show thesis using assms key by (auto simp: astep_key)
next
  case False
  then have "add_value (BStr (slice inp off len)) a = Some a'"
    using assms by (auto simp: astep.simps(2) split: prod.splits list.splits aframe.splits option.splits)
  then show thesis using item add_value_open by blast
qed

text \<open>The frame that \<open>dom_on_string\<close> finds to be waiting for a key.\<close>

definition key_frame :: "dom_state \<Rightarrow> mem \<Rightarrow> dom_frame option option" where
  "key_frame s m =
     (if ddepth s > 0 then do {
        f \<leftarrow> get_frame s (ddepth s - 1);
        c \<leftarrow> read_node m (container f);
        Some (if payload_type (payload c) = BENCODE_DICT \<and> fexpecting_key f then Some f else None)
      }
      else Some None)"

lemma dom_on_string_key_frame:
  "dom_on_string bytes len (s, m) = do {
     kf \<leftarrow> key_frame s m;
     (case kf of
        Some f \<Rightarrow> do {
          s1 \<leftarrow> put_frame s (ddepth s - 1)
                 (f\<lparr>pending_key := bytes, pending_key_len := len, fexpecting_key := False\<rparr>);
          Some (BENCODE_OK, s1, m)
        }
      | None \<Rightarrow> do {
          (st, node, m1) \<leftarrow> bencode_string_new_borrowed bytes len (dalloc s) True m;
          if st \<noteq> BENCODE_OK then Some (st, s, m1) else attach_or_free s node m1
        })
   }"
  by (simp only: dom_on_string_def key_frame_def prod.case)

lemma key_frame_value:
  assumes "dom_rel m0 a s m" and "opens a"
  shows "key_frame s m = Some None"
proof (cases "fst a")
  case Nil
  then have "ddepth s = 0" using assms by (cases a; cases "snd a") auto
  then show ?thesis by (simp add: key_frame_def)
next
  case (Cons fr frs)
  then obtain r where a: "a = (fr # frs, r)" by (cases a) auto
  with assms(1) obtain cs w f where d: "ddepth s = Suc (length cs)" and h: "hung m0 cs w s m"
    and f: "get_frame s (length cs) = Some f" and i: "inner_rel m w f fr" by auto
  have "owned m w" using h owned_inner by (auto simp: hung_def)
  from read_inner [OF this i] obtain v where "read_node m (container f) = Some v"
    "payload_type (payload v) = (case fr of AList _ \<Rightarrow> BENCODE_LIST | ADict _ _ \<Rightarrow> BENCODE_DICT)" .
  moreover have "\<not> fexpecting_key f" if "fr = ADict es k" for es k
    using i that assms(2) a by (cases w) (auto split: option.splits)
  ultimately show ?thesis using d f by (cases fr) (auto simp: key_frame_def)
qed

lemma key_frame_key:
  assumes "dom_rel m0 (ADict es None # fs, r) s m"
  obtains cs w f where "ddepth s = Suc (length cs)" and "hung m0 cs w s m"
    and "list_all2 outer_rel cs fs" and "get_frame s (length cs) = Some f"
    and "inner_rel m w f (ADict es None)" and "key_frame s m = Some (Some f)"
proof -
  from assms obtain cs w f where d: "ddepth s = Suc (length cs)" and h: "hung m0 cs w s m"
    and o: "list_all2 outer_rel cs fs"
    and f: "get_frame s (length cs) = Some f" and i: "inner_rel m w f (ADict es None)" by auto
  have "owned m w" using h owned_inner by (auto simp: hung_def)
  from read_inner [OF this i] obtain v where "read_node m (container f) = Some v"
    "payload_type (payload v) = BENCODE_DICT" by auto
  moreover have "fexpecting_key f" using i by (cases w) auto
  ultimately have "key_frame s m = Some (Some f)" using d f by (simp add: key_frame_def)
  then show thesis using that d h o f i by blast
qed

lemma dom_on_string_step:
  assumes inv: "dom_inv m0 al input inp n a (s, m)"
    and step: "astep inp (EStr off len) a = Some a'" and ins: "off + len \<le> length inp"
  shows "\<exists>st u'. dom_on_string (ptr_add input off) len (s, m) = Some (st, u')
     \<and> (if st = BENCODE_OK then dom_inv m0 al input inp (Suc n) a' u' else dom_failed m0 (Suc n) st u')"
proof -
  let ?k = "slice inp off len"
  have set: "setting al input inp s m" and wn: "within n a" and rel: "dom_rel m0 a s m"
    using inv by (simp_all only: dom_inv_def prod.case)
  have b: "borrowed m (ptr_add input off) ?k" and len: "length ?k = len" "len \<le> SIZE_MAX"
    using set borrowed_slice ins by (auto simp: setting_def)
  from step show ?thesis
  proof (cases rule: astep_string_cases)
    case (key es fs r)
    from rel [unfolded key(1)] obtain cs w f where d: "ddepth s = Suc (length cs)"
      and h: "hung m0 cs w s m" and o: "list_all2 outer_rel cs fs" and f: "get_frame s (length cs) = Some f"
      and i: "inner_rel m w f (ADict es None)" and kf: "key_frame s m = Some (Some f)"
      by (rule key_frame_key)
    let ?f = "f\<lparr>pending_key := ptr_add input off, pending_key_len := len, fexpecting_key := False\<rparr>"
    let ?s = "s\<lparr>frames := (frames s)[length cs := Some ?f]\<rparr>"
    have put: "put_frame s (length cs) ?f = Some ?s" using get_frame_bound [OF f] by (rule put_frame_Some)
    have run: "dom_on_string (ptr_add input off) len (s, m) = Some (BENCODE_OK, ?s, m)"
      using kf d put by (simp add: dom_on_string_key_frame)
    have "inner_rel m w ?f (ADict es (Some ?k))" using i b len by (cases w) auto
    moreover have "hung m0 cs w ?s m" using h by (simp add: hung_def)
    moreover have "get_frame ?s (length cs) = Some ?f" using get_frame_bound [OF f] by (simp add: get_frame_put)
    moreover have "r = None" "length fs < 256" using rel key(1) by auto
    ultimately have "dom_rel m0 a' ?s m" using key(2) d o by auto
    moreover have "within (Suc n) a'" using wn key by (auto simp: within_def)
    ultimately have "dom_inv m0 al input inp (Suc n) a' (?s, m)" using set by (simp add: dom_inv_def)
    then show ?thesis using run by simp
  next
    case item
    have wf: "wf_mem m" and al: "alloc_ok al" "dalloc s = al"
      using dom_rel_wf [OF rel] set by (simp_all add: setting_def)
    have "built m (BStr ?k) (bencode_string_new_borrowed (ptr_add input off) len al True m)"
      using bencode_string_new_borrowed_spec [OF wf al(1) b] len by simp
    from new_leaf [OF inv this item(2,1)] show ?thesis
      using key_frame_value [OF rel item(1)] al(2) by (simp add: dom_on_string_key_frame)
  qed
qed

section \<open>Every event\<close>

lemma dom_on_int_step:
  assumes inv: "dom_inv m0 al input inp n a (s, m)" and step: "add_value (BInt (sint i)) a = Some a'"
  shows "\<exists>st u'. dom_on_int i (s, m) = Some (st, u')
     \<and> (if st = BENCODE_OK then dom_inv m0 al input inp (Suc n) a' u' else dom_failed m0 (Suc n) st u')"
proof -
  have set: "setting al input inp s m" and rel: "dom_rel m0 a s m"
    using inv by (simp_all only: dom_inv_def prod.case)
  have "built m (BInt (sint i)) (bencode_int_new i al True m)"
    using bencode_int_new_spec dom_rel_wf [OF rel] set by (simp add: setting_def)
  from new_leaf [OF inv this step add_value_open [OF step]] show ?thesis
    using set by (simp add: dom_on_int_def setting_def)
qed

lemma inner_list_val: "inner_rel m t f (AList vs) \<Longrightarrow> tree_val t = BList vs"
  by (cases t) auto

lemma inner_dict_val: "inner_rel m t f (ADict es k) \<Longrightarrow> tree_val t = BDict es"
  by (cases t) auto

lemma dom_deliver:
  assumes inv: "dom_inv m0 al input inp n a u" and step: "astep inp e a = Some a'" and ins: "in_input inp [e]"
  shows "\<exists>st u'. deliver (Some (dom_callbacks input)) e u = Some (st, u')
     \<and> (if st = BENCODE_OK then dom_inv m0 al input inp (Suc n) a' u' else dom_failed m0 (Suc n) st u')"
proof -
  obtain s m where u: "u = (s, m)" by (cases u)
  note inv = inv [unfolded u]
  show ?thesis
  proof (cases e)
    case (EInt i)
    then show ?thesis using dom_on_int_step [OF inv] step u by (simp add: callback_def dom_callbacks_def)
  next
    case (EStr off len)
    then have "off + len \<le> length inp" using ins by (simp add: in_input_def)
    from dom_on_string_step [OF inv _ this] show ?thesis
      using step u EStr by (simp add: callback_def dom_callbacks_def)
  next
    case EListBegin
    then have a: "opens a" "length (fst a) < 256" "a' = (AList [] # fst a, snd a)"
      using step by (auto split: if_splits)
    have eq: "deliver (Some (dom_callbacks input)) e u = open_container BENCODE_LIST (s, m)"
      using u EListBegin by (simp add: callback_def dom_callbacks_def dom_on_list_begin_def)
    show ?thesis unfolding eq a(3) by (rule open_container_step [OF inv a(1,2)]) simp
  next
    case EDictBegin
    then have a: "opens a" "length (fst a) < 256" "a' = (ADict [] None # fst a, snd a)"
      using step by (auto split: if_splits)
    have eq: "deliver (Some (dom_callbacks input)) e u = open_container BENCODE_DICT (s, m)"
      using u EDictBegin by (simp add: callback_def dom_callbacks_def dom_on_dict_begin_def)
    show ?thesis unfolding eq a(3) by (rule open_container_step [OF inv a(1,2)]) simp
  next
    case EListEnd
    then obtain vs fs r where a: "a = (AList vs # fs, r)" "add_value (BList vs) (fs, r) = Some a'"
      using step by (auto split: prod.splits list.splits aframe.splits)
    from close_container_step [OF inv [unfolded a(1)] a(2) inner_list_val] show ?thesis
      using u EListEnd by (simp add: callback_def dom_callbacks_def dom_on_list_end_def)
  next
    case EDictEnd
    then obtain es fs r where a: "a = (ADict es None # fs, r)" "add_value (BDict es) (fs, r) = Some a'"
      using step by (auto split: prod.splits list.splits aframe.splits option.splits)
    from close_container_step [OF inv [unfolded a(1)] a(2) inner_dict_val] show ?thesis
      using u EDictEnd by (simp add: callback_def dom_callbacks_def dom_on_dict_end_def)
  qed
qed

interpretation dom: sax_client inp "dom_callbacks input" "astep inp" "dom_inv m0 al input inp" "dom_failed m0"
  for m0 al input inp
  by unfold_locales (fact dom_deliver, fact dom_failed_mono)

lemma dom_inv_start:
  assumes "wf_mem m" and "alloc_ok al" and "borrowed m input inp" and "length inp \<le> SIZE_MAX"
  shows "dom_inv m al input inp 0 ([], None) (init_dom al, m)"
  using assms moves_refl [OF assms(1), of "{}"]
  by (simp add: dom_inv_def setting_def init_dom_def within_def)

end
