(* ===== verification/Sax_Path.thy ===== *)
theory Sax_Path
  imports Sax_Props
begin

text \<open>
  Runs of the streaming parser (\<open>src/parse_sax.c\<close>) without callbacks, as a validator, up to a place inside open
  containers: what is complete before the place does not matter, and an error at the place is the result.
\<close>

section \<open>Runs without callbacks\<close>

lemma deliver_None: "deliver None e u = Some (BENCODE_OK, u)"
  by (cases e) (simp_all add: callback_def)

lemma value_None:
  assumes "value_spec inp n pv" and "wf_state inp s" and "length inp - cur s < n"
    and "canonical (max_depth s - depth s) v" and "at_pos inp (cur s) (encode v)"
  obtains s' where "pv None s u = Some (BENCODE_OK, s', u)" and "cur s' = cur s + length (encode v)"
    and "same_frame s s'" and "wf_state inp s'"
  using assms(1-3)
proof (cases rule: value_specD)
  case (parsed s' w)
  have "w = v" using at_pos_encode_unique [OF parsed(3) assms(5)] .
  moreover have "pv None s u = Some (BENCODE_OK, s', u)" using parsed(1) [of None u] by (simp add: replay_def)
  ultimately show thesis using that parsed(4,5) wf_state_frame [OF assms(2) parsed(5,6)] by simp
next
  case (error st s' es w)
  then show thesis using assms(4,5) by blast
qed

text \<open>One entry of a dictionary takes two rounds of the loop.\<close>

definition open_dict :: "byte list \<Rightarrow> sax_state \<Rightarrow> byte list option \<Rightarrow> bool" where
  "open_dict inp s lk \<longleftrightarrow> wf_state inp s \<and> 0 < depth s
     \<and> (\<exists>sc. get_scope s (depth s - 1) = Some sc \<and> scope_ok inp sc \<and> expecting_key sc \<and> remembered inp sc = lk)"

lemma loop_key:
  assumes "open_dict inp s lk" and "at_pos inp (cur s) (enc_str k)"
  shows "parse_dict_loop pv inp None (Suc m) s u =
    (if lk = Some k then Some (BENCODE_ERR_DICT_DUPLICATE, pop_scope (advance (length (enc_str k)) s), u)
     else if \<exists>l. lk = Some l \<and> k < l then Some (BENCODE_ERR_DICT_UNSORTED, pop_scope (advance (length (enc_str k)) s), u)
     else parse_dict_loop pv inp None m
       (after_key s (depth s - 1) (the (get_scope s (depth s - 1))) k) u)"
proof -
  from assms(1) obtain sc where wf: "wf_state inp s" and sc: "get_scope s (depth s - 1) = Some sc" "scope_ok inp sc"
    "expecting_key sc" "remembered inp sc = lk" unfolding open_dict_def by blast
  obtain b bs where b: "enc_str k = b # bs" "is_digit b" using enc_str_Cons by blast
  then have at: "cur s < length inp" "inp ! cur s = b" "b \<noteq> 101" using assms(2) not_digit_marks by (auto simp: at_pos_Cons)
  then have "\<not> at_end s" "peek inp s = Some b" using wf by (simp_all add: at_end_def wf_state_def peek_def)
  then show ?thesis using at(3) sc parse_dict_key_at [OF wf sc(1,2) assms(2), of None u]
    by (auto simp: deliver_None Let_def simp del: deliver.simps)
qed

lemma after_key_props:
  assumes "open_dict inp s lk" and "at_pos inp (cur s) (enc_str k)"
  defines "s' \<equiv> after_key s (depth s - 1) (the (get_scope s (depth s - 1))) k"
  obtains sc where "get_scope s' (depth s' - 1) = Some sc" and "scope_ok inp sc" and "\<not> expecting_key sc"
    and "remembered inp sc = Some k" and "wf_state inp s'" and "depth s' = depth s" and "max_depth s' = max_depth s"
    and "cur s' = cur s + length (enc_str k)"
proof -
  from assms(1) obtain sc where wf: "wf_state inp s" and d: "0 < depth s" and sc: "get_scope s (depth s - 1) = Some sc"
    unfolding open_dict_def by blast
  let ?sc = "sc\<lparr>last_key := Some (cur s + length (dec (length k)) + 1), last_key_len := length k, expecting_key := False\<rparr>"
  have s': "s' = (advance (length (enc_str k)) s)\<lparr>scopes := (scopes s)[depth s - 1 := Some ?sc]\<rparr>"
    by (simp only: s'_def after_key_def sc option.sel)
  note w = with_scope [OF wf sc d at_pos_le [OF assms(2)], where sc' = ?sc, folded s']
  note r = remembered_after_key [OF assms(2), of sc]
  show thesis by (rule that [OF w(2) r(2,3,1) w(1,4-6)])
qed

lemma loop_value:
  assumes pv: "value_spec inp n pv" and "wf_state inp s" and "0 < depth s"
    and sc: "get_scope s (depth s - 1) = Some sc" "scope_ok inp sc" "\<not> expecting_key sc" "remembered inp sc = Some k"
    and "length inp - cur s < n" and v: "canonical (max_depth s - depth s) v" "at_pos inp (cur s) (encode v)"
  obtains s' where "parse_dict_loop (pv None) inp None (Suc m) s u = parse_dict_loop (pv None) inp None m s' u"
    and "open_dict inp s' (Some k)" and "cur s' = cur s + length (encode v)"
    and "depth s' = depth s" and "max_depth s' = max_depth s"
proof -
  obtain s1 where s1: "pv None s u = Some (BENCODE_OK, s1, u)" "cur s1 = cur s + length (encode v)" "same_frame s s1" "wf_state inp s1"
    by (rule value_None [OF pv assms(2) assms(8) v])
  obtain b bs where b: "encode v = b # bs" "starts v b" using encode_Cons by blast
  then have at: "cur s < length inp" "inp ! cur s = b" "b \<noteq> 101" using v(2) starts_not_end by (auto simp: at_pos_Cons)
  then have now: "\<not> at_end s" "peek inp s = Some b" using assms(2) by (simp_all add: at_end_def wf_state_def peek_def)
  have d: "depth s1 = depth s" "max_depth s1 = max_depth s" using s1(3) by (simp_all add: same_frame_def)
  have sc1: "get_scope s1 (depth s1 - 1) = Some sc" using get_scope_frame [OF s1(3)] sc(1) assms(3) d by simp
  let ?sc = "sc\<lparr>expecting_key := True\<rparr>"
  let ?s = "(advance 0 s1)\<lparr>scopes := (scopes s1)[depth s1 - 1 := Some ?sc]\<rparr>"
  have le: "cur s1 + 0 \<le> length inp" using s1(4) by (simp add: wf_state_def)
  have d1: "0 < depth s1" using d(1) assms(3) by simp
  note w = with_scope [OF s1(4) sc1 d1 le, where sc' = ?sc]
  show thesis
  proof (rule that [of ?s])
    have "put_scope s1 (depth s1 - 1) ?sc = Some ?s" using get_scope_bound [OF sc1] by (simp add: put_scope_def)
    then show "parse_dict_loop (pv None) inp None (Suc m) s u = parse_dict_loop (pv None) inp None m ?s u"
      using now at(3) sc(1,3) s1(1) sc1 d(1) by (simp add: Let_def)
    show "open_dict inp ?s (Some k)"
      using w(1,2,4) d1 sc(2,4) by (auto simp: open_dict_def scope_ok_def remembered_def)
  qed (use w(4-6) s1(2) d in simp_all)
qed

lemma loop_entries:
  assumes "value_spec inp n pv" and "open_dict inp s lk" and "at_pos inp (cur s) (encode_entries es)"
    and "entries_ok (max_depth s - depth s) lk es" and "length inp - cur s < m" and "length inp - cur s < n"
  obtains s' m' where "parse_dict_loop (pv None) inp None m s u = parse_dict_loop (pv None) inp None (Suc m') s' u"
    and "open_dict inp s' (if es = [] then lk else Some (fst (last es)))"
    and "cur s' = cur s + length (encode_entries es)" and "length inp - cur s' \<le> m'"
    and "depth s' = depth s" and "max_depth s' = max_depth s"
  using assms(2-)
proof (induction es arbitrary: s lk m thesis)
  case Nil
  then obtain m' where "m = Suc m'" by (cases m) auto
  then show ?case using Nil.prems by (intro Nil.prems(1) [of m' s]) simp_all
next
  case (Cons e es)
  obtain k v where e: "e = (k, v)" by (cases e)
  have atk: "at_pos inp (cur s) (enc_str k)" and atv: "at_pos inp (cur s + length (enc_str k)) (encode v)"
    and rest: "at_pos inp (cur s + length (enc_str k) + length (encode v)) (encode_entries es)"
    using Cons.prems(3) e by (auto simp: at_pos_append add.assoc)
  have ok: "\<forall>l. lk = Some l \<longrightarrow> l < k" "canonical (max_depth s - depth s) v" "entries_ok (max_depth s - depth s) (Some k) es"
    using Cons.prems(4) e by simp_all
  have long: "0 < length (enc_str k)" "0 < length (encode v)" using enc_str_Cons [of k] encode_Cons [of v] by auto
  have le: "cur s + length (enc_str k) + length (encode v) \<le> length inp" using at_pos_le [OF atv] by simp
  obtain m1 where m: "m = Suc (Suc m1)" using Cons.prems(5) le long by (cases m; cases "m - 1") auto
  define s1 where "s1 = after_key s (depth s - 1) (the (get_scope s (depth s - 1))) k"
  obtain sc where sc: "get_scope s1 (depth s1 - 1) = Some sc" "scope_ok inp sc" "\<not> expecting_key sc" "remembered inp sc = Some k"
    and wf1: "wf_state inp s1" and d1: "depth s1 = depth s" "max_depth s1 = max_depth s" "cur s1 = cur s + length (enc_str k)"
    unfolding s1_def by (rule after_key_props [OF Cons.prems(2) atk])
  have key: "parse_dict_loop (pv None) inp None m s u = parse_dict_loop (pv None) inp None (Suc m1) s1 u"
  proof -
    have "lk \<noteq> Some k" "\<not> (\<exists>l. lk = Some l \<and> k < l)" using ok(1) by auto
    then show ?thesis unfolding m s1_def by (simp only: loop_key [OF Cons.prems(2) atk] if_False)
  qed
  have pos: "0 < depth s1" using Cons.prems(2) d1(1) by (simp add: open_dict_def)
  have fuel: "length inp - cur s1 < n" using Cons.prems(6) d1(3) by simp
  obtain s2 where s2: "parse_dict_loop (pv None) inp None (Suc m1) s1 u = parse_dict_loop (pv None) inp None m1 s2 u"
    "open_dict inp s2 (Some k)" "cur s2 = cur s1 + length (encode v)" "depth s2 = depth s1" "max_depth s2 = max_depth s1"
    by (rule loop_value [OF assms(1) wf1 pos sc fuel]) (use ok(2) atv d1 in simp_all)
  have c2: "cur s2 = cur s + length (enc_str k) + length (encode v)" using s2(3) d1(3) by simp
  obtain s' m' where s': "parse_dict_loop (pv None) inp None m1 s2 u = parse_dict_loop (pv None) inp None (Suc m') s' u"
    "open_dict inp s' (if es = [] then Some k else Some (fst (last es)))"
    "cur s' = cur s2 + length (encode_entries es)" "length inp - cur s' \<le> m'" "depth s' = depth s2" "max_depth s' = max_depth s2"
  proof (rule Cons.IH [OF _ s2(2)])
    show "at_pos inp (cur s2) (encode_entries es)" using rest c2 by simp
    show "entries_ok (max_depth s2 - depth s2) (Some k) es" using ok(3) s2(4,5) d1 by simp
    show "length inp - cur s2 < m1" using Cons.prems(5) m c2 long le by linarith
    show "length inp - cur s2 < n" using Cons.prems(6) c2 by simp
  qed
  show ?case
  proof (rule Cons.prems(1))
    show "parse_dict_loop (pv None) inp None m s u = parse_dict_loop (pv None) inp None (Suc m') s' u"
      by (rule key [THEN trans, OF s2(1) [THEN trans, OF s'(1)]])
    show "open_dict inp s' (if e # es = [] then lk else Some (fst (last (e # es))))" using s'(2) e by (auto split: if_splits)
    show "cur s' = cur s + length (encode_entries (e # es))" using s'(3) c2 e by simp
  qed (use s'(4-6) s2(4,5) d1 in simp_all)
qed

section \<open>A list\<close>

lemma loop_items:
  assumes "value_spec inp n pv" and "wf_state inp s" and "at_pos inp (cur s) (encode_items vs)"
    and "\<forall>v\<in>set vs. canonical (max_depth s - depth s) v" and "length inp - cur s < m" and "length inp - cur s < n"
  obtains s' m' where "parse_list_loop (pv None) inp None m s u = parse_list_loop (pv None) inp None (Suc m') s' u"
    and "wf_state inp s'" and "cur s' = cur s + length (encode_items vs)" and "length inp - cur s' \<le> m'"
    and "depth s' = depth s" and "max_depth s' = max_depth s"
  using assms(2-)
proof (induction vs arbitrary: s m thesis)
  case Nil
  then obtain m' where "m = Suc m'" by (cases m) auto
  then show ?case using Nil.prems by (intro Nil.prems(1) [of m' s]) simp_all
next
  case (Cons v vs)
  have at: "at_pos inp (cur s) (encode v)" and rest: "at_pos inp (cur s + length (encode v)) (encode_items vs)"
    using Cons.prems(3) by (auto simp: at_pos_append)
  obtain b bs where b: "encode v = b # bs" "starts v b" using encode_Cons by blast
  then have byte: "cur s < length inp" "inp ! cur s = b" "b \<noteq> 101" using at starts_not_end by (auto simp: at_pos_Cons)
  then have now: "\<not> at_end s" "peek inp s = Some b" using Cons.prems(2) by (simp_all add: at_end_def wf_state_def peek_def)
  obtain m1 where m: "m = Suc m1" using Cons.prems(5) by (cases m) auto
  have can: "canonical (max_depth s - depth s) v" using Cons.prems(4) by simp
  obtain s1 where s1: "pv None s u = Some (BENCODE_OK, s1, u)" "cur s1 = cur s + length (encode v)" "same_frame s s1" "wf_state inp s1"
    by (rule value_None [OF assms(1) Cons.prems(2,6) can at])
  have step: "parse_list_loop (pv None) inp None m s u = parse_list_loop (pv None) inp None m1 s1 u"
    using now byte(3) s1(1) by (simp add: m)
  have d: "depth s1 = depth s" "max_depth s1 = max_depth s" using s1(3) by (simp_all add: same_frame_def)
  obtain s' m' where s': "parse_list_loop (pv None) inp None m1 s1 u = parse_list_loop (pv None) inp None (Suc m') s' u"
    "wf_state inp s'" "cur s' = cur s1 + length (encode_items vs)" "length inp - cur s' \<le> m'" "depth s' = depth s1"
    "max_depth s' = max_depth s1"
    by (rule Cons.IH [OF _ s1(4)]) (use rest s1(2) d Cons.prems(4-6) m b(1) byte(1) in auto)
  show ?case by (rule Cons.prems(1) [OF step [THEN trans, OF s'(1)] s'(2)]) (use s' s1(2) d in simp_all)
qed

section \<open>Places inside a document\<close>

text \<open>A place where a value is expected: after the elements \<open>vs\<close> of an open list, or after the entries \<open>es\<close> and the
  key \<open>k\<close> of an open dictionary.  A path is the open containers around a place, the outermost first.\<close>

datatype place =
    In_list "bval list"
  | In_dict "(byte list \<times> bval) list" "byte list"

type_synonym path = "place list"

fun place_text :: "place \<Rightarrow> byte list" where
  "place_text (In_list vs) = 108 # encode_items vs"
| "place_text (In_dict es k) = 100 # encode_entries es @ enc_str k"

fun place_ok :: "nat \<Rightarrow> place \<Rightarrow> bool" where
  "place_ok d (In_list vs) \<longleftrightarrow> canonical d (BList vs)"
| "place_ok d (In_dict es k) \<longleftrightarrow> canonical d (BDict (es @ [(k, BInt 0)]))"

abbreviation path_text :: "path \<Rightarrow> byte list" where
  "path_text c \<equiv> concat (map place_text c)"

fun path_ok :: "nat \<Rightarrow> path \<Rightarrow> bool" where
  "path_ok d [] \<longleftrightarrow> True"
| "path_ok d (p # c) \<longleftrightarrow> place_ok d p \<and> path_ok (d - 1) c"

lemma place_ok_pos: "place_ok d p \<Longrightarrow> 0 < d"
  by (cases p) simp_all

lemma path_ok_length: "path_ok d c \<Longrightarrow> length c \<le> d"
  by (induction d c rule: path_ok.induct) (auto dest: place_ok_pos)

lemma entries_ok_snoc:
  "entries_ok d lk (es @ [(k, v)]) \<longleftrightarrow> entries_ok d lk es \<and> length k \<le> SIZE_MAX \<and> canonical d v
     \<and> (\<forall>l. (if es = [] then lk else Some (fst (last es))) = Some l \<longrightarrow> l < k)"
  by (induction d lk es rule: entries_ok.induct) auto

lemma canonical_entries: "canonical d (BDict es) \<longleftrightarrow> 0 < d \<and> entries_ok (d - 1) None es"
  by (auto simp: entries_ok_canonical)

section \<open>Opening a container\<close>

lemma enter_container:
  assumes "wf_state inp s" and "depth s < max_depth s"
  shows "at_pos inp (cur s) [108] \<Longrightarrow> parse_value inp None (Suc n) s u
      = parse_list_loop (parse_value inp None n) inp None n (pushed s False) u"
    and "at_pos inp (cur s) [100] \<Longrightarrow> parse_value inp None (Suc n) s u
      = parse_dict_loop (parse_value inp None n) inp None n (pushed s True) u"
  using push_scope_eq [OF assms(1)] assms
  by (simp_all add: at_pos_single at_end_def wf_state_def peek_def parse_list_def parse_dict_def callback_def)

lemma open_dict_pushed:
  "wf_state inp s \<Longrightarrow> depth s < max_depth s \<Longrightarrow> cur s < length inp \<Longrightarrow> open_dict inp (pushed s True) None"
  using pushed_props [of inp s True] by (simp add: open_dict_def scope_ok_def remembered_def)

lemma pushed_depth [simp]: "depth (pushed s dict) = depth s + 1" "max_depth (pushed s dict) = max_depth s"
  by (simp_all add: pushed_def)

text \<open>The state that is reached in an open dictionary after complete entries.\<close>

lemma enter_dict:
  assumes "wf_state inp s" and "canonical (max_depth s - depth s) (BDict es)"
    and "at_pos inp (cur s) (100 # encode_entries es)" and "length inp - cur s < n"
  obtains s' m where "parse_value inp None n s u = parse_dict_loop (parse_value inp None (n - 1)) inp None (Suc m) s' u"
    and "open_dict inp s' (if es = [] then None else Some (fst (last es)))"
    and "cur s' = cur s + 1 + length (encode_entries es)" and "length inp - cur s' \<le> m" and "length inp - cur s' < n - 1"
    and "depth s' = depth s + 1" and "max_depth s' = max_depth s"
proof -
  have at: "at_pos inp (cur s) [100]" and rest: "at_pos inp (cur s + 1) (encode_entries es)" and lt: "cur s < length inp"
    using assms(3) by (simp_all add: at_pos_Cons)
  have d: "depth s < max_depth s" and ok: "entries_ok (max_depth s - depth s - 1) None es"
    using assms(2) by (simp_all add: canonical_entries del: canonical.simps)
  obtain n1 where n: "n = Suc n1" using assms(4) by (cases n) auto
  let ?s = "pushed s True"
  have c: "cur ?s = cur s + 1" by (rule pushed_props(3) [OF assms(1) d lt])
  have rest: "at_pos inp (cur ?s) (encode_entries es)" and ok: "entries_ok (max_depth ?s - depth ?s) None es"
    and fuel: "length inp - cur ?s < n1"
    using assms(4) lt n c rest ok by simp_all
  obtain s' m where s': "parse_dict_loop (parse_value inp None n1) inp None n1 (pushed s True) u
      = parse_dict_loop (parse_value inp None n1) inp None (Suc m) s' u"
    "open_dict inp s' (if es = [] then None else Some (fst (last es)))"
    "cur s' = cur (pushed s True) + length (encode_entries es)" "length inp - cur s' \<le> m"
    "depth s' = depth (pushed s True)" "max_depth s' = max_depth (pushed s True)"
    by (rule loop_entries [OF parse_value_spec open_dict_pushed [OF assms(1) d lt] rest ok fuel fuel])
  show thesis
  proof (rule that)
    show "parse_value inp None n s u = parse_dict_loop (parse_value inp None (n - 1)) inp None (Suc m) s' u"
      unfolding n diff_Suc_1 by (rule enter_container(2) [OF assms(1) d at, THEN trans, OF s'(1)])
    show "open_dict inp s' (if es = [] then None else Some (fst (last es)))" by (rule s'(2))
    show "cur s' = cur s + 1 + length (encode_entries es)" using s'(3) c by simp
    show "length inp - cur s' < n - 1" using s'(3) fuel n by simp
  qed (use s'(4-6) in simp_all)
qed

section \<open>Errors inside containers\<close>

text \<open>An error of the value at a place ends the parse.\<close>

definition fails_at :: "byte list \<Rightarrow> nat \<Rightarrow> sax_state \<Rightarrow> 'u \<Rightarrow> bencode_status \<Rightarrow> nat \<Rightarrow> bool" where
  "fails_at inp n s u st c \<longleftrightarrow> st \<noteq> BENCODE_OK \<and> (\<exists>t. parse_value inp None n s u = Some (st, t, u) \<and> cur t = c)"

lemma list_value_fails:
  assumes "wf_state inp s" and "0 < n" and "fails_at inp n s u st c" and "\<not> at_pos inp (cur s) [101]"
  shows "\<exists>t. parse_list_loop (parse_value inp None n) inp None (Suc m) s u = Some (st, t, u) \<and> cur t = c"
proof (cases "at_end s")
  case True
  then obtain n' where "n = Suc n'" using assms(2) by (cases n) auto
  then show ?thesis using assms(3) True by (auto simp: fails_at_def)
next
  case False
  then have "peek inp s = Some (inp ! cur s)" "inp ! cur s \<noteq> 101"
    using assms(1,4) by (auto simp: at_pos_single at_end_def wf_state_def peek_def)
  then show ?thesis using assms(3) False by (auto simp: fails_at_def simp del: parse_value.simps)
qed

lemma dict_value_fails:
  assumes "wf_state inp s" and "0 < n" and "fails_at inp n s u st c" and "\<not> at_pos inp (cur s) [101]"
    and sc: "get_scope s (depth s - 1) = Some sc" "\<not> expecting_key sc"
  shows "\<exists>t. parse_dict_loop (parse_value inp None n) inp None (Suc m) s u = Some (st, t, u) \<and> cur t = c"
proof (cases "at_end s")
  case True
  then obtain n' where "n = Suc n'" using assms(2) by (cases n) auto
  then show ?thesis using assms(3) True by (auto simp: fails_at_def)
next
  case False
  then have "peek inp s = Some (inp ! cur s)" "inp ! cur s \<noteq> 101"
    using assms(1,4) by (auto simp: at_pos_single at_end_def wf_state_def peek_def)
  then show ?thesis using assms(3) False sc by (auto simp: fails_at_def Let_def simp del: parse_value.simps)
qed

text \<open>\<open>inside inp n s u p s'\<close>: the run from \<open>s\<close> passes through \<open>s'\<close>, at the end of the place \<open>p\<close>, and when the
  value there fails then so does the whole.\<close>

definition inside :: "byte list \<Rightarrow> nat \<Rightarrow> sax_state \<Rightarrow> 'u \<Rightarrow> place \<Rightarrow> sax_state \<Rightarrow> bool" where
  "inside inp n s u p s' \<longleftrightarrow> wf_state inp s' \<and> cur s' = cur s + length (place_text p) \<and> depth s' = depth s + 1
     \<and> max_depth s' = max_depth s \<and> length inp - cur s' < n - 1
     \<and> (\<forall>st c. fails_at inp (n - 1) s' u st c \<longrightarrow> \<not> at_pos inp (cur s') [101] \<longrightarrow> fails_at inp n s u st c)"

lemma inside_list:
  assumes wf: "wf_state inp s" and ok: "place_ok (max_depth s - depth s) (In_list vs)"
    and at: "at_pos inp (cur s) (place_text (In_list vs))" and fuel: "length inp - cur s < n"
  shows "\<exists>s'. inside inp n s u (In_list vs) s'"
proof -
  have at1: "at_pos inp (cur s) [108]" and rest: "at_pos inp (cur s + 1) (encode_items vs)" and lt: "cur s < length inp"
    using at by (simp_all add: at_pos_Cons)
  have d: "depth s < max_depth s" using place_ok_pos [OF ok] by simp
  obtain n1 where n: "n = Suc n1" using fuel by (cases n) auto
  let ?s = "pushed s False"
  note pushed = pushed_props [OF wf d lt, of False]
  have f: "length inp - cur ?s < n1" and rest: "at_pos inp (cur ?s) (encode_items vs)"
    and can: "\<forall>v\<in>set vs. canonical (max_depth ?s - depth ?s) v"
    using fuel n lt pushed(3) rest ok by simp_all
  obtain s' m' where s': "parse_list_loop (parse_value inp None n1) inp None n1 ?s u
      = parse_list_loop (parse_value inp None n1) inp None (Suc m') s' u" "wf_state inp s'"
    "cur s' = cur ?s + length (encode_items vs)" "length inp - cur s' \<le> m'" "depth s' = depth ?s" "max_depth s' = max_depth ?s"
    by (rule loop_items [OF parse_value_spec pushed(1) rest can f f])
  have "fails_at inp n s u st c" if v: "fails_at inp (n - 1) s' u st c" "\<not> at_pos inp (cur s') [101]" for st c
  proof -
    have v1: "fails_at inp n1 s' u st c" "0 < n1" using v(1) n f by simp_all
    have "parse_value inp None n s u = parse_list_loop (parse_value inp None n1) inp None (Suc m') s' u"
      unfolding n by (rule enter_container(1) [OF wf d at1, THEN trans, OF s'(1)])
    then show ?thesis using list_value_fails [OF s'(2) v1(2,1) v(2), of m'] v(1)
      unfolding fails_at_def by (simp only:) blast
  qed
  then have "inside inp n s u (In_list vs) s'" using f n s' pushed(3) by (simp add: inside_def)
  then show ?thesis by blast
qed

text \<open>After the key \<open>k\<close> in a dictionary that has the entries \<open>es\<close>.\<close>

lemma inside_dict:
  assumes wf: "wf_state inp s" and ok: "place_ok (max_depth s - depth s) (In_dict es k)"
    and at: "at_pos inp (cur s) (place_text (In_dict es k))" and fuel: "length inp - cur s < n"
  shows "\<exists>s'. inside inp n s u (In_dict es k) s'"
proof -
  let ?lk = "if es = [] then None else Some (fst (last es))"
  have at1: "at_pos inp (cur s) (100 # encode_entries es)" and atk: "at_pos inp (cur s + 1 + length (encode_entries es)) (enc_str k)"
    using at by (simp_all add: at_pos_Cons at_pos_append)
  have can: "canonical (max_depth s - depth s) (BDict (es @ [(k, BInt 0)]))" using ok by simp
  then have es: "canonical (max_depth s - depth s) (BDict es)" and k: "\<forall>l. ?lk = Some l \<longrightarrow> l < k"
    by (simp_all add: canonical_entries entries_ok_snoc del: canonical.simps)
  obtain s0 m where s0: "parse_value inp None n s u = parse_dict_loop (parse_value inp None (n - 1)) inp None (Suc m) s0 u"
    "open_dict inp s0 ?lk" "cur s0 = cur s + 1 + length (encode_entries es)" "length inp - cur s0 \<le> m"
    "length inp - cur s0 < n - 1" "depth s0 = depth s + 1" "max_depth s0 = max_depth s"
    by (rule enter_dict [OF wf es at1 fuel])
  have at0: "at_pos inp (cur s0) (enc_str k)" using atk s0(3) by simp
  let ?s = "after_key s0 (depth s0 - 1) (the (get_scope s0 (depth s0 - 1))) k"
  obtain sc where sc: "get_scope ?s (depth ?s - 1) = Some sc" "scope_ok inp sc" "\<not> expecting_key sc"
    "remembered inp sc = Some k" "wf_state inp ?s" "depth ?s = depth s0" "max_depth ?s = max_depth s0"
    "cur ?s = cur s0 + length (enc_str k)"
    by (rule after_key_props [OF s0(2) at0])
  obtain b bs where "enc_str k = b # bs" using enc_str_Cons by blast
  then have "cur s0 < length inp" using at0 by (simp add: at_pos_Cons)
  then obtain m1 where m: "m = Suc m1" using s0(4) by (cases m) auto
  have "?lk \<noteq> Some k" "\<not> (\<exists>l. ?lk = Some l \<and> k < l)" using k by auto
  then have key: "parse_dict_loop (parse_value inp None (n - 1)) inp None (Suc m) s0 u
      = parse_dict_loop (parse_value inp None (n - 1)) inp None m ?s u"
    by (simp only: loop_key [OF s0(2) at0] if_False)
  have "0 < n - 1" using s0(5) by simp
  then have "fails_at inp n s u st c" if v: "fails_at inp (n - 1) ?s u st c" "\<not> at_pos inp (cur ?s) [101]" for st c
    using dict_value_fails [OF sc(5) _ v sc(1,3), of m1] v(1) s0(1) key
    unfolding fails_at_def m by (simp only:) blast
  then have "inside inp n s u (In_dict es k) ?s" using sc(5-8) s0(3,5-7) by (simp add: inside_def)
  then show ?thesis by blast
qed

lemma place_run:
  assumes wf: "wf_state inp s" and ok: "place_ok (max_depth s - depth s) p" and at: "at_pos inp (cur s) (place_text p)"
    and fuel: "length inp - cur s < n"
  obtains s' where "wf_state inp s'" and "cur s' = cur s + length (place_text p)" and "depth s' = depth s + 1"
    and "max_depth s' = max_depth s" and "length inp - cur s' < n - 1"
    and "\<And>st c. fails_at inp (n - 1) s' u st c \<Longrightarrow> \<not> at_pos inp (cur s') [101] \<Longrightarrow> fails_at inp n s u st c"
proof -
  have "\<exists>s'. inside inp n s u p s'"
  proof (cases p)
    case (In_list vs)
    then show ?thesis using inside_list [OF wf _ _ fuel, of vs u] ok at by blast
  next
    case (In_dict es k)
    then show ?thesis using inside_dict [OF wf _ _ fuel, of es k u] ok at by blast
  qed
  then obtain s' where "inside inp n s u p s'" ..
  then show thesis using that [of s'] unfolding inside_def by blast
qed

text \<open>A whole path.\<close>

lemma path_run:
  assumes "wf_state inp s" and "path_ok (max_depth s - depth s) c" and "at_pos inp (cur s) (path_text c)"
    and "length inp - cur s < n" and "c \<noteq> [] \<Longrightarrow> \<not> at_pos inp (cur s + length (path_text c)) [101]"
  obtains s' n' where "wf_state inp s'" and "cur s' = cur s + length (path_text c)" and "depth s' = depth s + length c"
    and "max_depth s' = max_depth s" and "length inp - cur s' < n'"
    and "\<And>st k. fails_at inp n' s' u st k \<Longrightarrow> fails_at inp n s u st k"
  using assms
proof (induction c arbitrary: s n thesis)
  case Nil
  then show ?case by (intro Nil.prems(1) [of s n]) simp_all
next
  case (Cons p c)
  have at: "at_pos inp (cur s) (place_text p)" and rest: "at_pos inp (cur s + length (place_text p)) (path_text c)"
    using Cons.prems(4) by (simp_all add: at_pos_append)
  have ok: "place_ok (max_depth s - depth s) p" "path_ok (max_depth s - depth s - 1) c" using Cons.prems(3) by simp_all
  obtain s1 where s1: "wf_state inp s1" "cur s1 = cur s + length (place_text p)" "depth s1 = depth s + 1"
    "max_depth s1 = max_depth s" "length inp - cur s1 < n - 1"
    "\<And>st k. fails_at inp (n - 1) s1 u st k \<Longrightarrow> \<not> at_pos inp (cur s1) [101] \<Longrightarrow> fails_at inp n s u st k"
    using place_run [OF Cons.prems(2) ok(1) at Cons.prems(5), where u = u] by blast
  have rest1: "at_pos inp (cur s1) (path_text c)" and ok1: "path_ok (max_depth s1 - depth s1) c" using rest ok(2) s1(2-4) by simp_all
  have no_end: "\<not> at_pos inp (cur s1) [101]"
  proof (cases c)
    case Nil
    then show ?thesis using Cons.prems(6) s1(2) by simp
  next
    case (Cons p' c')
    then show ?thesis using rest1 by (cases p') (simp_all add: at_pos_Cons at_pos_single)
  qed
  have end1: "c \<noteq> [] \<Longrightarrow> \<not> at_pos inp (cur s1 + length (path_text c)) [101]" using Cons.prems(6) s1(2) by (simp add: add.assoc)
  obtain s' n' where s': "wf_state inp s'" "cur s' = cur s1 + length (path_text c)" "depth s' = depth s1 + length c"
    "max_depth s' = max_depth s1" "length inp - cur s' < n'" "\<And>st k. fails_at inp n' s' u st k \<Longrightarrow> fails_at inp (n - 1) s1 u st k"
    using Cons.IH [OF _ s1(1) ok1 rest1 s1(5) end1] by blast
  show ?case
  proof (rule Cons.prems(1) [OF s'(1)])
    show "fails_at inp n s u st k" if "fails_at inp n' s' u st k" for st k using s1(6) [OF s'(6) [OF that] no_end] .
  qed (use s'(2-5) s1(2-4) in simp_all)
qed

text \<open>From the start of the input: an error at the place is the result of \<open>bencode_parse_sax\<close>.\<close>

lemma sax_path:
  assumes "length inp \<le> SIZE_MAX" and inp: "inp = path_text c @ rest" and "path_ok (effective_depth md) c"
    and "c \<noteq> [] \<Longrightarrow> \<not> prefix [101] rest"
  obtains s n where "wf_state inp s" and "cur s = length (path_text c)" and "drop (cur s) inp = rest" and "depth s = length c"
    and "max_depth s = effective_depth md" and "length inp - cur s < n"
    and "\<And>st k. fails_at inp n s u st k \<Longrightarrow> bencode_parse_sax (Some inp) (length inp) None u md = Some (st, k, u)"
proof -
  let ?s = "init_state (length inp) md"
  have init: "cur ?s = 0" "depth ?s = 0" "max_depth ?s = effective_depth md" by (simp_all add: init_state_def)
  have ok: "path_ok (max_depth ?s - depth ?s) c" using assms(3) init by simp
  have at: "at_pos inp (cur ?s) (path_text c)" using inp init by (auto simp: at_pos_whole)
  have fuel: "length inp - cur ?s < length inp + 1" by simp
  have no_end: "c \<noteq> [] \<Longrightarrow> \<not> at_pos inp (cur ?s + length (path_text c)) [101]"
    using assms(4) init by (cases rest) (auto simp: inp at_pos_single nth_append)
  obtain s n where s: "wf_state inp s" "cur s = cur ?s + length (path_text c)" "depth s = depth ?s + length c"
    "max_depth s = max_depth ?s" "length inp - cur s < n"
    "\<And>st k. fails_at inp n s u st k \<Longrightarrow> fails_at inp (length inp + 1) ?s u st k"
    using path_run [OF wf_init_state [OF assms(1)] ok at fuel no_end, where u = u] by blast
  have result: "bencode_parse_sax (Some inp) (length inp) None u md = Some (st, k, u)"
    if "fails_at inp (length inp + 1) ?s u st k" for st k
    using that init(1)
    by (cases "inp = []") (auto simp: fails_at_def bencode_parse_sax_def at_end_def init_state_def simp del: parse_value.simps simp: parse_value.simps(2) [where n = 0])
  show thesis by (rule that [OF s(1) _ _ _ _ s(5) result [OF s(6)]]) (use s(2-4) init inp in simp_all)
qed

end
