(* ===== verification/Sax_Errors.thy ===== *)
theory Sax_Errors
  imports Sax_Path
begin

text \<open>
  What each error status of the streaming parser (\<open>src/parse_sax.c\<close>) means: a table of statuses over the bytes at
  the place that the parser has reached (\<open>value_verdict\<close> where a value is expected, \<open>key_verdict\<close> where a key is),
  that the parser returns the status of the table at every place of every document, and that every rejected
  input has such a place.  Input that is cut off is told apart from malformed input.
\<close>

section \<open>The table\<close>

text \<open>The bytes \<open>r\<close> after the mark of an integer.\<close>

definition int_verdict_of :: "byte list \<Rightarrow> bencode_status" where
  "int_verdict_of r =
     (let neg = prefix [45] r; ds = (if neg then tl r else r)
      in int_verdict neg (takeWhile is_digit ds) (dropWhile is_digit ds))"

definition str_verdict_of :: "byte list \<Rightarrow> bencode_status" where
  "str_verdict_of r = str_verdict (takeWhile is_digit r) (dropWhile is_digit r)"

text \<open>The bytes \<open>r\<close> where a value is expected, with \<open>room\<close> levels of nesting left.  \<open>BENCODE_OK\<close> means that the value
  is complete, or that it is a container whose content decides.\<close>

definition value_verdict :: "nat \<Rightarrow> byte list \<Rightarrow> bencode_status" where
  "value_verdict room r =
     (if r = [] then BENCODE_ERR_TRUNCATED
      else if hd r = 105 then int_verdict_of (tl r)
      else if hd r = 108 \<or> hd r = 100 then if room = 0 then BENCODE_ERR_NESTING_TOO_DEEP else BENCODE_OK
      else if is_digit (hd r) then str_verdict_of r
      else BENCODE_ERR_UNEXPECTED_BYTE)"

text \<open>The bytes \<open>r\<close> where a key or the end mark of a dictionary is expected, after the key \<open>lk\<close> if there was one.\<close>

definition key_read :: "byte list \<Rightarrow> byte list" where
  "key_read r = take (dval (takeWhile is_digit r)) (tl (dropWhile is_digit r))"

definition text_after_key :: "byte list \<Rightarrow> byte list" where
  "text_after_key r = drop (dval (takeWhile is_digit r)) (tl (dropWhile is_digit r))"

definition key_verdict :: "byte list option \<Rightarrow> byte list \<Rightarrow> bencode_status" where
  "key_verdict lk r =
     (if r = [] then BENCODE_ERR_TRUNCATED
      else if hd r = 101 then BENCODE_OK
      else if \<not> is_digit (hd r) then BENCODE_ERR_DICT_BAD_KEY
      else if str_verdict_of r \<noteq> BENCODE_OK then str_verdict_of r
      else if lk = Some (key_read r) then BENCODE_ERR_DICT_DUPLICATE
      else if case lk of None \<Rightarrow> False | Some l \<Rightarrow> key_read r < l then BENCODE_ERR_DICT_UNSORTED
      else if prefix [101] (text_after_key r) then BENCODE_ERR_DICT_MISSING_VALUE
      else BENCODE_OK)"

section \<open>The parser follows the table\<close>

lemma digits_drop:
  "digits_at inp p = takeWhile is_digit (drop p inp)"
  "drop (p + length (digits_at inp p)) inp = dropWhile is_digit (drop p inp)"
proof -
  show ds: "digits_at inp p = takeWhile is_digit (drop p inp)" by (simp add: digits_at_def)
  show "drop (p + length (digits_at inp p)) inp = dropWhile is_digit (drop p inp)"
    by (simp add: ds dropWhile_eq_drop add.commute)
qed

lemma hd_drop: "drop p xs = b # bs \<Longrightarrow> p < length xs \<and> xs ! p = b \<and> drop (Suc p) xs = bs"
  by (metis drop_eq_Nil2 hd_drop_conv_nth linorder_not_le list.discI list.sel(1,3) tl_drop drop_Suc)

lemma parse_string_verdict:
  assumes "wf_state inp s" and "str_verdict_of (drop (cur s) inp) \<noteq> BENCODE_OK"
  obtains k where "parse_string inp s = Some (str_verdict_of (drop (cur s) inp), 0, 0, advance k s)" and "cur s + k \<le> length inp"
proof -
  have lim: "cur s \<le> lim s" "lim s = length inp" using assms(1) by (simp_all add: wf_state_def)
  note table = parse_string_table [OF lim, unfolded digits_drop(2), unfolded digits_drop(1), folded str_verdict_of_def]
  from table assms(2) obtain k where
    "parse_string inp s = Some (str_verdict_of (drop (cur s) inp), 0, 0, advance k s)" "cur s + k \<le> lim s"
    by (simp only: if_False) blast
  then show thesis using that lim(2) by simp
qed

lemma int_verdict_at:
  assumes r: "drop p inp = 105 # r"
  defines "q \<equiv> int_digits inp p"
  shows "int_verdict (minus_at inp (p + 1)) (digits_at inp q) (drop (q + length (digits_at inp q)) inp) = int_verdict_of r"
    and "p < q" and "q + length (digits_at inp q) \<le> length inp"
proof -
  have at: "p < length inp" "drop (p + 1) inp = r" using hd_drop [OF r] by simp_all
  have neg: "minus_at inp (p + 1) \<longleftrightarrow> prefix [45] r"
    unfolding minus_at_def at(2) [symmetric]
    by (cases "drop (p + 1) inp") (auto dest: hd_drop simp: not_less [symmetric])
  have ds: "drop q inp = (if prefix [45] r then tl r else r)"
    unfolding q_def int_digits_def neg using at(2) by (auto simp: tl_drop drop_Suc)
  show "int_verdict (minus_at inp (p + 1)) (digits_at inp q) (drop (q + length (digits_at inp q)) inp) = int_verdict_of r"
    unfolding digits_drop(2) unfolding digits_drop(1) ds neg by (simp add: int_verdict_of_def Let_def)
  have "q \<le> length inp" "p < q" using at by (auto simp: q_def int_digits_def minus_at_def)
  then show "p < q" "q + length (digits_at inp q) \<le> length inp" using digits_at_length by blast+
qed

lemma parse_int_verdict:
  fixes u :: 'u
  assumes "wf_state inp s" and r: "drop (cur s) inp = 105 # r" and "int_verdict_of r \<noteq> BENCODE_OK"
  obtains k where "parse_int inp None s u = Some (int_verdict_of r, advance k s, u)" and "cur s + k \<le> length inp"
proof -
  have at: "cur s < length inp" "inp ! cur s = 105" using hd_drop [OF r] by simp_all
  have lim: "lim s = length inp" using assms(1) by (simp add: wf_state_def)
  note v = int_verdict_at [OF r]
  have "int_outcome (parse_int inp :: 'u callback_parser) s (int_verdict_of r)
      (int_of (minus_at inp (cur s + 1)) (digits_at inp (int_digits inp (cur s))))
      (int_digits inp (cur s) - cur s + length (digits_at inp (int_digits inp (cur s))))"
    unfolding v(1) [symmetric] by (rule parse_int_table [OF lim at])
  then obtain k where
    "parse_int inp None s u = Some (int_verdict_of r, advance k s, u)"
    "k \<le> int_digits inp (cur s) - cur s + length (digits_at inp (int_digits inp (cur s)))"
    unfolding int_outcome_def using assms(3) by (simp only: if_False) blast
  then show thesis using that v(2,3) by simp
qed

lemma value_verdict_fails:
  assumes wf: "wf_state inp s" and "length inp - cur s < n"
    and bad: "value_verdict (max_depth s - depth s) (drop (cur s) inp) \<noteq> BENCODE_OK"
  obtains k where "fails_at inp n s u (value_verdict (max_depth s - depth s) (drop (cur s) inp)) k"
    and "cur s \<le> k" and "k \<le> length inp"
proof -
  obtain n' where n: "n = Suc n'" using assms(2) by (cases n) auto
  have lim: "lim s = length inp" "cur s \<le> length inp" "depth s \<le> max_depth s" using wf by (simp_all add: wf_state_def)
  show thesis
  proof (cases "drop (cur s) inp")
    case Nil
    then show thesis using that [of "cur s"] lim by (simp add: fails_at_def value_verdict_def n at_end_def)
  next
    case (Cons b r)
    then have at: "cur s < length inp" "inp ! cur s = b" using hd_drop [OF Cons] by simp_all
    have now: "\<not> at_end s" "peek inp s = Some b" using at lim by (simp_all add: at_end_def peek_def)
    consider (int) "b = 105" | (deep) "b = 108 \<or> b = 100" "depth s = max_depth s"
      | (str) "is_digit b" "b \<noteq> 105" "b \<noteq> 108" "b \<noteq> 100"
      | (none) "\<not> is_digit b" "b \<noteq> 105" "b \<noteq> 108" "b \<noteq> 100"
      using bad Cons lim(3) by (auto simp: value_verdict_def split: if_splits)
    then show thesis
    proof cases
      case int
      then have v: "value_verdict (max_depth s - depth s) (drop (cur s) inp) = int_verdict_of r"
        using Cons by (simp add: value_verdict_def)
      obtain k where "parse_int inp None s u = Some (int_verdict_of r, advance k s, u)" "cur s + k \<le> length inp"
        by (rule parse_int_verdict [OF wf Cons [unfolded int] bad [unfolded v]])
      then show thesis using that [of "cur s + k"] now int bad unfolding v by (simp add: fails_at_def n)
    next
      case deep
      have "push_scope (advance 1 s) dict = Some (BENCODE_ERR_NESTING_TOO_DEEP, advance 1 s)" for dict
        using push_scope_eq [OF wf, of dict] deep(2) by simp
      then show thesis using that [of "cur s + 1"] now deep at Cons
        by (auto simp: fails_at_def n value_verdict_def parse_list_def parse_dict_def)
    next
      case str
      then have v: "value_verdict (max_depth s - depth s) (drop (cur s) inp) = str_verdict_of (drop (cur s) inp)"
        using Cons by (simp add: value_verdict_def)
      obtain k where "parse_string inp s = Some (str_verdict_of (drop (cur s) inp), 0, 0, advance k s)" "cur s + k \<le> length inp"
        by (rule parse_string_verdict [OF wf bad [unfolded v]])
      then show thesis using that [of "cur s + k"] now str bad unfolding v by (simp add: fails_at_def n parse_string_value_def)
    next
      case none
      then show thesis using that [of "cur s"] now at Cons by (simp add: fails_at_def n value_verdict_def)
    qed
  qed
qed

lemma at_pos_drop: "drop p inp = xs @ ys \<Longrightarrow> xs \<noteq> [] \<Longrightarrow> at_pos inp p xs \<and> drop (p + length xs) inp = ys"
proof -
  assume eq: "drop p inp = xs @ ys" and "xs \<noteq> []"
  have "length inp - p = length xs + length ys" "length xs \<noteq> 0" using arg_cong [OF eq, of length] \<open>xs \<noteq> []\<close> by simp_all
  then have "p + length xs \<le> length inp" by linarith
  moreover have "slice inp p (length xs) = xs" using eq by (simp add: slice_def)
  moreover have "drop (p + length xs) inp = ys" using eq by (metis add.commute append_eq_conv_conj drop_drop)
  ultimately show ?thesis by (simp add: at_pos_def)
qed

text \<open>A complete string, as the table reads it.\<close>

lemma str_verdict_of_ok:
  assumes "str_verdict_of r = BENCODE_OK"
  shows "r = enc_str (key_read r) @ text_after_key r" and "is_digit (hd r)"
proof -
  let ?ds = "takeWhile is_digit r"
  have v: "numeral_ok ?ds" "dropWhile is_digit r \<noteq> []" "hd (dropWhile is_digit r) = 58"
    "dval ?ds \<le> length (tl (dropWhile is_digit r))"
    using assms by (auto simp: str_verdict_of_def str_verdict_def split: if_splits)
  obtain xs where xs: "dropWhile is_digit r = 58 # xs" using v(2,3) by (cases "dropWhile is_digit r") auto
  have "length (key_read r) = dval ?ds" using v(4) by (simp add: key_read_def)
  then have "enc_str (key_read r) @ text_after_key r = ?ds @ 58 # xs"
    using dec_dval [OF v(1)] by (simp add: enc_str_def key_read_def text_after_key_def xs)
  then show "r = enc_str (key_read r) @ text_after_key r" using takeWhile_dropWhile_id [of is_digit r] xs by simp
  show "is_digit (hd r)" using v(1) by (cases r) (auto simp: numeral_ok_def split: if_splits)
qed

lemma str_verdict_of_enc_str:
  assumes "length k \<le> SIZE_MAX"
  shows "str_verdict_of (enc_str k @ x) = BENCODE_OK" and "key_read (enc_str k @ x) = k" and "text_after_key (enc_str k @ x) = x"
proof -
  have "takeWhile is_digit (enc_str k @ x) = dec (length k)" "dropWhile is_digit (enc_str k @ x) = 58 # k @ x"
    using dec_digits [of _ "length k"] by (simp_all add: enc_str_def takeWhile_append2 dropWhile_append2)
  then show "str_verdict_of (enc_str k @ x) = BENCODE_OK" "key_read (enc_str k @ x) = k" "text_after_key (enc_str k @ x) = x"
    using assms dec_ok [of "length k"] by (simp_all add: str_verdict_of_def str_verdict_def key_read_def text_after_key_def)
qed

text \<open>A key that can be read but is out of order, or that no value follows.\<close>

lemma readable_key_fails:
  assumes od: "open_dict inp s lk" and m: "length inp - cur s \<le> m" and r: "drop (cur s) inp = b # r" "is_digit b" "b \<noteq> 101"
    and key: "str_verdict_of (drop (cur s) inp) = BENCODE_OK" and bad: "key_verdict lk (drop (cur s) inp) \<noteq> BENCODE_OK"
  obtains t where "parse_dict_loop pv inp None (Suc m) s u = Some (key_verdict lk (drop (cur s) inp), t, u)"
    and "cur s \<le> cur t" and "cur t \<le> length inp"
proof -
  let ?r = "drop (cur s) inp" and ?k = "key_read (drop (cur s) inp)"
  have at_k: "at_pos inp (cur s) (enc_str ?k)" and rest: "drop (cur s + length (enc_str ?k)) inp = text_after_key ?r"
    using at_pos_drop [OF str_verdict_of_ok(1) [OF key]] by (simp_all add: enc_str_def)
  have le: "cur s + length (enc_str ?k) \<le> length inp" by (rule at_pos_le [OF at_k])
  have v: "key_verdict lk ?r = (if lk = Some ?k then BENCODE_ERR_DICT_DUPLICATE
      else if \<exists>l. lk = Some l \<and> ?k < l then BENCODE_ERR_DICT_UNSORTED
      else if prefix [101] (text_after_key ?r) then BENCODE_ERR_DICT_MISSING_VALUE else BENCODE_OK)"
    using key r by (simp add: key_verdict_def split: option.splits)
  show thesis
  proof (cases "lk = Some ?k \<or> (\<exists>l. lk = Some l \<and> ?k < l)")
    case True
    then show thesis using that [of "pop_scope (advance (length (enc_str ?k)) s)"] loop_key [OF od at_k, of pv m u] le
      by (auto simp: v)
  next
    case False
    let ?s = "after_key s (depth s - 1) (the (get_scope s (depth s - 1))) ?k"
    have go: "parse_dict_loop pv inp None (Suc m) s u = parse_dict_loop pv inp None m ?s u"
      using False loop_key [OF od at_k, of pv m u] by (simp only: if_False de_Morgan_disj)
    obtain sc' where s': "get_scope ?s (depth ?s - 1) = Some sc'" "\<not> expecting_key sc'" "wf_state inp ?s"
      "cur ?s = cur s + length (enc_str ?k)" using after_key_props [OF od at_k] by metis
    obtain m' where m': "m = Suc m'" using m hd_drop(1) [OF r(1)] by (cases m) auto
    have missing: "prefix [101] (text_after_key ?r)" "key_verdict lk ?r = BENCODE_ERR_DICT_MISSING_VALUE"
      using bad v False by (simp_all split: if_splits)
    then obtain xs where xs: "drop (cur ?s) inp = 101 # xs" using rest s'(4) by (auto simp: prefix_def)
    have "cur ?s < length inp" "inp ! cur ?s = 101" using hd_drop [OF xs] by blast+
    then have "\<not> at_end ?s" "peek inp ?s = Some 101" using s'(3) by (simp_all add: at_end_def peek_def wf_state_def)
    then have "parse_dict_loop pv inp None m ?s u = Some (BENCODE_ERR_DICT_MISSING_VALUE, pop_scope ?s, u)"
      using s'(1,2) by (simp add: m' Let_def)
    then show thesis using that [of "pop_scope ?s"] go s'(4) le missing(2) by simp
  qed
qed

lemma key_verdict_fails:
  assumes od: "open_dict inp s lk" and m: "length inp - cur s \<le> m"
    and bad: "key_verdict lk (drop (cur s) inp) \<noteq> BENCODE_OK"
  obtains t where "parse_dict_loop pv inp None (Suc m) s u = Some (key_verdict lk (drop (cur s) inp), t, u)"
    and "cur s \<le> cur t" and "cur t \<le> length inp"
proof -
  from od obtain sc where wf: "wf_state inp s" and sc: "get_scope s (depth s - 1) = Some sc" "expecting_key sc"
    unfolding open_dict_def by blast
  have lim: "lim s = length inp" "cur s \<le> length inp" using wf by (simp_all add: wf_state_def)
  show thesis
  proof (cases "drop (cur s) inp")
    case Nil
    then show thesis using that [of "pop_scope s"] lim by (simp add: key_verdict_def at_end_def)
  next
    case (Cons b r)
    have at: "cur s < length inp" "inp ! cur s = b" using hd_drop [OF Cons] by simp_all
    have now: "\<not> at_end s" "peek inp s = Some b" using at lim by (simp_all add: at_end_def peek_def)
    have b: "b \<noteq> 101" using bad Cons by (auto simp: key_verdict_def)
    have step: "parse_dict_loop pv inp None (Suc m) s u = Some (st, pop_scope t, u)"
      if "parse_dict_key inp None s (depth s - 1) u = Some (st, t, u)" and "st \<noteq> BENCODE_OK" for st t
      using that now b sc by (simp add: Let_def)
    consider (bad) "\<not> is_digit b" | (str) "is_digit b" "str_verdict_of (drop (cur s) inp) \<noteq> BENCODE_OK"
      | (key) "is_digit b" "str_verdict_of (drop (cur s) inp) = BENCODE_OK" by blast
    then show thesis
    proof cases
      case bad
      then have "parse_dict_key inp None s (depth s - 1) u = Some (BENCODE_ERR_DICT_BAD_KEY, s, u)"
        using now by (simp add: parse_dict_key_def)
      then show thesis using that [OF step] bad b Cons lim by (simp add: key_verdict_def)
    next
      case str
      obtain k where k: "parse_string inp s = Some (str_verdict_of (drop (cur s) inp), 0, 0, advance k s)" "cur s + k \<le> length inp"
        by (rule parse_string_verdict [OF wf str(2)])
      have "parse_dict_key inp None s (depth s - 1) u = Some (str_verdict_of (drop (cur s) inp), advance k s, u)"
        using now str k(1) by (simp add: parse_dict_key_def)
      moreover have "key_verdict lk (drop (cur s) inp) = str_verdict_of (drop (cur s) inp)"
        using str b Cons by (simp add: key_verdict_def)
      ultimately show thesis using that [OF step] str(2) k(2) by simp
    next
      case key
      show thesis by (rule readable_key_fails [OF od m Cons key(1) b key(2) \<open>key_verdict lk _ \<noteq> BENCODE_OK\<close>]) (rule that)
    qed
  qed
qed

section \<open>Rejected input\<close>

abbreviation last_key_of :: "(byte list \<times> bval) list \<Rightarrow> byte list option" where
  "last_key_of es \<equiv> if es = [] then None else Some (fst (last es))"

text \<open>The table rejects what follows some path of open containers: a value, or a key of one more dictionary.  The
  number is the offset at which that value or key starts.\<close>

inductive rejects :: "nat \<Rightarrow> byte list \<Rightarrow> nat \<Rightarrow> bencode_status \<Rightarrow> bool" where
  bad_value: "path_ok d c \<Longrightarrow> value_verdict (d - length c) r \<noteq> BENCODE_OK \<Longrightarrow> c = [] \<or> \<not> prefix [101] r
    \<Longrightarrow> rejects d (path_text c @ r) (length (path_text c)) (value_verdict (d - length c) r)"
| bad_key: "path_ok d c \<Longrightarrow> canonical (d - length c) (BDict es) \<Longrightarrow> key_verdict (last_key_of es) r \<noteq> BENCODE_OK
    \<Longrightarrow> rejects d (path_text c @ 100 # encode_entries es @ r) (length (path_text c) + 1 + length (encode_entries es))
          (key_verdict (last_key_of es) r)"

lemma rejects_error: "rejects d r n st \<Longrightarrow> st \<noteq> BENCODE_OK"
  by (induction rule: rejects.induct) simp_all

lemma rejects_inside:
  assumes "rejects (d - 1) r n st" and "place_ok d p" and "\<not> prefix [101] r"
  shows "rejects d (place_text p @ r) (length (place_text p) + n) st"
  using assms(1)
proof cases
  case (bad_value c r')
  then show ?thesis using rejects.bad_value [of d "p # c" r'] assms(2,3) by (auto simp: add.assoc)
next
  case (bad_key c es r')
  then show ?thesis using rejects.bad_key [of d "p # c" es r'] assms(2) by (simp add: add.assoc)
qed

text \<open>Each input starts with a canonical value or is rejected by the table.\<close>

abbreviation decided :: "nat \<Rightarrow> byte list \<Rightarrow> bool" where
  "decided d r \<equiv> (\<exists>v zs. canonical d v \<and> r = encode v @ zs) \<or> (\<exists>n st. rejects d r n st)"

lemma decided_list:
  assumes IH: "\<And>t. length t < length r \<Longrightarrow> decided (d - 1) t"
    and "canonical d (BList vs)" and "r = 108 # encode_items vs @ t"
  shows "decided d r"
  using assms(2-)
proof (induction "length t" arbitrary: vs t rule: less_induct)
  case less
  show ?case
  proof (cases "prefix [101] t")
    case True
    then obtain zs where "t = 101 # zs" by (auto simp: prefix_def)
    then have "r = encode (BList vs) @ zs" using less.prems(2) by simp
    then show ?thesis using less.prems(1) by blast
  next
    case False
    have "decided (d - 1) t" by (rule IH) (use less.prems(2) in simp)
    then consider (val) w zs where "canonical (d - 1) w" "t = encode w @ zs" | (bad) n st where "rejects (d - 1) t n st" by blast
    then show ?thesis
    proof cases
      case val
      show ?thesis
        by (rule less.hyps [of zs "vs @ [w]"]) (use less.prems val encode_Cons [of w] in auto)
    next
      case bad
      have "rejects d (place_text (In_list vs) @ t) (length (place_text (In_list vs)) + n) st"
        by (rule rejects_inside [OF bad _ False]) (use less.prems(1) in simp)
      then show ?thesis using less.prems(2) by auto
    qed
  qed
qed

lemma key_verdict_ok:
  assumes "key_verdict lk r = BENCODE_OK" and "\<not> prefix [101] r"
  shows "r = enc_str (key_read r) @ text_after_key r" and "length (key_read r) \<le> SIZE_MAX"
    and "\<forall>l. lk = Some l \<longrightarrow> l < key_read r" and "\<not> prefix [101] (text_after_key r)"
proof -
  have "r \<noteq> []" "hd r \<noteq> 101" using assms by (auto simp: key_verdict_def neq_Nil_conv split: if_splits)
  then have ok: "str_verdict_of r = BENCODE_OK" "lk \<noteq> Some (key_read r)"
    "\<not> (case lk of None \<Rightarrow> False | Some l \<Rightarrow> key_read r < l)" "\<not> prefix [101] (text_after_key r)"
    using assms(1) by (auto simp: key_verdict_def split: if_splits)
  show "r = enc_str (key_read r) @ text_after_key r" by (rule str_verdict_of_ok(1) [OF ok(1)])
  show "length (key_read r) \<le> SIZE_MAX"
    using ok(1) by (auto simp: str_verdict_of_def str_verdict_def key_read_def split: if_splits)
  show "\<forall>l. lk = Some l \<longrightarrow> l < key_read r" using ok(2,3) by auto
  show "\<not> prefix [101] (text_after_key r)" by (rule ok(4))
qed

lemma decided_dict:
  assumes IH: "\<And>t. length t < length r \<Longrightarrow> decided (d - 1) t"
    and "canonical d (BDict es)" and "r = 100 # encode_entries es @ t"
  shows "decided d r"
  using assms(2-)
proof (induction "length t" arbitrary: es t rule: less_induct)
  case less
  note can = less.prems(1) [unfolded canonical_entries]
  consider (closed) zs where "t = 101 # zs" | (bad) "key_verdict (last_key_of es) t \<noteq> BENCODE_OK"
    | (key) "key_verdict (last_key_of es) t = BENCODE_OK" "\<not> prefix [101] t"
    by (auto simp: prefix_def)
  then show ?case
  proof cases
    case closed
    then have "r = encode (BDict es) @ zs" using less.prems(2) by simp
    then show ?thesis using less.prems(1) by blast
  next
    case bad
    have "rejects d (path_text [] @ 100 # encode_entries es @ t) (length (path_text []) + 1 + length (encode_entries es))
        (key_verdict (last_key_of es) t)"
      by (rule rejects.bad_key) (use less.prems(1) bad in simp_all)
    then show ?thesis using less.prems(2) by auto
  next
    case key
    let ?k = "key_read t" and ?t = "text_after_key t"
    note k = key_verdict_ok [OF key]
    have place: "canonical d (BDict (es @ [(?k, w)]))" if "canonical (d - 1) w" for w
      using can k(2,3) that by (simp add: canonical_entries entries_ok_snoc del: canonical.simps)
    have shorter: "length ?t < length t" using arg_cong [OF k(1), of length] by (simp add: enc_str_def)
    have "decided (d - 1) ?t" by (rule IH) (use less.prems(2) shorter in simp)
    then consider (val) w zs where "canonical (d - 1) w" "?t = encode w @ zs" | (bad) n st where "rejects (d - 1) ?t n st" by blast
    then show ?thesis
    proof cases
      case val
      have "r = 100 # encode_entries (es @ [(?k, w)]) @ zs" using less.prems(2) k(1) val(2) by simp
      moreover have "length zs < length t" using shorter val(2) by simp
      ultimately show ?thesis using less.hyps [OF _ place [OF val(1)]] by blast
    next
      case bad
      have "rejects d (place_text (In_dict es ?k) @ ?t) (length (place_text (In_dict es ?k)) + n) st"
        by (rule rejects_inside [OF bad _ k(4)]) (use place [of "BInt 0"] in simp)
      then show ?thesis using less.prems(2) k(1) by auto
    qed
  qed
qed

lemma int_verdict_of_ok:
  assumes "int_verdict_of r = BENCODE_OK"
  obtains i zs where "INT64_MIN \<le> i" and "i \<le> INT64_MAX" and "105 # r = encode (BInt i) @ zs"
proof -
  let ?inp = "105 # r"
  have d: "drop 0 ?inp = 105 # r" by simp
  have ok: "0 < length ?inp" "?inp ! 0 = 105" by simp_all
  have "at_pos ?inp 0 (encode (BInt i)) \<Longrightarrow> \<exists>zs. ?inp = encode (BInt i) @ zs" for i by (simp only: at_pos_whole)
  then show thesis
    using int_verdict_accepts [OF ok int_verdict_at(1) [OF d, THEN trans, OF assms]] that by blast
qed

lemma decided: "decided d r"
proof (induction "length r" arbitrary: d r rule: less_induct)
  case less
  show ?case
  proof (cases "value_verdict d r = BENCODE_OK")
    case False
    then show ?thesis using rejects.bad_value [of d "[]" r] by auto
  next
    case True
    then obtain b t where r: "r = b # t" by (cases r) (simp_all add: value_verdict_def)
    consider (int) "b = 105" "int_verdict_of t = BENCODE_OK" | (list) "b = 108" "0 < d" | (dict) "b = 100" "0 < d"
      | (str) "str_verdict_of r = BENCODE_OK"
      using True by (auto simp: r value_verdict_def split: if_splits)
    then show ?thesis
    proof cases
      case int
      from int_verdict_of_ok [OF int(2)] obtain i zs where "INT64_MIN \<le> i" "i \<le> INT64_MAX" "r = encode (BInt i) @ zs"
        using r int(1) by blast
      then have "canonical d (BInt i) \<and> r = encode (BInt i) @ zs" by simp
      then show ?thesis by blast
    next
      case list
      show ?thesis by (rule decided_list [OF less.hyps, of r d "[]" t]) (use list r in simp_all)
    next
      case dict
      show ?thesis by (rule decided_dict [OF less.hyps, of r d "[]" t]) (use dict r in simp_all)
    next
      case str
      have "length (key_read r) \<le> SIZE_MAX"
        using str by (auto simp: str_verdict_of_def str_verdict_def key_read_def split: if_splits)
      then have "canonical d (BStr (key_read r)) \<and> r = encode (BStr (key_read r)) @ text_after_key r"
        using str_verdict_of_ok(1) [OF str] by simp
      then show ?thesis by blast
    qed
  qed
qed

section \<open>The parser returns the status of the table\<close>

lemma rejects_run:
  assumes "rejects (effective_depth md) inp p st" and "length inp \<le> SIZE_MAX"
  shows "\<exists>k\<ge>p. k \<le> length inp \<and> bencode_parse_sax (Some inp) (length inp) None u md = Some (st, k, u)"
  using assms(1)
proof cases
  case (bad_value c r)
  have no_end: "c \<noteq> [] \<Longrightarrow> \<not> prefix [101] r" using bad_value(6) by blast
  obtain s n where s: "wf_state inp s" "cur s = p" "drop (cur s) inp = r" "depth s = length c" "max_depth s = effective_depth md"
    "length inp - cur s < n"
    "\<And>st k. fails_at inp n s u st k \<Longrightarrow> bencode_parse_sax (Some inp) (length inp) None u md = Some (st, k, u)"
    using sax_path [OF assms(2) bad_value(1,4) no_end, where u = u] bad_value(2) by metis
  have bad: "value_verdict (max_depth s - depth s) (drop (cur s) inp) \<noteq> BENCODE_OK" using s(3-5) bad_value(5) by simp
  obtain k where "fails_at inp n s u st k" "p \<le> k" "k \<le> length inp"
    using value_verdict_fails [OF s(1,6) bad, of u] s(2-5) bad_value(3) by metis
  then show ?thesis using s(7) by blast
next
  case (bad_key c es r)
  obtain s n where s: "wf_state inp s" "cur s = length (path_text c)" "drop (cur s) inp = 100 # encode_entries es @ r"
    "depth s = length c" "max_depth s = effective_depth md" "length inp - cur s < n"
    "\<And>st k. fails_at inp n s u st k \<Longrightarrow> bencode_parse_sax (Some inp) (length inp) None u md = Some (st, k, u)"
    using sax_path [OF assms(2) bad_key(1,4), where u = u] by (auto simp: prefix_def)
  have can: "canonical (max_depth s - depth s) (BDict es)" using s(4,5) bad_key(5) by simp
  have "drop (cur s) inp = (100 # encode_entries es) @ r" using s(3) by simp
  from at_pos_drop [OF this] have at: "at_pos inp (cur s) (100 # encode_entries es)"
    and rest: "drop (cur s + length (100 # encode_entries es)) inp = r" by simp_all
  obtain s' m where s': "parse_value inp None n s u = parse_dict_loop (parse_value inp None (n - 1)) inp None (Suc m) s' u"
    "open_dict inp s' (last_key_of es)" "cur s' = cur s + 1 + length (encode_entries es)" "length inp - cur s' \<le> m"
    by (rule enter_dict [OF s(1) can at s(6), where u = u])
  have r: "drop (cur s') inp = r" using rest s'(3) by simp
  obtain t where "parse_dict_loop (parse_value inp None (n - 1)) inp None (Suc m) s' u = Some (st, t, u)"
    "cur s' \<le> cur t" "cur t \<le> length inp"
    using key_verdict_fails [OF s'(2,4)] bad_key(3,6) unfolding r by metis
  then have "fails_at inp n s u st (cur t)" "p \<le> cur t" "cur t \<le> length inp"
    using s'(1,3) s(2) bad_key(2,3,6) by (simp_all add: fails_at_def)
  then show ?thesis using s(7) by blast
qed

lemma canonical_run:
  assumes "canonical (effective_depth md) v" and "length (encode v @ zs) \<le> SIZE_MAX"
  shows "bencode_parse_sax (Some (encode v @ zs)) (length (encode v @ zs)) None u md = Some (BENCODE_OK, length (encode v), u)"
  using sax_canonical_run [OF assms(2,1) refl feed_null, of u] by auto

lemma status_rejects:
  assumes "bencode_parse_sax (Some inp) (length inp) None u md = Some (st, k, u')" and "length inp \<le> SIZE_MAX"
    and "st \<noteq> BENCODE_OK"
  shows "\<exists>n\<le>k. rejects (effective_depth md) inp n st"
proof -
  consider (ok) v rest where "canonical (effective_depth md) v" "inp = encode v @ rest"
    | (bad) n st' where "rejects (effective_depth md) inp n st'" using decided [of "effective_depth md" inp] by blast
  then show ?thesis
  proof cases
    case ok
    then show ?thesis using canonical_run [of md v rest u] assms by simp
  next
    case bad
    then show ?thesis using rejects_run [OF bad assms(2), of u] assms(1) by auto
  qed
qed

lemma rejects_empty: "rejects d [] 0 BENCODE_ERR_TRUNCATED"
  using rejects.bad_value [of d "[]" "[]"] by (simp add: value_verdict_def)

lemma rejects_unique:
  assumes "rejects (effective_depth md) inp n st" and "rejects (effective_depth md) inp n' st'" and "length inp \<le> SIZE_MAX"
  shows "st' = st"
  using rejects_run [OF assms(1,3), of "()"] rejects_run [OF assms(2,3), of "()"] by auto

lemma rejects_not_canonical:
  assumes "rejects (effective_depth md) inp n st" and "length inp \<le> SIZE_MAX"
  shows "\<not> (\<exists>v rest. canonical (effective_depth md) v \<and> inp = encode v @ rest)"
  using rejects_run [OF assms, of "()"] rejects_error [OF assms(1)] canonical_run [of md _ _ "()"] assms(2) by fastforce

text \<open>A dictionary with the same key twice: \<open>d1:ai0e1:ai0ee\<close>.\<close>

definition double_text :: "byte list" where
  "double_text = [100, 49, 58, 97, 105, 48, 101, 49, 58, 97, 105, 48, 101, 101]"

lemma double_rejected: "rejects (effective_depth 0) double_text 7 BENCODE_ERR_DICT_DUPLICATE"
proof -
  let ?r = "[49, 58, 97, 105, 48, 101, 101] :: byte list" and ?es = "[([97 :: byte], BInt 0)]"
  have depth: "effective_depth 0 = 64"
    by (simp add: effective_depth_def BENCODE_DEFAULT_MAX_DEPTH_def BENCODE_INTERNAL_MAX_DEPTH_def)
  have inp: "path_text [] @ 100 # encode_entries ?es @ ?r = double_text"
    by (simp add: double_text_def enc_str_def enc_int_def dec_digit digit_byte_def)
  have v: "key_verdict (last_key_of ?es) ?r = BENCODE_ERR_DICT_DUPLICATE"
    by (simp add: key_verdict_def str_verdict_of_def str_verdict_def key_read_def is_digit_def numeral_ok_def dval_def digit_val_def
        SIZE_MAX_def)
  have pos: "length (path_text []) + 1 + length (encode_entries ?es) = 7"
    by (simp add: enc_str_def enc_int_def dec_digit digit_byte_def)
  have "rejects 64 (path_text [] @ 100 # encode_entries ?es @ ?r) (length (path_text []) + 1 + length (encode_entries ?es))
      (key_verdict (last_key_of ?es) ?r)"
    by (rule rejects.bad_key) (simp_all only: v, simp_all add: SIZE_MAX_def)
  then show ?thesis unfolding v inp depth pos .
qed

text \<open>C2: the status of every parse: without callbacks, \<open>bencode_parse_sax\<close> returns \<open>BENCODE_OK\<close> exactly on
  input that starts with the encoding of a canonical value, and another status exactly if the table of statuses has
  that status for the bytes at some place of the input.  The offset that is reported with it lies in the input, at or
  after the start of the value or key in question.\<close>

theorem sax_status:
  assumes "length inp \<le> SIZE_MAX"
  shows "((\<exists>k. bencode_parse_sax (Some inp) (length inp) None u md = Some (st, k, u)) \<longleftrightarrow>
    (if st = BENCODE_OK then \<exists>v rest. canonical (effective_depth md) v \<and> inp = encode v @ rest
     else \<exists>n. rejects (effective_depth md) inp n st))
    \<and> (\<forall>n. rejects (effective_depth md) inp n st \<longrightarrow>
        (\<exists>k\<ge>n. k \<le> length inp \<and> bencode_parse_sax (Some inp) (length inp) None u md = Some (st, k, u)))"
proof
  show "\<forall>n. rejects (effective_depth md) inp n st \<longrightarrow>
      (\<exists>k\<ge>n. k \<le> length inp \<and> bencode_parse_sax (Some inp) (length inp) None u md = Some (st, k, u))"
    by (intro allI impI rejects_run [OF _ assms])
  show "(\<exists>k. bencode_parse_sax (Some inp) (length inp) None u md = Some (st, k, u)) \<longleftrightarrow>
    (if st = BENCODE_OK then \<exists>v rest. canonical (effective_depth md) v \<and> inp = encode v @ rest
     else \<exists>n. rejects (effective_depth md) inp n st)"
  proof (cases "st = BENCODE_OK")
    case True
    consider (ok) v rest where "canonical (effective_depth md) v" "inp = encode v @ rest"
      | (bad) n st' where "rejects (effective_depth md) inp n st'"
        "\<not> (\<exists>v rest. canonical (effective_depth md) v \<and> inp = encode v @ rest)"
      using decided [of "effective_depth md" inp] by blast
    then show ?thesis
    proof cases
      case ok
      then show ?thesis using canonical_run [of md v rest u] assms True by auto
    next
      case bad
      then show ?thesis using rejects_run [OF bad(1) assms, of u] rejects_error [OF bad(1)] True by auto
    qed
  next
    case False
    show ?thesis unfolding if_not_P [OF False]
    proof
      assume "\<exists>k. bencode_parse_sax (Some inp) (length inp) None u md = Some (st, k, u)"
      then obtain k where "bencode_parse_sax (Some inp) (length inp) None u md = Some (st, k, u)" by (rule exE)
      from status_rejects [OF this assms False] show "\<exists>n. rejects (effective_depth md) inp n st" by auto
    next
      assume "\<exists>n. rejects (effective_depth md) inp n st"
      then obtain n where "rejects (effective_depth md) inp n st" by (rule exE)
      from rejects_run [OF this assms, of u]
      show "\<exists>k. bencode_parse_sax (Some inp) (length inp) None u md = Some (st, k, u)" by (elim exE conjE, intro exI)
    qed
  qed
qed

theorem sax_status_witness:
  "\<exists>k\<ge>7. k \<le> length double_text
    \<and> bencode_parse_sax (Some double_text) (length double_text) None () 0 = Some (BENCODE_ERR_DICT_DUPLICATE, k, ())"
proof -
  have le: "length double_text \<le> SIZE_MAX" by (simp add: double_text_def SIZE_MAX_def)
  show ?thesis by (rule sax_status [OF le, THEN conjunct2, rule_format, OF double_rejected])
qed

section \<open>Input that is cut off\<close>

lemma digits_extend:
  obtains xs where "takeWhile is_digit (r @ q) = takeWhile is_digit r @ xs"
    and "dropWhile is_digit r \<noteq> [] \<Longrightarrow> xs = [] \<and> dropWhile is_digit (r @ q) = dropWhile is_digit r @ q"
proof (cases "\<forall>b\<in>set r. is_digit b")
  case True
  then have all: "dropWhile is_digit r = []" "takeWhile is_digit r = r"
    by (simp_all add: takeWhile_eq_all_conv dropWhile_eq_Nil_conv)
  have "takeWhile is_digit (r @ q) = takeWhile is_digit r @ takeWhile is_digit q"
    unfolding all(2) by (rule takeWhile_append2) (use True in blast)
  then show thesis by (rule that) (use all(1) in blast)
next
  case False
  then obtain b where "b \<in> set r" "\<not> is_digit b" by blast
  then show thesis using that [of "[]"] by (simp add: takeWhile_append1 dropWhile_append1)
qed

lemma numeral_extend:
  assumes "\<not> numeral_ok (takeWhile is_digit r)" and "takeWhile is_digit r \<noteq> []"
  shows "\<not> numeral_ok (takeWhile is_digit r @ xs)"
  using assms set_takeWhileD [of _ is_digit r] by (cases "takeWhile is_digit r") (auto simp: numeral_ok_def)

lemma dval_extend: "dval ds \<le> dval (ds @ xs)"
  using accum_ge [of "accum 0 ds" xs] by (simp add: dval_accum accum_def)

lemma str_verdict_extend:
  assumes "str_verdict_of r \<notin> {BENCODE_OK, BENCODE_ERR_TRUNCATED, BENCODE_ERR_STRING_LENGTH}"
  shows "str_verdict_of (r @ q) \<noteq> BENCODE_OK"
proof -
  let ?ds = "takeWhile is_digit r" and ?after = "dropWhile is_digit r"
  obtain xs where xs: "takeWhile is_digit (r @ q) = ?ds @ xs" "?after \<noteq> [] \<Longrightarrow> xs = [] \<and> dropWhile is_digit (r @ q) = ?after @ q"
    using digits_extend [of r q] by blast
  show ?thesis
  proof (cases "?after = []")
    case False
    then show ?thesis using assms xs(2) xs(1) by (simp add: str_verdict_of_def str_verdict_def split: if_splits)
  next
    case True
    then have "?ds \<noteq> []" "\<not> numeral_ok ?ds \<or> SIZE_MAX < dval ?ds"
      using assms by (auto simp: str_verdict_of_def str_verdict_def split: if_splits)
    then have "\<not> numeral_ok (?ds @ xs) \<or> SIZE_MAX < dval (?ds @ xs)"
      using numeral_extend [of r xs] dval_extend [of ?ds xs] by auto
    then show ?thesis using \<open>?ds \<noteq> []\<close> by (auto simp: str_verdict_of_def str_verdict_def xs(1))
  qed
qed

lemma int_verdict_extend:
  assumes "int_verdict neg (takeWhile is_digit r) (dropWhile is_digit r) \<notin> {BENCODE_OK, BENCODE_ERR_TRUNCATED}"
  shows "int_verdict neg (takeWhile is_digit (r @ q)) (dropWhile is_digit (r @ q)) \<noteq> BENCODE_OK"
proof -
  let ?ds = "takeWhile is_digit r" and ?after = "dropWhile is_digit r"
  obtain xs where xs: "takeWhile is_digit (r @ q) = ?ds @ xs" "?after \<noteq> [] \<Longrightarrow> xs = [] \<and> dropWhile is_digit (r @ q) = ?after @ q"
    using digits_extend [of r q] by blast
  show ?thesis
  proof (cases "?after = []")
    case False
    then show ?thesis using assms xs(2) xs(1) by (simp add: int_verdict_def split: if_splits)
  next
    case True
    then have ds: "?ds \<noteq> []" "\<not> numeral_ok ?ds \<or> int_limit neg < dval ?ds \<or> numeral_ok ?ds \<and> neg \<and> dval ?ds = 0"
      using assms by (auto simp: int_verdict_def split: if_splits)
    have zero: "\<not> numeral_ok (?ds @ xs) \<or> xs = []" if "numeral_ok ?ds" "dval ?ds = 0"
    proof -
      have "?ds = [48]" using dec_dval [OF that(1)] that(2) by (simp add: dec_digit digit_byte_def)
      then show ?thesis by (cases xs) (simp_all add: numeral_ok_def)
    qed
    have "\<not> numeral_ok (?ds @ xs) \<or> int_limit neg < dval (?ds @ xs) \<or> neg \<and> dval (?ds @ xs) = 0"
    proof (cases "numeral_ok ?ds")
      case True
      then show ?thesis using ds(2) zero dval_extend [of ?ds xs] by auto
    next
      case False
      then show ?thesis using numeral_extend [OF False ds(1), of xs] by simp
    qed
    then show ?thesis using ds(1) by (auto simp: int_verdict_def xs(1))
  qed
qed

lemma value_verdict_extend:
  assumes "value_verdict d r \<notin> {BENCODE_OK, BENCODE_ERR_TRUNCATED, BENCODE_ERR_STRING_LENGTH}"
  shows "value_verdict d (r @ q) \<noteq> BENCODE_OK" and "r \<noteq> []"
proof -
  show ne: "r \<noteq> []" using assms by (auto simp: value_verdict_def)
  then obtain b t where r: "r = b # t" by (cases r) auto
  have int: "int_verdict_of (t @ q) \<noteq> BENCODE_OK" if "int_verdict_of t \<notin> {BENCODE_OK, BENCODE_ERR_TRUNCATED}"
  proof (cases t)
    case Nil
    then show ?thesis using that by (simp add: int_verdict_of_def int_verdict_def)
  next
    case (Cons c u)
    then have "prefix [45] (t @ q) = prefix [45] t" by simp
    then show ?thesis using that Cons int_verdict_extend [of True u q] int_verdict_extend [of False t q]
      by (simp add: int_verdict_of_def Let_def split: if_splits)
  qed
  show "value_verdict d (r @ q) \<noteq> BENCODE_OK"
    using assms int str_verdict_extend [of r q] by (auto simp: r value_verdict_def split: if_splits)
qed

lemma key_verdict_extend:
  assumes "key_verdict lk r \<notin> {BENCODE_OK, BENCODE_ERR_TRUNCATED, BENCODE_ERR_STRING_LENGTH}"
  shows "key_verdict lk (r @ q) \<noteq> BENCODE_OK"
proof -
  obtain b t where r: "r = b # t" using assms by (cases r) (auto simp: key_verdict_def)
  show ?thesis
  proof (cases "str_verdict_of r = BENCODE_OK")
    case False
    then show ?thesis using assms str_verdict_extend [of r q] by (auto simp: r key_verdict_def split: if_splits)
  next
    case True
    have "length (key_read r) \<le> SIZE_MAX"
      using True by (auto simp: str_verdict_of_def str_verdict_def key_read_def split: if_splits)
    from str_verdict_of_enc_str [OF this, of "text_after_key r @ q"]
    have same: "str_verdict_of (r @ q) = BENCODE_OK" "key_read (r @ q) = key_read r" "text_after_key (r @ q) = text_after_key r @ q"
      unfolding append_assoc [symmetric] str_verdict_of_ok(1) [OF True, symmetric] .
    show ?thesis using assms True same by (auto simp: r key_verdict_def split: if_splits option.splits)
  qed
qed

lemma rejects_extend:
  assumes "rejects d r n st" and "st \<notin> {BENCODE_ERR_TRUNCATED, BENCODE_ERR_STRING_LENGTH}"
  shows "\<exists>n' st'. rejects d (r @ q) n' st'"
  using assms
proof cases
  case (bad_value c t)
  then have v: "value_verdict (d - length c) t \<notin> {BENCODE_OK, BENCODE_ERR_TRUNCATED, BENCODE_ERR_STRING_LENGTH}"
    using assms(2) by simp
  have "c = [] \<or> \<not> prefix [101] (t @ q)" using bad_value(6) value_verdict_extend(2) [OF v] by (cases t) auto
  from rejects.bad_value [OF bad_value(4) value_verdict_extend(1) [OF v] this] show ?thesis using bad_value(1) by auto
next
  case (bad_key c es t)
  then have v: "key_verdict (last_key_of es) t \<notin> {BENCODE_OK, BENCODE_ERR_TRUNCATED, BENCODE_ERR_STRING_LENGTH}"
    using assms(2) by simp
  from rejects.bad_key [OF bad_key(4,5) key_verdict_extend [OF v, of q]] show ?thesis using bad_key(1) by auto
qed

text \<open>C3: input that is cut off is told apart from malformed input: a proper prefix of the encoding of a canonical value
  is always answered with \<open>BENCODE_ERR_TRUNCATED\<close>, or, where the cut is inside the bytes of a string, with
  \<open>BENCODE_ERR_STRING_LENGTH\<close>.\<close>

theorem sax_incomplete:
  assumes "canonical (effective_depth md) v" and "length (encode v) \<le> SIZE_MAX" and "strict_prefix p (encode v)"
  shows "\<exists>st k. bencode_parse_sax (Some p) (length p) None u md = Some (st, k, u) \<and> k \<le> length p
    \<and> (st = BENCODE_ERR_TRUNCATED \<or> st = BENCODE_ERR_STRING_LENGTH)"
proof -
  obtain q where q: "encode v = p @ q" "q \<noteq> []" using assms(3) by (auto simp: strict_prefix_def prefix_def)
  then have le: "length p \<le> SIZE_MAX" using assms(2) by simp
  have "\<not> (canonical (effective_depth md) w \<and> p = encode w @ zs)" for w zs
  proof
    assume "canonical (effective_depth md) w \<and> p = encode w @ zs"
    then have "encode v @ [] = encode w @ (zs @ q)" by (simp only: q(1) append_Nil2 append_assoc)
    then show False using encode_split q(2) by blast
  qed
  then obtain n st where st: "rejects (effective_depth md) p n st" using decided [of "effective_depth md" p] by blast
  obtain k where k: "k \<le> length p" "bencode_parse_sax (Some p) (length p) None u md = Some (st, k, u)"
    using rejects_run [OF st le, of u] by blast
  have run: "bencode_parse_sax (Some (p @ q)) (length (p @ q)) None u md = Some (BENCODE_OK, length (p @ q), u)"
    using canonical_run [OF assms(1), of "[]" u, unfolded append_Nil2 q(1)] assms(2) [unfolded q(1)] .
  have "\<not> rejects (effective_depth md) (p @ q) n' st'" for n' st'
  proof
    assume r: "rejects (effective_depth md) (p @ q) n' st'"
    have "length (p @ q) \<le> SIZE_MAX" using assms(2) q(1) by simp
    from rejects_run [OF r this, of u] run rejects_error [OF r] show False by auto
  qed
  then have "st = BENCODE_ERR_TRUNCATED \<or> st = BENCODE_ERR_STRING_LENGTH" using rejects_extend [OF st, of q] by blast
  then show ?thesis using k by blast
qed

theorem sax_incomplete_witness:
  "\<exists>st k. bencode_parse_sax (Some (butlast sample_text)) 16 None () 2 = Some (st, k, ())
     \<and> (st = BENCODE_ERR_TRUNCATED \<or> st = BENCODE_ERR_STRING_LENGTH)"
proof -
  have "canonical (effective_depth 2) sample"
    by (rule canonical_sample) (simp add: effective_depth_def BENCODE_INTERNAL_MAX_DEPTH_def)
  moreover have "length (encode sample) \<le> SIZE_MAX" using sample_text_size(1) by (simp only: encode_sample)
  moreover have "strict_prefix (butlast sample_text) (encode sample)"
    by (simp add: encode_sample strict_prefix_def prefix_def sample_text_def)
  moreover have "length (butlast sample_text) = 16" by (simp add: sample_text_def)
  ultimately show ?thesis using sax_incomplete [of 2 sample "butlast sample_text" "()"] by auto
qed

end
