(* ===== verification/Dom_Props.thy ===== *)
theory Dom_Props
  imports Dom_Events Sax_Errors
begin

text \<open>
  The contract of \<open>bencode_parse\<close>: it always returns; on success the caller owns one tree that stands for
  the value the input starts with; otherwise nothing is left allocated and the output is NULL.
\<close>

section \<open>Options and input\<close>

definition options_allocator :: "bencode_parse_options option \<Rightarrow> bencode_allocator option" where
  "options_allocator opts = (case opts of Some o1 \<Rightarrow> opt_allocator o1 | None \<Rightarrow> None)"

definition options_depth :: "bencode_parse_options option \<Rightarrow> nat" where
  "options_depth opts = (case opts of Some o1 \<Rightarrow> opt_max_depth o1 | None \<Rightarrow> 0)"

definition options_trailing :: "bencode_parse_options option \<Rightarrow> bool" where
  "options_trailing opts = (case opts of Some o1 \<Rightarrow> allow_trailing o1 \<noteq> 0 | None \<Rightarrow> False)"

text \<open>What a caller of \<open>bencode_parse\<close> has to provide: an allocator that keeps its promise, and input
  bytes in memory that the library does not own.\<close>

definition parse_ready :: "bencode_parse_options option \<Rightarrow> bptr \<Rightarrow> byte list \<Rightarrow> mem \<Rightarrow> bool" where
  "parse_ready opts input inp m \<longleftrightarrow> wf_mem m \<and> alloc_ok (options_allocator opts)
     \<and> borrowed m input inp \<and> length inp \<le> SIZE_MAX"

text \<open>The input holds the encoding of \<open>v\<close>, and no more than that unless trailing bytes are allowed.\<close>

definition parses_as :: "bencode_parse_options option \<Rightarrow> byte list \<Rightarrow> bval \<Rightarrow> bool" where
  "parses_as opts inp v \<longleftrightarrow> canonical (effective_depth (options_depth opts)) v
     \<and> (\<exists>rest. inp = encode v @ rest \<and> (rest = [] \<or> options_trailing opts))"

lemma parses_as_unique: "parses_as opts inp v \<Longrightarrow> parses_as opts inp w \<Longrightarrow> v = w"
  unfolding parses_as_def using encode_split by blast

text \<open>Why input is rejected with the status \<open>st\<close> at the offset \<open>c\<close>: the table of the streaming parser has the status
  for a value or key that starts at or before the offset, or the offset is the end of a value with bytes after it.\<close>

definition rejected_as :: "bencode_parse_options option \<Rightarrow> byte list \<Rightarrow> bencode_status \<Rightarrow> nat \<Rightarrow> bool" where
  "rejected_as opts inp st c \<longleftrightarrow>
     (\<exists>n\<le>c. rejects (effective_depth (options_depth opts)) inp n st)
     \<or> st = BENCODE_ERR_UNEXPECTED_BYTE \<and> \<not> options_trailing opts
       \<and> (\<exists>v rest. canonical (effective_depth (options_depth opts)) v \<and> inp = encode v @ rest \<and> rest \<noteq> []
            \<and> c = length (encode v))"

lemma sax_on_buffer:
  assumes "borrowed m input inp"
  obtains buf where "input_buffer input (length inp) m = Some buf"
    and "bencode_parse_sax buf (length inp) cb u md = bencode_parse_sax (Some inp) (length inp) cb u md"
proof (cases "input = BNull")
  case True
  then have "inp = []" using assms by (simp add: borrowed_def)
  then show thesis using that [of None] True by (simp add: input_buffer_def bencode_parse_sax_def)
next
  case False
  then show thesis using that [of "Some inp"] read_borrowed [OF assms] by (simp add: input_buffer_def)
qed

section \<open>The run of the SAX parser under the builder\<close>

lemma truncated_error: "BENCODE_ERR_TRUNCATED \<in> parse_errors"
  by (simp add: parse_errors_def scan_errors_def)

lemma OK_no_error: "BENCODE_OK \<notin> parse_errors"
  by (simp add: parse_errors_def scan_errors_def)

lemma effective_depth_le: "effective_depth md \<le> 256"
  by (simp add: effective_depth_def Let_def BENCODE_INTERNAL_MAX_DEPTH_def)

text \<open>The two kinds of input: one that starts with a canonical value, and one that the parser rejects.\<close>

lemma dom_run_canonical:
  assumes start: "wf_mem m" "alloc_ok al" "borrowed m input inp" "length inp \<le> SIZE_MAX"
    and good: "canonical (effective_depth md) v" "inp = encode v @ rest"
  obtains (built) s m1 t where
      "bencode_parse_sax (Some inp) (length inp) (Some (dom_callbacks input)) (init_dom al, m) md
        = Some (BENCODE_OK, length (encode v), s, m1)"
      and "droot s = Some (root t)" and "owned m1 t" and "tree_val t = v" and "moves m {} m1 (set (blocks t))"
  | (nomem) c s m1 where "bencode_parse_sax (Some inp) (length inp) (Some (dom_callbacks input)) (init_dom al, m) md
        = Some (BENCODE_ERR_NOMEM, c, s, m1)"
      and "c \<le> length inp" and "releasable m s m1" and "\<not> granting m \<or> crowded sizeof_entry (length inp)"
proof -
  have at: "at_pos inp 0 (encode v)" using good(2) by (auto simp: at_pos_whole)
  have "steps (astep inp) (events 0 v) ([], None) = Some ([], Some v)"
    using steps_events_start(2) [OF good(1) effective_depth_le at] .
  from dom.parse_canonical [OF start(4) good dom_inv_start [OF start] this] obtain st c u' where
    run: "bencode_parse_sax (Some inp) (length inp) (Some (dom_callbacks input)) (init_dom al, m) md = Some (st, c, u')"
    and c: "c \<le> length inp"
    and post: "if st = BENCODE_OK then c = length (encode v) \<and> dom_inv m al input inp (length (events 0 v)) ([], Some v) u'
       else dom_failed m (length (events 0 v)) st u'" by blast
  obtain s m1 where u': "u' = (s, m1)" by (cases u')
  show thesis
  proof (cases "st = BENCODE_OK")
    case True
    then obtain t where "hung m [] t s m1" "tree_val t = v" using post u' by (auto simp: dom_inv_def)
    then show thesis using built run True post u' by (simp add: hung_def)
  next
    case False
    then have f: "dom_failed m (length (events 0 v)) st u'" using post by simp
    have "length (events 0 v) \<le> length inp"
      using length_events(1) [of 0 v] at_pos_le [OF at] by simp
    then have "dom_failed m (length inp) st u'" using f dom_failed_mono by blast
    then show thesis using nomem [of c s m1] run u' c by (auto simp: dom_failed_def)
  qed
qed

lemma dom_run_malformed:
  assumes start: "wf_mem m" "alloc_ok al" "borrowed m input inp" "length inp \<le> SIZE_MAX"
    and bad: "inp \<noteq> []" "\<not> (\<exists>v rest. canonical (effective_depth md) v \<and> inp = encode v @ rest)"
  obtains (rejected) st c s m1 where
      "bencode_parse_sax (Some inp) (length inp) (Some (dom_callbacks input)) (init_dom al, m) md = Some (st, c, s, m1)"
      and "c \<le> length inp" and "st \<in> parse_errors" and "releasable m s m1" and "\<exists>n\<le>c. rejects (effective_depth md) inp n st"
  | (nomem) c s m1 where "bencode_parse_sax (Some inp) (length inp) (Some (dom_callbacks input)) (init_dom al, m) md
        = Some (BENCODE_ERR_NOMEM, c, s, m1)"
      and "c \<le> length inp" and "releasable m s m1" and "\<not> granting m \<or> crowded sizeof_entry (length inp)"
proof -
  have fin: "dom_inv m al input inp n a (s, m1) \<Longrightarrow> releasable m s m1" for n a s m1
    by (auto simp: dom_inv_def intro: dom_rel_releasable)
  have "canonical (effective_depth md) w \<Longrightarrow> steps (astep inp) (events 0 w) ([], None) \<noteq> None" for w
    using steps_events_start(1) [OF _ effective_depth_le] .
  from dom.parse_malformed [OF start(4) bad dom_inv_start [OF start] this] obtain st c u' n a' where
    run: "bencode_parse_sax (Some inp) (length inp) (Some (dom_callbacks input)) (init_dom al, m) md = Some (st, c, u')"
    and c: "c \<le> length inp"
    and post: "st \<in> parse_errors \<and> dom_inv m al input inp n a' u'
        \<and> bencode_parse_sax (Some inp) (length inp) None (init_dom al, m) md = Some (st, c, (init_dom al, m))
      \<or> dom_failed m (length inp) st u'" by blast
  obtain s m1 where u': "u' = (s, m1)" by (cases u')
  show thesis
  proof (cases "dom_failed m (length inp) st u'")
    case True
    then show thesis using nomem [of c s m1] run u' c by (auto simp: dom_failed_def)
  next
    case False
    then have st: "st \<in> parse_errors" "releasable m s m1"
      and sax: "bencode_parse_sax (Some inp) (length inp) None (init_dom al, m) md = Some (st, c, (init_dom al, m))"
      using post fin [of n a' s m1] u' by auto
    have "st \<noteq> BENCODE_OK" using st(1) OK_no_error by auto
    then have "\<exists>n\<le>c. rejects (effective_depth md) inp n st" by (rule status_rejects [OF sax start(4)])
    then show thesis using rejected [OF _ c st] run u' by simp
  qed
qed

lemma dom_run:
  assumes "wf_mem m" and "alloc_ok al" and "borrowed m input inp" and "length inp \<le> SIZE_MAX"
  obtains (built) v rest s m1 t where "canonical (effective_depth md) v" and "inp = encode v @ rest"
      and "bencode_parse_sax (Some inp) (length inp) (Some (dom_callbacks input)) (init_dom al, m) md
        = Some (BENCODE_OK, length (encode v), s, m1)"
      and "droot s = Some (root t)" and "owned m1 t" and "tree_val t = v" and "moves m {} m1 (set (blocks t))"
  | (rejected) st c s m1 where "\<not> (\<exists>v rest. canonical (effective_depth md) v \<and> inp = encode v @ rest)"
      and "bencode_parse_sax (Some inp) (length inp) (Some (dom_callbacks input)) (init_dom al, m) md
        = Some (st, c, s, m1)"
      and "c \<le> length inp" and "st \<in> parse_errors" and "releasable m s m1" and "\<exists>n\<le>c. rejects (effective_depth md) inp n st"
  | (nomem) c s m1 where "bencode_parse_sax (Some inp) (length inp) (Some (dom_callbacks input)) (init_dom al, m) md
        = Some (BENCODE_ERR_NOMEM, c, s, m1)"
      and "c \<le> length inp" and "releasable m s m1" and "\<not> granting m \<or> 2 ^ 58 < length inp"
proof -
  have few: "crowded sizeof_entry (length inp) \<Longrightarrow> 2 ^ 58 < length inp"
    using not_crowded by (meson le_less_trans not_le)
  consider (empty) "inp = []"
    | (good) v rest where "canonical (effective_depth md) v" "inp = encode v @ rest"
    | (bad) "inp \<noteq> []" "\<not> (\<exists>v rest. canonical (effective_depth md) v \<and> inp = encode v @ rest)"
    by blast
  then show thesis
  proof cases
    case empty
    have "encode v \<noteq> []" for v using encode_Cons [of v] by auto
    then show thesis using empty moves_refl [OF assms(1), of "{}"] truncated_error rejects_empty
      by (intro rejected [of BENCODE_ERR_TRUNCATED 0 "init_dom al" m])
        (simp_all add: bencode_parse_sax_def releasable_def init_dom_def)
  next
    case (good v rest)
    from assms good show thesis
      by (cases rule: dom_run_canonical) (use built [OF good] nomem few in blast)+
  next
    case bad
    from assms bad show thesis
      by (cases rule: dom_run_malformed) (use rejected [OF bad(2)] nomem few in blast)+
  qed
qed

lemma release_root:
  assumes "wf_mem m" and "releasable m0 s m"
  obtains m2 where "bencode_value_free (droot s) m = Some m2" and "moves m0 {} m2 {}"
proof (cases "droot s")
  case None
  then show thesis using that assms(2) by (simp add: releasable_def)
next
  case (Some r)
  then obtain t where t: "r = root t" "owned m t" "moves m0 {} m (set (blocks t))"
    using assms(2) by (auto simp: releasable_def)
  obtain m2 where "bencode_value_free (Some (root t)) m = Some m2" "moves m (set (blocks t)) m2 {}"
    by (rule bencode_value_free_spec [OF assms(1) t(2)])
  then show thesis using that moves_trans [OF t(3)] unfolding Some t(1) by blast
qed

lemma releasable_wf: "releasable m0 s m \<Longrightarrow> wf_mem m"
  using movesD(2) by (fastforce simp: releasable_def split: option.splits)

section \<open>The outcome of a parse\<close>

lemma trailing_not_parsed: "inp = encode v @ rest \<Longrightarrow> \<not> (options_trailing opts \<or> rest = []) \<Longrightarrow> \<not> parses_as opts inp w"
  using encode_split [of w "[]" v rest] by (auto simp: parses_as_def)

lemma bencode_parse_run:
  assumes "parse_ready opts input inp m"
  shows "bencode_parse input (length inp) opts True m = do {
      (st, bytes_consumed, s, m1) \<leftarrow> bencode_parse_sax (Some inp) (length inp) (Some (dom_callbacks input))
        (init_dom (options_allocator opts), m) (options_depth opts);
      let st = (if st = BENCODE_OK \<and> \<not> options_trailing opts \<and> bytes_consumed \<noteq> length inp
                then BENCODE_ERR_UNEXPECTED_BYTE else st);
      if st \<noteq> BENCODE_OK then do {
        m2 \<leftarrow> bencode_value_free (droot s) m1;
        Some (st, None, bytes_consumed, m2)
      }
      else Some (BENCODE_OK, droot s, bytes_consumed, m1)
    }"
proof -
  have r: "alloc_ok (options_allocator opts)" "borrowed m input inp" using assms by (simp_all add: parse_ready_def)
  obtain buf where buf: "input_buffer input (length inp) m = Some buf"
    "bencode_parse_sax buf (length inp) (Some (dom_callbacks input)) (init_dom (options_allocator opts), m) (options_depth opts)
      = bencode_parse_sax (Some inp) (length inp) (Some (dom_callbacks input)) (init_dom (options_allocator opts), m)
          (options_depth opts)"
    by (rule sax_on_buffer [OF r(2)])
  have trailing: "(case opts of None \<Rightarrow> 0 | Some o1 \<Rightarrow> allow_trailing o1) = 0 \<longleftrightarrow> \<not> options_trailing opts"
    by (simp add: options_trailing_def split: option.split)
  note options_fold = options_allocator_def [symmetric] options_depth_def [symmetric]
  show ?thesis
    by (simp only: bencode_parse_def options_fold trailing Let_def alloc_ok_check [OF r(1)] buf
        bind.bind_lunit simp_thms if_True if_False)
qed

text \<open>A parse that fails releases what was built.\<close>

lemma bencode_parse_failed:
  assumes "parse_ready opts input inp m"
    and "bencode_parse_sax (Some inp) (length inp) (Some (dom_callbacks input)) (init_dom (options_allocator opts), m)
        (options_depth opts) = Some (st, c, s, m1)"
    and "releasable m s m1"
    and "st' = (if st = BENCODE_OK \<and> \<not> options_trailing opts \<and> c \<noteq> length inp then BENCODE_ERR_UNEXPECTED_BYTE else st)"
    and "st' \<noteq> BENCODE_OK"
  obtains m2 where "bencode_parse input (length inp) opts True m = Some (st', None, c, m2)" and "moves m {} m2 {}"
proof -
  obtain m2 where m2: "bencode_value_free (droot s) m1 = Some m2" "moves m {} m2 {}"
    by (rule release_root [OF releasable_wf [OF assms(3)] assms(3)])
  have "bencode_parse input (length inp) opts True m = Some (st', None, c, m2)"
    using assms(4,5) m2(1) by (simp add: bencode_parse_run [OF assms(1)] assms(2) Let_def split: if_splits)
  then show thesis by (rule that [OF _ m2(2)])
qed

lemma bencode_parse_cases:
  assumes "parse_ready opts input inp m"
  obtains (parsed) v rest t m' where "parses_as opts inp v" and "inp = encode v @ rest"
      and "bencode_parse input (length inp) opts True m = Some (BENCODE_OK, Some (root t), length (encode v), m')"
      and "owned m' t" and "tree_val t = v" and "moves m {} m' (set (blocks t))"
  | (rejected) st c m' where "\<not> (\<exists>v. parses_as opts inp v)"
      and "bencode_parse input (length inp) opts True m = Some (st, None, c, m')" and "c \<le> length inp"
      and "st \<in> parse_errors" and "moves m {} m' {}" and "rejected_as opts inp st c"
  | (nomem) c m' where
      "bencode_parse input (length inp) opts True m = Some (BENCODE_ERR_NOMEM, None, c, m')" and "c \<le> length inp"
      and "moves m {} m' {}" and "\<not> granting m \<or> 2 ^ 58 < length inp"
proof -
  have r: "wf_mem m" "alloc_ok (options_allocator opts)" "borrowed m input inp" "length inp \<le> SIZE_MAX"
    using assms by (simp_all add: parse_ready_def)
  then show thesis
  proof (cases rule: dom_run [where md = "options_depth opts"])
    case (built v rest s m1 t)
    have rel: "releasable m s m1" using built(4,5,7) by (auto simp: releasable_def)
    show thesis
    proof (cases "options_trailing opts \<or> rest = []")
      case True
      have as: "parses_as opts inp v" using built(1,2) True unfolding parses_as_def by blast
      have run: "bencode_parse input (length inp) opts True m
          = Some (BENCODE_OK, Some (root t), length (encode v), m1)"
        using True built(2,4) unfolding bencode_parse_run [OF assms] built(3) by auto
      show thesis by (rule parsed [OF as built(2) run built(5,6,7)])
    next
      case False
      have none: "\<not> (\<exists>w. parses_as opts inp w)" using trailing_not_parsed [OF built(2)] False by blast
      have st: "BENCODE_ERR_UNEXPECTED_BYTE = (if BENCODE_OK = BENCODE_OK \<and> \<not> options_trailing opts
          \<and> length (encode v) \<noteq> length inp then BENCODE_ERR_UNEXPECTED_BYTE else BENCODE_OK)"
        using False built(2) by simp
      obtain m2 where m2: "bencode_parse input (length inp) opts True m
          = Some (BENCODE_ERR_UNEXPECTED_BYTE, None, length (encode v), m2)" "moves m {} m2 {}"
        by (rule bencode_parse_failed [OF assms built(3) rel st]) simp
      have err: "BENCODE_ERR_UNEXPECTED_BYTE \<in> parse_errors" by (simp add: parse_errors_def scan_errors_def)
      have le: "length (encode v) \<le> length inp" using built(2) by simp
      have "rejected_as opts inp BENCODE_ERR_UNEXPECTED_BYTE (length (encode v))"
        using built(1,2) False unfolding rejected_as_def by blast
      then show thesis by (rule rejected [OF none m2(1) le err m2(2)])
    qed
  next
    case (rejected st c s m1)
    have none: "\<not> (\<exists>w. parses_as opts inp w)" using rejected(1) by (auto simp: parses_as_def)
    have bad: "st \<noteq> BENCODE_OK" using rejected(4) OK_no_error by auto
    obtain m2 where m2: "bencode_parse input (length inp) opts True m = Some (st, None, c, m2)" "moves m {} m2 {}"
      by (rule bencode_parse_failed [OF assms rejected(2,5), of st]) (use bad in simp_all)
    have "rejected_as opts inp st c" using rejected(6) unfolding rejected_as_def by blast
    then show thesis by (rule that(2) [OF none m2(1) rejected(3,4) m2(2)])
  next
    case (nomem c s m1)
    obtain m2 where "bencode_parse input (length inp) opts True m = Some (BENCODE_ERR_NOMEM, None, c, m2)" "moves m {} m2 {}"
      by (rule bencode_parse_failed [OF assms nomem(1,3), of BENCODE_ERR_NOMEM]) simp_all
    then show thesis by (rule that(3) [OF _ nomem(2) _ nomem(4)])
  qed
qed

section \<open>Properties\<close>

text \<open>A buffer that holds the sample text, and memory with nothing else in it.\<close>

definition buffer_mem :: "byte list \<Rightarrow> mem" where
  "buffer_mem bs = \<lparr>store = (\<lambda>a. if a = 0 then Some (Foreign, Bytes (map Some bs)) else None),
     next_addr = 1, requests = 0, answers = (\<lambda>p n nbytes. True)\<rparr>"

lemma buffer_ready:
  "length bs \<le> SIZE_MAX \<Longrightarrow> alloc_ok (options_allocator opts) \<Longrightarrow> parse_ready opts (BAt 0 0) bs (buffer_mem bs)"
  by (simp add: parse_ready_def buffer_mem_def wf_mem_def borrowed_def slice_def)

lemma granting_buffer: "granting (buffer_mem bs)"
  by (simp add: granting_def buffer_mem_def)

text \<open>Two concrete parses: of the sample text, and of the sample text cut short.\<close>

lemma sample_ready:
  "parse_ready None (BAt 0 0) sample_text (buffer_mem sample_text)"
  "parse_ready None (BAt 0 0) (butlast sample_text) (buffer_mem (butlast sample_text))"
  using sample_text_length by (auto intro!: buffer_ready simp: options_allocator_def alloc_ok_def SIZE_MAX_def)

lemma sample_parses: "parses_as None sample_text sample"
  by (simp add: parses_as_def options_depth_def effective_depth_def BENCODE_DEFAULT_MAX_DEPTH_def
      BENCODE_INTERNAL_MAX_DEPTH_def canonical_sample encode_sample)

lemma sample_parse_result:
  "\<exists>r m'. bencode_parse (BAt 0 0) (length sample_text) None True (buffer_mem sample_text) = Some (BENCODE_OK, r, 17, m')"
  using sample_ready(1)
proof (cases rule: bencode_parse_cases)
  case (parsed v rest t m')
  have "v = sample" using parses_as_unique parsed(1) sample_parses .
  then show ?thesis using parsed(3) encode_sample sample_text_length by simp
next
  case (rejected st c m')
  then show ?thesis using sample_parses by blast
next
  case (nomem c m')
  then show ?thesis using granting_buffer sample_text_length by simp
qed

text \<open>C8: \<open>bencode_parse\<close> succeeds exactly on the encodings of values within the nesting limit (followed by
  other bytes only when trailing bytes are allowed), as long as the allocator grants its requests.\<close>

theorem dom_parse_accepts_iff:
  assumes "parse_ready opts input inp m" and "granting m" and "length inp \<le> 2 ^ 58"
  shows "(\<exists>r c m'. bencode_parse input (length inp) opts True m = Some (BENCODE_OK, r, c, m'))
    \<longleftrightarrow> (\<exists>v. parses_as opts inp v)"
  using assms(1)
proof (cases rule: bencode_parse_cases)
  case (rejected st c m')
  then show ?thesis using OK_no_error by auto
qed (use assms(2,3) in auto)

theorem dom_parse_accepts_iff_witness:
  "\<exists>r c m'. bencode_parse (BAt 0 0) (length sample_text) None True (buffer_mem sample_text)
     = Some (BENCODE_OK, r, c, m')"
  using dom_parse_accepts_iff [OF sample_ready(1) granting_buffer] sample_parses sample_text_length by auto

text \<open>C9: when \<open>bencode_parse\<close> succeeds, the output is the root of a tree that stands for the value whose
  canonical encoding the input starts with; the caller owns exactly the blocks of that tree, the rest of
  memory is untouched, and \<open>consumed\<close> is the length of the encoding.\<close>

theorem dom_parse_builds_value:
  assumes "parse_ready opts input inp m"
    and "bencode_parse input (length inp) opts True m = Some (BENCODE_OK, r, c, m')"
  shows "\<exists>t. r = Some (root t) \<and> owned m' t \<and> moves m {} m' (set (blocks t))
    \<and> parses_as opts inp (tree_val t) \<and> c = length (encode (tree_val t)) \<and> take c inp = encode (tree_val t)"
  using assms(1)
proof (cases rule: bencode_parse_cases)
  case (rejected st c m')
  then show ?thesis using OK_no_error assms(2) by auto
qed (use assms(2) in auto)

theorem dom_parse_builds_value_witness:
  "\<exists>t m'. bencode_parse (BAt 0 0) (length sample_text) None True (buffer_mem sample_text)
     = Some (BENCODE_OK, Some (root t), 17, m') \<and> owned m' t \<and> tree_val t = sample"
proof -
  obtain r m' where run: "bencode_parse (BAt 0 0) (length sample_text) None True (buffer_mem sample_text)
      = Some (BENCODE_OK, r, 17, m')" using sample_parse_result by blast
  from dom_parse_builds_value [OF sample_ready(1) run] obtain t where
    t: "r = Some (root t)" "owned m' t" "parses_as None sample_text (tree_val t)" by blast
  then have "tree_val t = sample" using parses_as_unique sample_parses by blast
  then show ?thesis using run t by blast
qed

text \<open>C10: \<open>bencode_parse\<close> always returns, and when its status is not \<open>BENCODE_OK\<close> the output is NULL, every
  block that was taken during the parse has been given back, nothing else was touched, the offset lies
  inside the buffer, and the status describes malformed input or exhausted memory.\<close>

theorem dom_parse_failure_releases:
  assumes "parse_ready opts input inp m"
  shows "\<exists>st r c m'. bencode_parse input (length inp) opts True m = Some (st, r, c, m') \<and> c \<le> length inp
    \<and> (st = BENCODE_OK \<or> r = None \<and> moves m {} m' {} \<and> st \<in> parse_errors \<union> {BENCODE_ERR_NOMEM})"
  using assms
proof (cases rule: bencode_parse_cases)
  case (parsed v rest t m')
  then show ?thesis by simp
qed auto

theorem dom_parse_failure_releases_witness:
  "\<exists>st r c m'. bencode_parse (BAt 0 0) (length (butlast sample_text)) None True (buffer_mem (butlast sample_text))
      = Some (st, r, c, m') \<and> c \<le> length (butlast sample_text)
    \<and> (st = BENCODE_OK \<or> r = None \<and> moves (buffer_mem (butlast sample_text)) {} m' {}
       \<and> st \<in> parse_errors \<union> {BENCODE_ERR_NOMEM})"
  by (rule dom_parse_failure_releases [OF sample_ready(2)])

text \<open>C11: when \<open>bencode_parse\<close> fails, its status says why: there was not enough memory, or it is the status that the
  table of the streaming parser has for the input, reported at or after the start of the value or key in question, or
  the input goes on after a canonical value and trailing bytes are not allowed; then the offset that is reported is the
  end of the value.\<close>

theorem dom_parse_status:
  assumes "parse_ready opts input inp m" and "bencode_parse input (length inp) opts True m = Some (st, r, c, m')"
    and "st \<noteq> BENCODE_OK"
  shows "st = BENCODE_ERR_NOMEM \<and> (\<not> granting m \<or> 2 ^ 58 < length inp)
     \<or> (\<exists>n\<le>c. rejects (effective_depth (options_depth opts)) inp n st) \<and> c \<le> length inp
     \<or> st = BENCODE_ERR_UNEXPECTED_BYTE \<and> \<not> options_trailing opts
       \<and> (\<exists>v rest. canonical (effective_depth (options_depth opts)) v \<and> inp = encode v @ rest \<and> rest \<noteq> []
            \<and> c = length (encode v))"
  using assms(1)
proof (cases rule: bencode_parse_cases)
  case (rejected st' c' m1)
  have "st' = st" "c' = c" "c' \<le> length inp" "rejected_as opts inp st' c'" using rejected(2,3,6) assms(2) by simp_all
  then show ?thesis unfolding rejected_as_def by blast
qed (use assms(2,3) in simp_all)

theorem dom_parse_status_witness:
  "\<exists>st r c m'. bencode_parse (BAt 0 0) (length double_text) None True (buffer_mem double_text) = Some (st, r, c, m')
     \<and> st = BENCODE_ERR_DICT_DUPLICATE"
proof -
  have ready: "parse_ready None (BAt 0 0) double_text (buffer_mem double_text)"
    by (rule buffer_ready) (simp_all add: double_text_def SIZE_MAX_def options_allocator_def alloc_ok_def)
  have depth: "effective_depth (options_depth None) = effective_depth 0" by (simp add: options_depth_def)
  have le: "length double_text \<le> SIZE_MAX" by (simp add: double_text_def SIZE_MAX_def)
  have none: "\<not> (\<exists>v rest. canonical (effective_depth 0) v \<and> double_text = encode v @ rest)"
    by (rule rejects_not_canonical [OF double_rejected le])
  from ready obtain st r c m' where run: "bencode_parse (BAt 0 0) (length double_text) None True (buffer_mem double_text)
      = Some (st, r, c, m')" and bad: "st \<noteq> BENCODE_OK"
  proof (cases rule: bencode_parse_cases)
    case (parsed v rest t m')
    then show thesis using none depth by (auto simp: parses_as_def)
  next
    case (rejected st c m')
    have "st \<noteq> BENCODE_OK" using rejected(4) OK_no_error by auto
    then show thesis by (rule that [OF rejected(2)])
  qed (use that in auto)
  have "\<not> (\<not> granting (buffer_mem double_text) \<or> 2 ^ 58 < length double_text)"
    using granting_buffer by (simp add: double_text_def)
  then have "st = BENCODE_ERR_DICT_DUPLICATE"
    using dom_parse_status [OF ready run bad] none rejects_unique [OF double_rejected _ le] unfolding depth by blast
  then show ?thesis using run by blast
qed

text \<open>Without an output pointer, with half an allocator table, or with a NULL buffer of positive
  length, \<open>bencode_parse\<close> returns \<open>BENCODE_ERR_INVALID_ARG\<close>, stores NULL and zero, and leaves the memory as
  it was.\<close>

theorem dom_parse_bad_arguments:
  assumes "\<not> has_out \<or> bencode_allocator_check (options_allocator opts) \<noteq> BENCODE_OK \<or> input = BNull \<and> n \<noteq> 0"
  shows "bencode_parse input n opts has_out m = Some (BENCODE_ERR_INVALID_ARG, None, 0, m)"
proof -
  have "bencode_allocator_check al \<noteq> BENCODE_OK \<Longrightarrow> bencode_allocator_check al = BENCODE_ERR_INVALID_ARG" for al
    by (auto simp: bencode_allocator_check_def split: option.splits if_splits)
  then have bad: "bencode_allocator_check (options_allocator opts) \<noteq> BENCODE_OK \<Longrightarrow>
      bencode_allocator_check (options_allocator opts) = BENCODE_ERR_INVALID_ARG" by blast
  consider "\<not> has_out" | "has_out" "bencode_allocator_check (options_allocator opts) \<noteq> BENCODE_OK"
    | "has_out" "bencode_allocator_check (options_allocator opts) = BENCODE_OK" "input = BNull" "n \<noteq> 0"
    using assms by blast
  then show ?thesis
  proof cases
    case 2
    then show ?thesis using bad by (cases opts) (simp_all add: bencode_parse_def options_allocator_def)
  next
    case 3
    then show ?thesis
      by (cases opts)
        (simp_all add: bencode_parse_def options_allocator_def input_buffer_def bencode_parse_sax_def init_dom_def)
  qed (simp add: bencode_parse_def)
qed

theorem dom_parse_bad_arguments_witness:
  "bencode_parse BNull 3 None True (buffer_mem []) = Some (BENCODE_ERR_INVALID_ARG, None, 0, buffer_mem [])"
  by (rule dom_parse_bad_arguments) simp

end
