(* ===== verification/Owned_Clone.thy ===== *)
theory Owned_Clone
  imports Owned_Trees
begin

text \<open>
  \<open>bencode_value_clone\<close>: the copy of a tree is a tree of its own for the same value; when memory runs out
  half-way, what was copied so far is given back.
\<close>

section \<open>What a copy promises\<close>

text \<open>Like \<open>built\<close>, but the copy may also be refused when an array of \<open>n\<close> elements could not grow.\<close>

definition cloned :: "mem \<Rightarrow> nat \<Rightarrow> bval \<Rightarrow> new_result \<Rightarrow> bool" where
  "cloned m n v res \<longleftrightarrow> (\<exists>st r m'. res = Some (st, r, m') \<and>
     (if st = BENCODE_OK
      then \<exists>t. r = Some (root t) \<and> owned m' t \<and> own_copy v t \<and> moves m {} m' (set (blocks t))
      else st = BENCODE_ERR_NOMEM \<and> r = None \<and> moves m {} m' {} \<and> (\<not> granting m \<or> crowded sizeof_entry n)))"

lemma cloned_cases:
  assumes "cloned m n v res"
  obtains (success) t m' where "res = Some (BENCODE_OK, Some (root t), m')" and "owned m' t"
      and "own_copy v t" and "moves m {} m' (set (blocks t))"
  | (nomem) m' where "res = Some (BENCODE_ERR_NOMEM, None, m')" and "moves m {} m' {}"
      and "\<not> granting m \<or> crowded sizeof_entry n"
  using assms by (auto simp: cloned_def split: if_splits)

lemma built_cloned: "built_as (own_copy v) m res \<Longrightarrow> cloned m n v res"
  by (auto simp: built_as_def cloned_def split: if_splits)

lemma clonedI:
  assumes "res = Some (BENCODE_OK, Some (root t), m')" and "owned m' t" and "own_copy v t"
    and "moves m {} m' (set (blocks t))"
  shows "cloned m n v res"
  using assms by (auto simp: cloned_def)

lemma cloned_nomemI:
  assumes "res = Some (BENCODE_ERR_NOMEM, None, m')" and "moves m {} m' {}"
    and "\<not> granting m \<or> crowded sizeof_entry n"
  shows "cloned m n v res"
  using assms by (auto simp: cloned_def)

section \<open>One element\<close>

text \<open>Giving back what was copied.\<close>

lemma free_copy:
  assumes "moves m0 {} m (set (blocks w))" and "owned m w"
  shows "\<exists>m'. bencode_value_free (Some (root w)) m = Some m' \<and> moves m0 {} m' {}"
proof -
  obtain m' where "bencode_value_free (Some (root w)) m = Some m'" and "moves m (set (blocks w)) m' {}"
    by (rule bencode_value_free_spec [OF movesD(2) [OF assms(1)] assms(2)])
  then show ?thesis using moves_trans [OF assms(1)] by blast
qed

lemma free_copies:
  assumes "moves m0 {} m (set (blocks w) \<union> set (blocks t))" and "owned m w" and "owned m t"
    and "set (blocks w) \<inter> set (blocks t) = {}"
  shows "\<exists>m1 m2. bencode_value_free (Some (root t)) m = Some m1
    \<and> bencode_value_free (Some (root w)) m1 = Some m2 \<and> moves m0 {} m2 {}"
proof -
  obtain m1 where m1: "bencode_value_free (Some (root t)) m = Some m1" and mv: "moves m (set (blocks t)) m1 {}"
    by (rule bencode_value_free_spec [OF movesD(2) [OF assms(1)] assms(3)])
  have "moves m0 {} m1 ({} \<union> (set (blocks w) \<union> set (blocks t) - set (blocks t)))"
    by (rule moves_step [OF assms(1) mv]) simp
  moreover have "{} \<union> (set (blocks w) \<union> set (blocks t) - set (blocks t)) = set (blocks w)"
    using assms(4) by blast
  ultimately have mv1: "moves m0 {} m1 (set (blocks w))" by simp
  have "owned m1 w" using owned_moves [OF assms(2) mv assms(4)] .
  from free_copy [OF mv1 this] m1 show ?thesis by blast
qed

text \<open>The two ways in which copying one element ends.\<close>

definition copied :: "mem \<Rightarrow> nat \<Rightarrow> (gtree \<Rightarrow> bool) \<Rightarrow> (bencode_status \<times> mem) option \<Rightarrow> bool" where
  "copied m0 n good res \<longleftrightarrow> (\<exists>st m'. res = Some (st, m')
     \<and> (if st = BENCODE_OK then \<exists>w. good w \<and> owned m' w \<and> moves m0 {} m' (set (blocks w))
        else st = BENCODE_ERR_NOMEM \<and> moves m0 {} m' {} \<and> (\<not> granting m0 \<or> crowded sizeof_entry n)))"

lemma copied_okI: "res = Some (BENCODE_OK, m') \<Longrightarrow> good w \<Longrightarrow> owned m' w \<Longrightarrow> moves m0 {} m' (set (blocks w))
    \<Longrightarrow> copied m0 n good res"
  by (auto simp: copied_def)

lemma copied_nomemI: "res = Some (BENCODE_ERR_NOMEM, m') \<Longrightarrow> moves m0 {} m' {}
    \<Longrightarrow> \<not> granting m0 \<or> crowded sizeof_entry n \<Longrightarrow> copied m0 n good res"
  by (auto simp: copied_def)

lemma clone_item_step:
  assumes mv: "moves m0 {} m (set (blocks w))" and w: "owned m w" "w = GList l al arr cap us"
    and x: "read_item items i m = Some x" and child: "cloned m n v (f (Some x) m)" and len: "length us \<le> n"
  shows "copied m0 n (\<lambda>w'. root w' = l \<and> (\<exists>arr cap u. w' = GList l al arr cap (us @ [u]) \<and> own_copy v u))
    (clone_item f (Some l) items i m)"
  using child
proof (cases rule: cloned_cases)
  case (nomem m1)
  have own: "owned m1 w" using owned_moves [OF w(1) nomem(2)] by simp
  have "moves m0 {} m1 (set (blocks w))" using moves_step [OF mv nomem(2)] by simp
  from free_copy [OF this own] obtain m2 where
    "bencode_value_free (Some l) m1 = Some m2" "moves m0 {} m2 {}" using w(2) by auto
  then show ?thesis using nomem(1,3) x moves_granting [OF mv]
    by (intro copied_nomemI [of _ m2]) (simp_all add: clone_item_def)
next
  case (success t m1)
  note b = beside [OF mv w(1) success(4)]
  from movesD(2) [OF success(4)] b(1) [unfolded w(2)] success(2) b(3) [unfolded w(2)] show ?thesis
  proof (cases rule: list_append_tree)
    case (appended arr' cap' m2)
    show ?thesis
    proof (rule copied_okI)
      show "clone_item f (Some l) items i m = Some (BENCODE_OK, m2)"
        using x success(1) appended(1) by (simp add: clone_item_def)
      show "owned m2 (GList l al arr' cap' (us @ [t]))" by (rule appended(2))
      show "moves m0 {} m2 (set (blocks (GList l al arr' cap' (us @ [t]))))"
        using moves_trans [OF b(2)] appended(3) w(2) by blast
    qed (use success(3) in simp)
  next
    case (nomem m2)
    have own: "owned m2 w" "owned m2 t"
      using owned_moves [OF b(1) nomem(2)] owned_moves [OF success(2) nomem(2)] by simp_all
    have "moves m0 {} m2 (set (blocks w) \<union> set (blocks t))" using moves_step [OF b(2) nomem(2)] by simp
    from free_copies [OF this own b(3)] obtain m3 m4 where
      "bencode_value_free (Some (root t)) m2 = Some m3" "bencode_value_free (Some l) m3 = Some m4"
      "moves m0 {} m4 {}" using w(2) by auto
    moreover have "\<not> granting m0 \<or> crowded sizeof_entry n"
      using nomem(3) len moves_granting [OF b(2)] crowded_item crowded_mono by blast
    ultimately show ?thesis using x success(1) nomem(1)
      by (intro copied_nomemI [of _ m4]) (simp_all add: clone_item_def)
  qed
qed

lemma clone_entry_step:
  assumes mv: "moves m0 {} m (set (blocks w))" and w: "owned m w" "w = GDict d al arr cap us"
    and e: "read_entry entries i m = Some \<lparr>ekey = ka, ekey_len = length k, evalue = x\<rparr>"
    and key: "read_bytes (key_ptr ka) (length k) m = Some k" "length k \<le> SIZE_MAX"
    and new: "\<forall>(ka', k', u)\<in>set us. k' < k"
    and child: "cloned m n v (f (Some x) m)" and len: "length us \<le> n"
  shows "copied m0 n (\<lambda>w'. root w' = d \<and> (\<exists>arr cap ka u. w' = GDict d al arr cap (us @ [(ka, k, u)]) \<and> own_copy v u))
    (clone_entry f (Some d) entries i m)"
  using child
proof (cases rule: cloned_cases)
  case (nomem m1)
  have own: "owned m1 w" using owned_moves [OF w(1) nomem(2)] by simp
  have "moves m0 {} m1 (set (blocks w))" using moves_step [OF mv nomem(2)] by simp
  from free_copy [OF this own] obtain m2 where
    "bencode_value_free (Some d) m1 = Some m2" "moves m0 {} m2 {}" using w(2) by auto
  then show ?thesis using nomem(1,3) e moves_granting [OF mv]
    by (intro copied_nomemI [of _ m2]) (simp_all add: clone_entry_def)
next
  case (success t m1)
  note b = beside [OF mv w(1) success(4)]
  have key1: "read_bytes (key_ptr ka) (length k) m1 = Some k"
    by (rule read_bytes_moves [OF key(1) success(4)])
  from movesD(2) [OF success(4)] b(1) [unfolded w(2)] success(2) b(3) [unfolded w(2)] key1 key(2) show ?thesis
  proof (cases rule: dict_set_tree)
    case (inserted arr' cap' kb xs mid ys m2)
    have "mid = []" "ys = []" using new inserted(1,3,4) by (cases mid; cases ys; fastforce)+
    then have us: "xs @ (kb, k, t) # ys = us @ [(kb, k, t)]" using inserted(1) by simp
    show ?thesis
    proof (rule copied_okI)
      show "clone_entry f (Some d) entries i m = Some (BENCODE_OK, m2)"
        using e success(1) inserted(5) by (simp add: clone_entry_def)
      show "owned m2 (GDict d al arr' cap' (us @ [(kb, k, t)]))" using inserted(6) us by simp
      show "moves m0 {} m2 (set (blocks (GDict d al arr' cap' (us @ [(kb, k, t)]))))"
        using moves_trans [OF b(2)] inserted(7) unfolding us w(2) by blast
    qed (use success(3) in simp)
  next
    case (nomem m2)
    have own: "owned m2 w" "owned m2 t"
      using owned_moves [OF b(1) nomem(2)] owned_moves [OF success(2) nomem(2)] by simp_all
    have "moves m0 {} m2 (set (blocks w) \<union> set (blocks t))" using moves_step [OF b(2) nomem(2)] by simp
    from free_copies [OF this own b(3)] obtain m3 m4 where
      "bencode_value_free (Some (root t)) m2 = Some m3" "bencode_value_free (Some d) m3 = Some m4"
      "moves m0 {} m4 {}" using w(2) by auto
    moreover have "\<not> granting m0 \<or> crowded sizeof_entry n"
      using nomem(3) len moves_granting [OF b(2)] crowded_mono by blast
    ultimately show ?thesis using e success(1) nomem(1)
      by (intro copied_nomemI [of _ m4]) (simp_all add: clone_entry_def)
  qed
qed

section \<open>All elements\<close>

text \<open>The source stays readable while the copy grows.\<close>

lemma store_moves: "moves m {} m' F' \<Longrightarrow> store m a = Some b \<Longrightarrow> store m' a = Some b"
  using moves_kept [of m "{}" m' F' "{a}" a] store_below movesD(1) by fastforce

lemma array_moves: "array m al arr cap esz cs \<Longrightarrow> moves m {} m' F' \<Longrightarrow> array m' al arr cap esz cs"
  by (rule array_frame) (use array_store store_moves in fastforce)+

lemma key_at_moves: "key_at m al ka k \<Longrightarrow> moves m {} m' F' \<Longrightarrow> key_at m' al ka k"
  by (rule key_at_frame) (use key_at_store store_moves in fastforce)+

definition clones :: "nat \<Rightarrow> (addr option \<Rightarrow> mem \<Rightarrow> new_result) \<Rightarrow> gtree \<Rightarrow> bool" where
  "clones n f t \<longleftrightarrow> (\<forall>m. wf_mem m \<and> holds m t \<longrightarrow> cloned m n (tree_val t) (f (Some (root t)) m))"

lemma copied_loop:
  assumes start: "moves m0 {} m (set (blocks w))" "owned m w" "good 0 w"
    and step: "\<And>i m w. i < k \<Longrightarrow> moves m0 {} m (set (blocks w)) \<Longrightarrow> owned m w \<Longrightarrow> good i w
      \<Longrightarrow> copied m0 n (good (Suc i)) (body i m)"
  shows "copied m0 n (good k) (for_ok body 0 k m)"
proof -
  have "\<exists>st m'. for_ok body 0 k m = Some (st, m')
      \<and> (st = BENCODE_OK \<longrightarrow> (\<exists>w. good (0 + k) w \<and> owned m' w \<and> moves m0 {} m' (set (blocks w))))
      \<and> (st \<noteq> BENCODE_OK \<longrightarrow> st = BENCODE_ERR_NOMEM \<and> moves m0 {} m' {}
           \<and> (\<not> granting m0 \<or> crowded sizeof_entry n))"
  proof (rule for_ok_invariant)
    show "\<exists>w. good 0 w \<and> owned m w \<and> moves m0 {} m (set (blocks w))" using start by blast
    fix i m1
    assume "i < 0 + k" and "\<exists>w. good i w \<and> owned m1 w \<and> moves m0 {} m1 (set (blocks w))"
    then have "copied m0 n (good (Suc i)) (body i m1)" using step by auto
    then show "\<exists>st m'. body i m1 = Some (st, m')
        \<and> (st = BENCODE_OK \<longrightarrow> (\<exists>w. good (Suc i) w \<and> owned m' w \<and> moves m0 {} m' (set (blocks w))))
        \<and> (st \<noteq> BENCODE_OK \<longrightarrow> st = BENCODE_ERR_NOMEM \<and> moves m0 {} m' {}
             \<and> (\<not> granting m0 \<or> crowded sizeof_entry n))"
      by (auto simp: copied_def split: if_splits)
  qed
  then show ?thesis by (auto simp: copied_def)
qed

lemma copied_mono: "copied m0 n good res \<Longrightarrow> (\<And>w. good w \<Longrightarrow> good' w) \<Longrightarrow> copied m0 n good' res"
  by (auto simp: copied_def split: if_splits)

lemma clone_items:
  assumes src: "array m0 sal arr scap sizeof_item (map Item (map root ts))" "\<forall>t\<in>set ts. holds m0 t"
    and f: "\<forall>t\<in>set ts. clones n f t" and len: "length ts \<le> n"
    and w: "moves m0 {} m (set (blocks w))" "owned m w" "w = GList l al None 0 []"
  shows "copied m0 n (\<lambda>w. root w = l \<and> own_copy (BList (map tree_val ts)) w)
    (for_ok (clone_item f (Some l) arr) 0 (length ts) m)"
proof -
  let ?good = "\<lambda>i w. \<exists>ar cap us. w = GList l al ar cap us \<and> map tree_val us = map tree_val (take i ts)
      \<and> (\<forall>u\<in>set us. detached u)"
  have "copied m0 n (?good (length ts)) (for_ok (clone_item f (Some l) arr) 0 (length ts) m)"
  proof (rule copied_loop [OF w(1,2)])
    fix i m1 w1
    assume i: "i < length ts" and mv: "moves m0 {} m1 (set (blocks w1))" and own: "owned m1 w1" and "?good i w1"
    then obtain ar cap us where w1: "w1 = GList l al ar cap us" and us: "map tree_val us = map tree_val (take i ts)"
      and det: "\<forall>u\<in>set us. detached u" by blast
    have rd: "read_item arr i m1 = Some (root (ts ! i))"
      using read_item_array [OF array_moves [OF src(1) mv], of i] i by simp
    have "holds m1 (ts ! i)" using holds_moves [OF _ mv] src(2) i by simp
    then have child: "cloned m1 n (tree_val (ts ! i)) (f (Some (root (ts ! i))) m1)"
      using f i movesD(2) [OF mv] by (simp add: clones_def)
    have "length us \<le> n" using us i len by (metis length_map length_take min.coboundedI2 nless_le order.trans)
    from clone_item_step [where f = f, OF mv own w1 rd child this]
    show "copied m0 n (?good (Suc i)) (clone_item f (Some l) arr i m1)"
    proof (rule copied_mono)
      fix w'
      assume "root w' = l \<and> (\<exists>arr cap u. w' = GList l al arr cap (us @ [u]) \<and> own_copy (tree_val (ts ! i)) u)"
      then obtain ar cap u where u: "w' = GList l al ar cap (us @ [u])" "tree_val u = tree_val (ts ! i)" "detached u"
        unfolding own_copy_def by blast
      have "map tree_val (us @ [u]) = map tree_val (take (Suc i) ts)"
        using us i u(2) by (simp add: take_Suc_conv_app_nth)
      moreover have "\<forall>u\<in>set (us @ [u]). detached u" using det u(3) by simp
      ultimately show "?good (Suc i) w'" using u(1) by blast
    qed
  qed (use w(3) in simp)
  then show ?thesis by (rule copied_mono) (auto simp: own_copy_def)
qed

lemma clone_entries:
  assumes src: "array m0 sal arr scap sizeof_entry (map entry_cell (shell_entries es))"
      "\<forall>(ka, k, t)\<in>set es. key_at m0 sal ka k" "\<forall>(ka, k, t)\<in>set es. holds m0 t"
      "sorted_wrt (<) (map (\<lambda>(ka, k, t). k) es)"
    and f: "\<forall>(ka, k, t)\<in>set es. clones n f t" and len: "length es \<le> n"
    and w: "moves m0 {} m (set (blocks w))" "owned m w" "w = GDict d al None 0 []"
  shows "copied m0 n (\<lambda>w. root w = d \<and> own_copy (BDict (map (\<lambda>(ka, k, t). (k, tree_val t)) es)) w)
    (for_ok (clone_entry f (Some d) arr) 0 (length es) m)"
proof -
  let ?vals = "map (\<lambda>(ka :: addr option, k :: byte list, t). (k, tree_val t))"
  let ?good = "\<lambda>i w. \<exists>ar cap us. w = GDict d al ar cap us \<and> ?vals us = ?vals (take i es)
      \<and> (\<forall>(ka, k, u)\<in>set us. detached u)"
  have "copied m0 n (?good (length es)) (for_ok (clone_entry f (Some d) arr) 0 (length es) m)"
  proof (rule copied_loop [OF w(1,2)])
    fix i m1 w1
    assume i: "i < length es" and mv: "moves m0 {} m1 (set (blocks w1))" and own: "owned m1 w1" and "?good i w1"
    then obtain ar cap us where w1: "w1 = GDict d al ar cap us" and us: "?vals us = ?vals (take i es)"
      and det: "\<forall>(ka, k, u)\<in>set us. detached u" by blast
    obtain ka k t where e: "es ! i = (ka, k, t)" by (cases "es ! i")
    then have ins: "(ka, k, t) \<in> set es" using i nth_mem by metis
    have rd: "read_entry arr i m1 = Some \<lparr>ekey = ka, ekey_len = length k, evalue = root t\<rparr>"
      using read_entry_array [OF array_moves [OF src(1) mv], of i] i e by simp
    have "key_at m0 sal ka k" using src(2) ins by auto
    then have key: "read_bytes (key_ptr ka) (length k) m1 = Some k" "length k \<le> SIZE_MAX"
      using read_key [OF key_at_moves [OF _ mv]] by (auto simp: key_at_def)
    have "holds m1 t" using holds_moves [OF _ mv, of t] src(3) ins by auto
    moreover have "clones n f t" using f ins by auto
    ultimately have child: "cloned m1 n (tree_val t) (f (Some (root t)) m1)"
      using movesD(2) [OF mv] by (simp add: clones_def)
    have new: "\<forall>(ka', k', u)\<in>set us. k' < k"
    proof -
      have keys: "map (\<lambda>(ka, k, t). k) us = take i (map (\<lambda>(ka, k, t). k) es)"
        using arg_cong [OF us, of "map fst"] by (simp add: take_map comp_def case_prod_unfold)
      have "\<forall>k'\<in>set (take i (map (\<lambda>(ka, k, t). k) es)). k' < k"
        using sorted_wrt_nth_less [OF src(4), of _ i] i e by (auto simp: in_set_conv_nth)
      then show ?thesis unfolding keys [symmetric] by (auto simp: case_prod_unfold)
    qed
    have "length us = length (take i es)" using arg_cong [OF us, of length] by simp
    then have "length us \<le> n" using i len by simp
    from clone_entry_step [where f = f, OF mv own w1 rd key new child this]
    show "copied m0 n (?good (Suc i)) (clone_entry f (Some d) arr i m1)"
    proof (rule copied_mono)
      fix w'
      assume "root w' = d \<and> (\<exists>arr cap ka u. w' = GDict d al arr cap (us @ [(ka, k, u)]) \<and> own_copy (tree_val t) u)"
      then obtain ar cap kb u where u: "w' = GDict d al ar cap (us @ [(kb, k, u)])" "tree_val u = tree_val t" "detached u"
        unfolding own_copy_def by blast
      have "?vals (us @ [(kb, k, u)]) = ?vals (take (Suc i) es)"
        using us i e u(2) by (simp add: take_Suc_conv_app_nth)
      moreover have "\<forall>(ka, k, u)\<in>set (us @ [(kb, k, u)]). detached u" using det u(3) by simp
      ultimately show "?good (Suc i) w'" using u(1) by blast
    qed
  qed (use w(3) in simp)
  then show ?thesis by (rule copied_mono) (auto simp: own_copy_def)
qed

section \<open>The whole tree\<close>

text \<open>A container: a new empty one is filled with copies of the children.\<close>

lemma clone_list:
  assumes "wf_mem m" and "alloc_ok al" and t: "holds m t" "t = GList a al' arr cap ts"
    and f: "\<forall>t'\<in>set ts. clones n (value_clone h al) t'" and len: "length ts \<le> n"
  shows "cloned m n (tree_val t) (value_clone (Suc h) al (Some (root t)) m)"
proof -
  have sh: "list_shell m a al' arr cap (map root ts)" and ts: "\<forall>t\<in>set ts. holds m t" using t by simp_all
  have go: "value_clone (Suc h) al (Some (root t)) m = do {
      (st, list, m1) \<leftarrow> bencode_list_new al True m;
      if st \<noteq> BENCODE_OK then Some (st, None, m1)
      else do {
        (st, m2) \<leftarrow> for_ok (clone_item (value_clone h al) list arr) 0 (length ts) m1;
        if st \<noteq> BENCODE_OK then Some (st, None, m2) else Some (BENCODE_OK, list, m2)
      }
    }"
    using sh t(2) assms(2) by (simp add: list_shell_def read_node_def)
  from assms(1) show ?thesis
  proof (cases rule: value_alloc_cases [where al = al and ty = BENCODE_LIST])
    case (refused m1)
    then show ?thesis using assms(2)
      by (intro cloned_nomemI [of _ m1]) (simp_all add: go bencode_list_new_def del: value_clone.simps)
  next
    case (granted l m1)
    let ?w = "GList l al None 0 []"
    have own: "owned m1 ?w" using granted(3) assms(2) by (simp add: owned_def list_shell_def array_None)
    have mv: "moves m {} m1 (set (blocks ?w))" using granted(2) by simp
    have new: "bencode_list_new al True m = Some (BENCODE_OK, Some l, m1)"
      using granted(1) assms(2) by (simp add: bencode_list_new_def)
    have "array m al' arr cap sizeof_item (map Item (map root ts))" using sh by (simp add: list_shell_def)
    from clone_items [OF this ts f len mv own refl]
    have "copied m n (\<lambda>w. root w = l \<and> own_copy (tree_val t) w)
        (for_ok (clone_item (value_clone h al) (Some l) arr) 0 (length ts) m1)" using t(2) by simp
    then show ?thesis unfolding go new by (auto simp: copied_def cloned_def split: if_splits)
  qed
qed

lemma clone_dict:
  assumes "wf_mem m" and "alloc_ok al" and t: "holds m t" "t = GDict a al' arr cap es"
    and f: "\<forall>(ka, k, t')\<in>set es. clones n (value_clone h al) t'" and len: "length es \<le> n"
  shows "cloned m n (tree_val t) (value_clone (Suc h) al (Some (root t)) m)"
proof -
  have sh: "dict_shell m a al' arr cap (shell_entries es)" and es: "\<forall>(ka, k, t)\<in>set es. holds m t"
    and sorted: "sorted_wrt (<) (map (\<lambda>(ka, k, t). k) es)" using t by simp_all
  have go: "value_clone (Suc h) al (Some (root t)) m = do {
      (st, dict, m1) \<leftarrow> bencode_dict_new al True m;
      if st \<noteq> BENCODE_OK then Some (st, None, m1)
      else do {
        (st, m2) \<leftarrow> for_ok (clone_entry (value_clone h al) dict arr) 0 (length es) m1;
        if st \<noteq> BENCODE_OK then Some (st, None, m2) else Some (BENCODE_OK, dict, m2)
      }
    }"
    using sh t(2) assms(2) by (simp add: dict_shell_def read_node_def)
  from assms(1) show ?thesis
  proof (cases rule: value_alloc_cases [where al = al and ty = BENCODE_DICT])
    case (refused m1)
    then show ?thesis using assms(2)
      by (intro cloned_nomemI [of _ m1]) (simp_all add: go bencode_dict_new_def del: value_clone.simps)
  next
    case (granted d m1)
    let ?w = "GDict d al None 0 []"
    have own: "owned m1 ?w" using granted(3) assms(2) by (simp add: owned_def dict_shell_def array_None)
    have mv: "moves m {} m1 (set (blocks ?w))" using granted(2) by simp
    have new: "bencode_dict_new al True m = Some (BENCODE_OK, Some d, m1)"
      using granted(1) assms(2) by (simp add: bencode_dict_new_def)
    have arr: "array m al' arr cap sizeof_entry (map entry_cell (shell_entries es))"
      and keys: "\<forall>(ka, k, t)\<in>set es. key_at m al' ka k"
      using sh by (auto simp: dict_shell_def)
    from clone_entries [OF arr keys es sorted f len mv own refl]
    have "copied m n (\<lambda>w. root w = d \<and> own_copy (tree_val t) w)
        (for_ok (clone_entry (value_clone h al) (Some d) arr) 0 (length es) m1)" using t(2) by simp
    then show ?thesis unfolding go new by (auto simp: copied_def cloned_def split: if_splits)
  qed
qed

lemma value_clone_spec:
  assumes al: "alloc_ok al"
  shows "height t \<le> h \<Longrightarrow> length (blocks t) \<le> n \<Longrightarrow> clones n (value_clone h al) t"
proof (induction h arbitrary: t)
  case 0
  then show ?case by (cases t) simp_all
next
  case (Suc h)
  show ?case unfolding clones_def
  proof (intro allI impI, elim conjE)
    fix m
    assume wf: "wf_mem m" and t: "holds m t"
    note string = built_cloned [OF bencode_string_new_copy [OF wf al]]
    show "cloned m n (tree_val t) (value_clone (Suc h) al (Some (root t)) m)"
    proof (cases t)
      case (GInt a al' i)
      then have "value_clone (Suc h) al (Some (root t)) m = bencode_int_new i al True m"
        using t al by (simp add: read_node_def)
      then show ?thesis using built_cloned [OF bencode_int_new_copy [OF wf al]] GInt by simp
    next
      case (GOwned a al' b bs)
      then have "value_clone (Suc h) al (Some (root t)) m = bencode_string_new (BAt b 0) (length bs) al True m"
        using t al by (simp add: read_node_def)
      moreover have "read_bytes (BAt b 0) (length bs) m = Some bs" using t GOwned by (simp add: read_bytes_def slice_def)
      ultimately show ?thesis using string t GOwned by simp
    next
      case (GBorrow a al' ptr bs)
      then have "value_clone (Suc h) al (Some (root t)) m = bencode_string_new ptr (length bs) al True m"
        using t al by (simp add: read_node_def)
      moreover have "read_bytes ptr (length bs) m = Some bs" using t GBorrow read_borrowed by simp
      ultimately show ?thesis using string t GBorrow by simp
    next
      case (GList a al' arr cap ts)
      note below = list_children [where a = a and al = al' and arr = arr and cap = cap and ts = ts, folded GList]
      have "\<forall>t'\<in>set ts. clones n (value_clone h al) t'"
        using Suc.IH Suc.prems below(1,2) by (meson le_trans less_Suc_eq_le less_le_trans)
      then show ?thesis by (rule clone_list [OF wf al t GList]) (use below(3) Suc.prems(2) in linarith)
    next
      case (GDict a al' arr cap es)
      note below = dict_children [where a = a and al = al' and arr = arr and cap = cap and es = es, folded GDict]
      have "clones n (value_clone h al) t'" if "(ka, k, t') \<in> set es" for ka k t'
        using Suc.IH [of t'] Suc.prems below(1,2) [OF that] by linarith
      then have "\<forall>(ka, k, t')\<in>set es. clones n (value_clone h al) t'" by blast
      then show ?thesis by (rule clone_dict [OF wf al t GDict]) (use below(3) Suc.prems(2) in linarith)
    qed
  qed
qed

lemma bencode_value_clone_spec:
  assumes "wf_mem m" and "owned m t" and "alloc_ok al"
  shows "cloned m (length (blocks t)) (tree_val t) (bencode_value_clone (Some (root t)) al True m)"
proof -
  have "height t \<le> Suc (next_addr m)" using height_below [OF assms(1,2)] by simp
  from value_clone_spec [OF assms(3) this order_refl] show ?thesis
    using assms(1,2) by (simp add: clones_def bencode_value_clone_def owned_def)
qed

end
