(* ===== verification/Value_Props.thy ===== *)
theory Value_Props
  imports Owned_Clone
begin

text \<open>
  The contract of \<open>src/value.c\<close> on owned trees: release, builders, search, accessors and deep copy.
\<close>

section \<open>Lookup\<close>

lemma map_of_position:
  assumes "position (map fst es) k i found" and "sorted_wrt (<) (map fst es)"
  shows "map_of es k = (if found then Some (snd (es ! i)) else None)"
proof (cases found)
  case True
  then have i: "i < length es" and "fst (es ! i) = k" using assms(1) by (auto simp: position_def)
  then have "(k, snd (es ! i)) \<in> set es" using nth_mem [OF i] by (metis prod.collapse)
  moreover have "distinct (map fst es)" using assms(2) by (simp add: strict_sorted_iff)
  ultimately show ?thesis using True by simp
next
  case False
  have "fst e \<noteq> k" if e: "e \<in> set es" for e
  proof -
    obtain j where j: "j < length es" "es ! j = e" using e unfolding in_set_conv_nth by blast
    then have key: "map fst es ! j = fst e" by simp
    have "fst e < k \<or> k < fst e"
    proof (cases "j < i")
      case True
      then show ?thesis using assms(1) unfolding key [symmetric] position_def by blast
    next
      case False
      moreover have "\<forall>j. i \<le> j \<and> j < length (map fst es) \<longrightarrow> k < map fst es ! j"
        using assms(1) \<open>\<not> found\<close> unfolding position_def by presburger
      ultimately show ?thesis using j(1) unfolding key [symmetric] by (metis length_map linorder_not_less)
    qed
    then show ?thesis by (metis order_less_irrefl)
  qed
  then show ?thesis using False by (force simp: map_of_eq_None_iff)
qed

abbreviation entry_trees :: "(addr option \<times> byte list \<times> gtree) list \<Rightarrow> (byte list \<times> gtree) list" where
  "entry_trees \<equiv> map (\<lambda>(ka, k, t). (k, t))"

lemma map_of_entry_vals: "map_of (entry_vals es) k = map_option tree_val (map_of (entry_trees es) k)"
  by (induction es) auto

lemma dict_get_lookup:
  assumes "holds m (GDict a al arr cap es)" and "read_bytes ptr len m = Some k"
  shows "bencode_dict_get (Some a) ptr len m = Some (map_option root (map_of (entry_trees es) k))"
proof -
  let ?ks = "map fst (entry_trees es)"
  have sh: "dict_shell m a al arr cap (shell_entries es)"
    and sorted: "sorted_wrt (<) (map (\<lambda>(ka, k, t). k) es)" using assms(1) by simp_all
  have ks: "map (\<lambda>(ka, k, c). k) (shell_entries es) = ?ks" "map (\<lambda>(ka, k, t). k) es = ?ks"
    by (simp_all add: case_prod_unfold)
  have node: "read_node m a = Some \<lparr>valloc = al, payload = Dict_payload arr (length es) cap\<rparr>"
    using sh by (simp add: dict_shell_def read_node_def)
  have ptr: "\<not> (ptr = BNull \<and> len \<noteq> 0)" using assms(2) by (auto simp: read_bytes_def split: if_splits)
  obtain i found where s: "dict_search arr (length ?ks) ptr len m = Some (i, found)"
    and pos: "position ?ks k i found"
    by (rule dict_search_spec [OF dict_shell_readable [OF sh, unfolded ks(1)] sorted [unfolded ks(2)] assms(2)])
  have look: "map_of (entry_trees es) k = (if found then Some (snd (entry_trees es ! i)) else None)"
    by (rule map_of_position [OF pos sorted [unfolded ks(2)]])
  have go: "bencode_dict_get (Some a) ptr len m
      = (if \<not> found then Some None else do { e \<leftarrow> read_entry arr i m; Some (Some (evalue e)) })"
    using node ptr s by (auto simp: bencode_dict_get_def)
  show ?thesis
  proof (cases found)
    case True
    then have i: "i < length es" using pos by (auto simp: position_def)
    obtain ka k' t where e: "es ! i = (ka, k', t)" by (cases "es ! i")
    have "read_entry arr i m = Some \<lparr>ekey = ka, ekey_len = length k', evalue = root t\<rparr>"
      using read_entry_array [of m al arr cap "shell_entries es" i] sh i e by (simp only: dict_shell_def) simp
    then show ?thesis using go look True i e by simp
  qed (use go look in simp)
qed

section \<open>A sample memory\<close>

text \<open>A dictionary with two entries, an empty list, an integer, and the bytes of a key that the caller
  has.\<close>

definition sample_dict :: gtree where
  "sample_dict = GDict 1 None (Some 2) 4 [(Some 3, [97], GInt 4 None 7), (Some 5, [99], GOwned 6 None 7 [120, 121])]"

definition sample_list :: gtree where
  "sample_list = GList 8 None None 0 []"

definition sample_int :: gtree where
  "sample_int = GInt 9 None 5"

definition sample_mem :: mem where
  "sample_mem = \<lparr>store =
     [1 \<mapsto> (Platform, Node \<lparr>valloc = None, payload = Dict_payload (Some 2) 2 4\<rparr>),
      2 \<mapsto> (Platform, Cells [Entry \<lparr>ekey = Some 3, ekey_len = 1, evalue = 4\<rparr>,
                           Entry \<lparr>ekey = Some 5, ekey_len = 1, evalue = 6\<rparr>, Uninit, Uninit]),
      3 \<mapsto> (Platform, Bytes [Some 97]),
      4 \<mapsto> (Platform, Node \<lparr>valloc = None, payload = Int_payload 7\<rparr>),
      5 \<mapsto> (Platform, Bytes [Some 99]),
      6 \<mapsto> (Platform, Node \<lparr>valloc = None, payload = Str_payload (BAt 7 0) 2 True\<rparr>),
      7 \<mapsto> (Platform, Bytes [Some 120, Some 121]),
      8 \<mapsto> (Platform, Node \<lparr>valloc = None, payload = List_payload None 0 0\<rparr>),
      9 \<mapsto> (Platform, Node \<lparr>valloc = None, payload = Int_payload 5\<rparr>),
      10 \<mapsto> (Foreign, Bytes [Some 98])],
     next_addr = 11, requests = 0, answers = (\<lambda>p n nbytes. True)\<rparr>"

lemma sample_wf: "wf_mem sample_mem"
  by (auto simp: wf_mem_def sample_mem_def split: if_splits)

lemma sample_granting: "granting sample_mem"
  by (simp add: granting_def sample_mem_def)

lemma byte_less: "(97 :: byte) < 99" "(97 :: byte) < 98" "(98 :: byte) < 99"
  by (simp_all add: word_less_nat_alt)

lemma alloc_ok_NULL: "alloc_ok None"
  by (simp add: alloc_ok_def)

lemma sample_dict_owned: "owned sample_mem sample_dict"
  by (simp add: owned_def sample_dict_def sample_mem_def dict_shell_def array_Some entry_cell_def
      sizeof_defs SIZE_MAX_def key_at_def pool_of_def alloc_ok_NULL byte_less)

lemma sample_list_owned: "owned sample_mem sample_list"
  by (simp add: owned_def sample_list_def sample_mem_def list_shell_def array_None pool_of_def alloc_ok_NULL)

lemma sample_int_owned: "owned sample_mem sample_int"
  by (simp add: owned_def sample_int_def sample_mem_def pool_of_def alloc_ok_NULL)

lemma sample_apart:
  "set (blocks sample_list) \<inter> set (blocks sample_int) = {}"
  "set (blocks sample_dict) \<inter> set (blocks sample_int) = {}"
  by (auto simp: sample_list_def sample_int_def sample_dict_def)

lemma sample_key: "read_bytes (BAt 10 0) 1 sample_mem = Some [98]"
  by (simp add: read_bytes_def sample_mem_def slice_def)


section \<open>Containers that take a child\<close>

text \<open>The outcome of an operation that puts the child \<open>t\<close> into the container \<open>c\<close> of \<open>n\<close> elements: the
  container, at the same address, stands for \<open>v\<close> and owns the child's blocks; or memory ran out and
  container, child and everything else are as they were.\<close>

definition takes_child :: "mem \<Rightarrow> gtree \<Rightarrow> gtree \<Rightarrow> bval \<Rightarrow> nat \<Rightarrow> (bencode_status \<times> mem) option \<Rightarrow> bool" where
  "takes_child m c t v n res \<longleftrightarrow> (\<exists>st m'. res = Some (st, m')
     \<and> (if st = BENCODE_OK
        then \<exists>c'. root c' = root c \<and> owned m' c' \<and> tree_val c' = v
               \<and> moves m (set (blocks c) \<union> set (blocks t)) m' (set (blocks c'))
        else st = BENCODE_ERR_NOMEM \<and> moves m {} m' {} \<and> (granting m \<longrightarrow> 2 ^ 58 < n)))"

lemma takes_childI:
  assumes "res = Some (BENCODE_OK, m')" and "root c' = root c" and "owned m' c'" and "tree_val c' = v"
    and "moves m (set (blocks c) \<union> set (blocks t)) m' (set (blocks c'))"
  shows "takes_child m c t v n res"
  using assms by (auto simp: takes_child_def)

lemma takes_child_nomemI:
  assumes "res = Some (BENCODE_ERR_NOMEM, m')" and "moves m {} m' {}" and "granting m \<longrightarrow> 2 ^ 58 < n"
  shows "takes_child m c t v n res"
  using assms by (auto simp: takes_child_def)

lemma list_tree: "tree_val l = BList vs \<Longrightarrow> \<exists>a al arr cap ts. l = GList a al arr cap ts \<and> vs = map tree_val ts"
  by (cases l) auto

lemma dict_tree: "tree_val d = BDict es \<Longrightarrow> \<exists>a al arr cap ts. d = GDict a al arr cap ts \<and> es = entry_vals ts"
  by (cases d) auto

lemma map_of_replace:
  assumes "\<forall>(ka, k', t)\<in>set xs. k' < k" and "\<forall>(ka, k', t)\<in>set mid. k' = k"
  shows "map_of (entry_trees (xs @ (ka, k, t) # ys)) k2
    = (if k2 = k then Some t else map_of (entry_trees (xs @ mid @ ys)) k2)"
proof -
  have "map_of (entry_trees xs) k = None" using assms(1) by (auto simp: map_of_eq_None_iff)
  moreover have "map_of (entry_trees mid) k2 = None" if "k2 \<noteq> k"
    using assms(2) that by (auto simp: map_of_eq_None_iff)
  ultimately show ?thesis by (auto simp: map_add_def split: option.splits)
qed

lemma insert_key_entries:
  assumes "\<forall>(ka, k', t)\<in>set xs. k' < k" and "\<forall>(ka, k', t)\<in>set mid. k' = k" and "\<forall>(ka, k', t)\<in>set ys. k < k'"
  shows "entry_vals (xs @ (ka, k, t) # ys) = insert_key k (tree_val t) (entry_vals (xs @ mid @ ys))"
proof -
  have "\<forall>e\<in>set (entry_vals xs). fst e < k" "\<forall>e\<in>set (entry_vals mid). fst e = k"
    "\<forall>e\<in>set (entry_vals ys). k < fst e"
    using assms by (auto simp: case_prod_unfold)
  from insert_key_split [OF this] show ?thesis by simp
qed

section \<open>Properties\<close>

text \<open>C24: \<open>bencode_value_free\<close> on a tree that the caller owns gives back every block of the tree, each once
  and through the allocator it came from, and touches nothing else; it never runs out of its recursion
  bound.\<close>

theorem value_free_releases:
  assumes "wf_mem m" and "owned m t"
  shows "\<exists>m'. bencode_value_free (Some (root t)) m = Some m' \<and> moves m (set (blocks t)) m' {}"
  by (rule bencode_value_free_spec [OF assms]) blast

theorem value_free_releases_witness:
  "\<exists>m'. bencode_value_free (Some 1) sample_mem = Some m' \<and> (\<forall>a\<in>{1..7}. store m' a = None) \<and> store m' 8 = store sample_mem 8"
proof -
  have r: "root sample_dict = 1" "set (blocks sample_dict) = {1..7}" by (auto simp: sample_dict_def)
  from value_free_releases [OF sample_wf sample_dict_owned] obtain m' where
    "bencode_value_free (Some 1) sample_mem = Some m'" "moves sample_mem {1..7} m' {}"
    unfolding r by blast
  then show ?thesis using movesD(8,9) [of sample_mem "{1..7}" m' "{}"] by auto
qed

text \<open>C32: \<open>bencode_list_append\<close> adds the child at the end of the list, which takes over the child's blocks;
  when the array cannot grow, list and child are as they were.\<close>

theorem list_append_appends:
  assumes "wf_mem m" and "owned m l" and "owned m t" and "set (blocks l) \<inter> set (blocks t) = {}"
    and "tree_val l = BList vs"
  shows "takes_child m l t (BList (vs @ [tree_val t])) (length vs)
    (bencode_list_append (Some (root l)) (Some (root t)) m)"
proof -
  obtain a al arr cap ts where l: "l = GList a al arr cap ts" and vs: "vs = map tree_val ts"
    using list_tree [OF assms(5)] by blast
  from assms(1-4) [unfolded l] show ?thesis
  proof (cases rule: list_append_tree)
    case (appended arr' cap' m')
    then show ?thesis using l vs by (intro takes_childI [of _ m' "GList a al arr' cap' (ts @ [t])"]) simp_all
  next
    case (nomem m')
    then show ?thesis using l vs crowded_bound crowded_item by (intro takes_child_nomemI [of _ m']) auto
  qed
qed

theorem list_append_appends_witness:
  "takes_child sample_mem sample_list sample_int (BList [BInt 5]) 0 (bencode_list_append (Some 8) (Some 9) sample_mem)"
  using list_append_appends [OF sample_wf sample_list_owned sample_int_owned sample_apart(1), of "[]"]
  by (simp add: sample_list_def sample_int_def)

text \<open>C25: \<open>bencode_dict_set\<close> makes the child the value of the key: the dictionary stands for the sorted list of
  entries with this key inserted, or its value replaced (the old value is released); as a map from keys
  to values it is updated at the key.  On failure dictionary and child are as they were.\<close>

theorem dict_set_updates:
  assumes "wf_mem m" and "owned m d" and "owned m t" and "set (blocks d) \<inter> set (blocks t) = {}"
    and "tree_val d = BDict es" and "read_bytes ptr len m = Some k" and "len \<le> SIZE_MAX"
  shows "takes_child m d t (BDict (insert_key k (tree_val t) es)) (length es)
      (bencode_dict_set (Some (root d)) ptr len (Some (root t)) m)
    \<and> map_of (insert_key k (tree_val t) es) = (map_of es)(k \<mapsto> tree_val t)"
proof -
  obtain a al arr cap ts where d: "d = GDict a al arr cap ts" and es: "es = entry_vals ts"
    using dict_tree [OF assms(5)] by blast
  have "sorted_wrt (<) (map fst es)"
    using assms(2) d es by (simp add: owned_def case_prod_unfold comp_def)
  moreover from assms(1-4) [unfolded d] assms(6,7)
  have "takes_child m d t (BDict (insert_key k (tree_val t) es)) (length es)
      (bencode_dict_set (Some (root d)) ptr len (Some (root t)) m)"
  proof (cases rule: dict_set_tree)
    case (inserted arr' cap' ka xs mid ys m')
    have "tree_val (GDict a al arr' cap' (xs @ (ka, k, t) # ys)) = BDict (insert_key k (tree_val t) es)"
      using insert_key_entries [OF inserted(2-4), of ka t] unfolding es inserted(1) by simp
    then show ?thesis using inserted(5-7) d
      by (intro takes_childI [of _ m' "GDict a al arr' cap' (xs @ (ka, k, t) # ys)"]) simp_all
  next
    case (nomem m')
    then show ?thesis using d es crowded_bound by (intro takes_child_nomemI [of _ m']) auto
  qed
  ultimately show ?thesis by (intro conjI insert_key_map_of)
qed

theorem dict_set_updates_witness:
  "takes_child sample_mem sample_dict sample_int (BDict [([97], BInt 7), ([98], BInt 5), ([99], BStr [120, 121])]) 2
     (bencode_dict_set (Some 1) (BAt 10 0) 1 (Some 9) sample_mem)"
proof -
  have "tree_val sample_dict = BDict [([97], BInt 7), ([99], BStr [120, 121])]"
    by (simp add: sample_dict_def)
  from dict_set_updates [OF sample_wf sample_dict_owned sample_int_owned sample_apart(2) this sample_key]
  have "takes_child sample_mem sample_dict sample_int
      (BDict (insert_key [98] (tree_val sample_int) [([97], BInt 7), ([99], BStr [120, 121])]))
      (length [([97 :: byte], BInt 7), ([99], BStr [120, 121])])
      (bencode_dict_set (Some (root sample_dict)) (BAt 10 0) 1 (Some (root sample_int)) sample_mem)"
    by (simp add: SIZE_MAX_def)
  moreover have "insert_key [98] (tree_val sample_int) [([97], BInt 7), ([99], BStr [120, 121])]
      = [([97], BInt 7), ([98], BInt 5), ([99], BStr [120, 121])]"
    by (simp add: insert_key_def byte_less sample_int_def)
  moreover have "length [([97 :: byte], BInt 7), ([99], BStr [120, 121])] = 2"
    "root sample_dict = 1" "root sample_int = 9" by (simp_all add: sample_dict_def sample_int_def)
  ultimately show ?thesis by (simp only:)
qed

text \<open>C29: \<open>bencode_dict_get\<close>, a binary search, finds exactly what a search through all entries finds: the
  child stored under the key, or NULL when there is none.\<close>

theorem dict_get_finds:
  assumes "owned m d" and "tree_val d = BDict es" and "read_bytes ptr len m = Some k"
  shows "\<exists>r. bencode_dict_get (Some (root d)) ptr len m = Some r
    \<and> (case r of None \<Rightarrow> map_of es k = None
       | Some c \<Rightarrow> \<exists>t. c = root t \<and> holds m t \<and> map_of es k = Some (tree_val t))"
proof -
  obtain a al arr cap ts where d: "d = GDict a al arr cap ts" and es: "es = entry_vals ts"
    using dict_tree [OF assms(2)] by blast
  have h: "holds m (GDict a al arr cap ts)" using assms(1) d by (simp add: owned_def)
  note get = dict_get_lookup [OF h assms(3)]
  show ?thesis
  proof (cases "map_of (entry_trees ts) k")
    case None
    then show ?thesis using get es d map_of_entry_vals [of ts k] by auto
  next
    case (Some t)
    then have "(k, t) \<in> set (entry_trees ts)" by (rule map_of_SomeD)
    then have "holds m t" using h by auto
    then show ?thesis using get Some es d map_of_entry_vals [of ts k] by auto
  qed
qed

theorem dict_get_finds_witness:
  "bencode_dict_get (Some 1) (BAt 10 0) 1 sample_mem = Some None"
proof -
  have "tree_val sample_dict = BDict [([97], BInt 7), ([99], BStr [120, 121])]"
    by (simp add: sample_dict_def)
  from dict_get_finds [OF sample_dict_owned this sample_key] show ?thesis
    by (auto simp: sample_dict_def split: option.splits)
qed

text \<open>After a successful \<open>bencode_dict_set\<close>, \<open>bencode_dict_get\<close> returns the new child for its key, and for
  every other key what it returned before.\<close>

theorem dict_get_after_set:
  assumes "wf_mem m" and "owned m d" and "owned m t" and "set (blocks d) \<inter> set (blocks t) = {}"
    and "tree_val d = BDict es" and "read_bytes ptr len m = Some k" and "len \<le> SIZE_MAX"
    and "bencode_dict_set (Some (root d)) ptr len (Some (root t)) m = Some (BENCODE_OK, m')"
    and "read_bytes ptr2 len2 m = Some k2" and "read_bytes ptr2 len2 m' = Some k2"
  shows "bencode_dict_get (Some (root d)) ptr2 len2 m'
    = (if k2 = k then Some (Some (root t)) else bencode_dict_get (Some (root d)) ptr2 len2 m)"
proof -
  obtain a al arr cap ts where d: "d = GDict a al arr cap ts"
    using dict_tree [OF assms(5)] by blast
  have before: "bencode_dict_get (Some a) ptr2 len2 m = Some (map_option root (map_of (entry_trees ts) k2))"
    using dict_get_lookup [OF _ assms(9)] assms(2) d unfolding owned_def by blast
  from assms(1-4) [unfolded d] assms(6,7) show ?thesis
  proof (cases rule: dict_set_tree)
    case (inserted arr' cap' ka xs mid ys m1)
    then have m1: "m1 = m'" using assms(8) d by simp
    have "bencode_dict_get (Some a) ptr2 len2 m'
        = Some (map_option root (map_of (entry_trees (xs @ (ka, k, t) # ys)) k2))"
      using dict_get_lookup [OF _ assms(10)] inserted(6) m1 unfolding owned_def by blast
    then show ?thesis
      unfolding map_of_replace [OF inserted(2,3)] using before d inserted(1) by simp
  next
    case (nomem m1)
    then show ?thesis using assms(8) d by simp
  qed
qed

text \<open>The key \<open>b\<close> set in the sample dictionary.\<close>

lemma sample_set:
  obtains m' where "bencode_dict_set (Some 1) (BAt 10 0) 1 (Some 9) sample_mem = Some (BENCODE_OK, m')"
    and "read_bytes (BAt 10 0) 1 m' = Some [98]"
proof -
  have one: "(1 :: nat) \<le> SIZE_MAX" by (simp add: SIZE_MAX_def)
  from sample_wf sample_dict_owned [unfolded sample_dict_def] sample_int_owned
    sample_apart(2) [unfolded sample_dict_def] sample_key one show thesis
  proof (cases rule: dict_set_tree)
    case (inserted arr' cap' ka xs mid ys m')
    have "store sample_mem 10 = Some (Foreign, Bytes [Some 98])" by (simp add: sample_mem_def)
    then have "store m' 10 = Some (Foreign, Bytes [Some 98])" by (rule movesD(11) [OF inserted(7)])
    then have "read_bytes (BAt 10 0) 1 m' = Some [98]" by (simp add: read_bytes_def slice_def)
    then show thesis using that inserted(5) by (simp add: sample_int_def)
  next
    case (nomem m')
    then show thesis using sample_granting by (simp add: crowded_def sizeof_defs SIZE_MAX_def)
  qed
qed

theorem dict_get_after_set_witness:
  "\<exists>m'. bencode_dict_set (Some 1) (BAt 10 0) 1 (Some 9) sample_mem = Some (BENCODE_OK, m')
     \<and> bencode_dict_get (Some 1) (BAt 10 0) 1 m' = Some (Some 9)"
proof -
  have d: "tree_val sample_dict = BDict [([97], BInt 7), ([99], BStr [120, 121])]"
    and r: "root sample_dict = 1" "root sample_int = 9"
    by (simp_all add: sample_dict_def sample_int_def)
  have one: "(1 :: nat) \<le> SIZE_MAX" by (simp add: SIZE_MAX_def)
  obtain m' where m': "bencode_dict_set (Some 1) (BAt 10 0) 1 (Some 9) sample_mem = Some (BENCODE_OK, m')"
    "read_bytes (BAt 10 0) 1 m' = Some [98]" by (rule sample_set)
  from dict_get_after_set [OF sample_wf sample_dict_owned sample_int_owned sample_apart(2) d sample_key one,
      unfolded r, OF m'(1) sample_key m'(2)] m'(1) show ?thesis by simp
qed

text \<open>C26: \<open>bencode_value_clone\<close> returns a tree of its own for the same value: its blocks are fresh, so they share
  nothing with the original, its strings are owned whatever the original's were, and the original stays
  as it is.  When memory runs out, what was copied so far has been given back.\<close>

theorem clone_copies:
  assumes "wf_mem m" and "owned m t" and "alloc_ok al"
  shows "\<exists>st r m'. bencode_value_clone (Some (root t)) al True m = Some (st, r, m') \<and> owned m' t
    \<and> (if st = BENCODE_OK
       then \<exists>t'. r = Some (root t') \<and> owned m' t' \<and> tree_val t' = tree_val t \<and> detached t'
              \<and> moves m {} m' (set (blocks t')) \<and> set (blocks t') \<inter> set (blocks t) = {}
       else st = BENCODE_ERR_NOMEM \<and> r = None \<and> moves m {} m' {}
              \<and> (granting m \<longrightarrow> 2 ^ 58 < length (blocks t)))"
  using bencode_value_clone_spec [OF assms]
proof (cases rule: cloned_cases)
  case (success t' m')
  have "set (blocks t) \<subseteq> {..<next_addr m}" using holds_below assms(1,2) by (simp add: owned_def)
  then have "set (blocks t') \<inter> set (blocks t) = {}" using moves_apart [OF success(4)] by (simp add: Int_commute)
  moreover have "owned m' t" using owned_moves [OF assms(2) success(4)] by simp
  ultimately show ?thesis using success by (auto simp: own_copy_def)
next
  case (nomem m')
  have "owned m' t" using owned_moves [OF assms(2) nomem(2)] by simp
  then show ?thesis using nomem crowded_bound by auto
qed

theorem clone_copies_witness:
  "\<exists>t' m'. bencode_value_clone (Some 1) None True sample_mem = Some (BENCODE_OK, Some (root t'), m')
    \<and> owned m' t' \<and> tree_val t' = BDict [([97], BInt 7), ([99], BStr [120, 121])]
    \<and> set (blocks t') \<inter> {1..7} = {}"
proof -
  have r: "root sample_dict = 1" "set (blocks sample_dict) = {1..7}" "length (blocks sample_dict) = 7"
    "tree_val sample_dict = BDict [([97], BInt 7), ([99], BStr [120, 121])]"
    by (auto simp: sample_dict_def)
  from clone_copies [OF sample_wf sample_dict_owned alloc_ok_NULL] sample_granting show ?thesis
    unfolding r by (auto split: if_splits)
qed


text \<open>C27: a clone does not need the input that the original's strings point into: it stays intact in every
  later memory that has its own blocks as they were, whatever became of the original and of the input
  buffer.\<close>

theorem clone_survives_input:
  assumes "wf_mem m" and "owned m t" and "alloc_ok al"
    and "bencode_value_clone (Some (root t)) al True m = Some (BENCODE_OK, r, m1)"
  shows "\<exists>t'. r = Some (root t') \<and> tree_val t' = tree_val t \<and> moves m {} m1 (set (blocks t'))
    \<and> (\<forall>m2. (\<forall>a\<in>set (blocks t'). store m2 a = store m1 a) \<longrightarrow> owned m2 t')"
  using bencode_value_clone_spec [OF assms(1-3)]
proof (cases rule: cloned_cases)
  case (success t' m')
  have "owned m2 t'" if "\<forall>a\<in>set (blocks t'). store m2 a = store m1 a" for m2
    by (rule detached_frame [of m1]) (use success(1-3) assms(4) that in \<open>simp_all add: own_copy_def\<close>)
  then show ?thesis using success(1,3,4) assms(4) by (auto simp: own_copy_def)
next
  case (nomem m')
  then show ?thesis using assms(4) by simp
qed

text \<open>A string that points into a buffer of the caller.\<close>

definition borrowing_mem :: mem where
  "borrowing_mem = \<lparr>store =
     [0 \<mapsto> (Foreign, Bytes [Some 98]),
      1 \<mapsto> (Platform, Node \<lparr>valloc = None, payload = Str_payload (BAt 0 0) 1 False\<rparr>)],
     next_addr = 2, requests = 0, answers = (\<lambda>p n nbytes. True)\<rparr>"

lemma borrowing_wf: "wf_mem borrowing_mem"
  by (auto simp: wf_mem_def borrowing_mem_def split: if_splits)

lemma borrowing_owned: "owned borrowing_mem (GBorrow 1 None (BAt 0 0) [98])"
  by (simp add: owned_def borrowing_mem_def borrowed_def alloc_ok_def pool_of_def slice_def SIZE_MAX_def)

theorem clone_survives_input_witness:
  "\<exists>t' m1. bencode_value_clone (Some 1) None True borrowing_mem = Some (BENCODE_OK, Some (root t'), m1)
    \<and> tree_val t' = BStr [98] \<and> owned (m1\<lparr>store := (store m1)(0 := None)\<rparr>) t'"
proof -
  have gr: "granting borrowing_mem" by (simp add: granting_def borrowing_mem_def)
  obtain r m1 where run: "bencode_value_clone (Some 1) None True borrowing_mem = Some (BENCODE_OK, r, m1)"
    using bencode_value_clone_spec [OF borrowing_wf borrowing_owned alloc_ok_NULL]
    by (cases rule: cloned_cases) (use gr in \<open>auto simp: crowded_def sizeof_defs SIZE_MAX_def\<close>)
  from clone_survives_input [OF borrowing_wf borrowing_owned alloc_ok_NULL, of r m1] run obtain t' where
    t': "r = Some (root t')" "tree_val t' = BStr [98]" "moves borrowing_mem {} m1 (set (blocks t'))"
    and any: "\<forall>m2. (\<forall>a\<in>set (blocks t'). store m2 a = store m1 a) \<longrightarrow> owned m2 t'" by auto
  have "0 \<notin> set (blocks t')" using movesD(10) [OF t'(3), of 0] by (auto simp: borrowing_mem_def)
  then have "owned (m1\<lparr>store := (store m1)(0 := None)\<rparr>) t'" using any by simp
  then show ?thesis using run t' by blast
qed

text \<open>Each constructor returns a fresh tree for its value that borrows nothing (a string has a private copy of
  the bytes that were passed), or \<open>BENCODE_ERR_NOMEM\<close> with every block given back, and that only when the
  allocator refuses.\<close>

theorem constructors_build:
  assumes "wf_mem m" and "alloc_ok al" and "read_bytes ptr len m = Some bs" and "len \<le> SIZE_MAX"
  shows "built_as (own_copy (BInt (sint i))) m (bencode_int_new i al True m)
    \<and> built_as (own_copy (BStr bs)) m (bencode_string_new ptr len al True m)
    \<and> built_as (own_copy (BList [])) m (bencode_list_new al True m)
    \<and> built_as (own_copy (BDict [])) m (bencode_dict_new al True m)"
  using assms bencode_int_new_copy bencode_string_new_copy bencode_list_new_copy bencode_dict_new_copy by blast

theorem constructors_build_witness:
  "built_as (own_copy (BInt (-3))) sample_mem (bencode_int_new (-3) None True sample_mem)
    \<and> built_as (own_copy (BStr [98])) sample_mem (bencode_string_new (BAt 10 0) 1 None True sample_mem)
    \<and> built_as (own_copy (BList [])) sample_mem (bencode_list_new None True sample_mem)
    \<and> built_as (own_copy (BDict [])) sample_mem (bencode_dict_new None True sample_mem)"
proof -
  have "(1 :: nat) \<le> SIZE_MAX" by (simp add: SIZE_MAX_def)
  from constructors_build [OF sample_wf alloc_ok_NULL sample_key this, of "-3"] show ?thesis by simp
qed

fun val_type :: "bval \<Rightarrow> bencode_type" where
  "val_type (BInt _) = BENCODE_INT"
| "val_type (BStr _) = BENCODE_STRING"
| "val_type (BList _) = BENCODE_LIST"
| "val_type (BDict _) = BENCODE_DICT"

text \<open>C33: the accessors agree with the value that the tree stands for: type tag, integer, string (whose
  bytes can be read through the returned pointer), and sizes; asked for another type they answer
  \<open>BENCODE_ERR_INVALID_ARG\<close> or zero.\<close>

theorem accessors_agree:
  assumes "owned m t"
  shows "bencode_value_type (Some (root t)) m = Some (val_type (tree_val t))
    \<and> bencode_value_int (Some (root t)) True m = Some (case tree_val t of
         BInt i \<Rightarrow> (BENCODE_OK, Some (word_of_int i)) | _ \<Rightarrow> (BENCODE_ERR_INVALID_ARG, None))
    \<and> (case tree_val t of
         BStr bs \<Rightarrow> \<exists>ptr. bencode_value_string (Some (root t)) True True m = Some (BENCODE_OK, Some (ptr, length bs))
                     \<and> read_bytes ptr (length bs) m = Some bs
       | _ \<Rightarrow> bencode_value_string (Some (root t)) True True m = Some (BENCODE_ERR_INVALID_ARG, None))
    \<and> bencode_list_size (Some (root t)) m = Some (case tree_val t of BList vs \<Rightarrow> length vs | _ \<Rightarrow> 0)
    \<and> bencode_dict_size (Some (root t)) m = Some (case tree_val t of BDict es \<Rightarrow> length es | _ \<Rightarrow> 0)"
proof -
  have h: "holds m t" using assms by (simp add: owned_def)
  note defs = bencode_value_type_def bencode_value_int_def bencode_value_string_def bencode_list_size_def
    bencode_dict_size_def read_node_def list_shell_def dict_shell_def
  show ?thesis
  proof (cases t)
    case (GOwned a al b bs)
    then show ?thesis using h by (simp add: defs read_bytes_def slice_def)
  next
    case (GBorrow a al ptr bs)
    then show ?thesis using h read_borrowed by (simp add: defs)
  qed (use h in \<open>simp_all add: defs\<close>)
qed

theorem accessors_agree_witness:
  "bencode_value_type (Some 1) sample_mem = Some BENCODE_DICT \<and> bencode_dict_size (Some 1) sample_mem = Some 2
    \<and> bencode_value_int (Some 1) True sample_mem = Some (BENCODE_ERR_INVALID_ARG, None)"
  using accessors_agree [OF sample_dict_owned] by (simp add: sample_dict_def)

text \<open>C34: indexing agrees with the value: the element at a valid index of a list is the tree of that element,
  the entry at a valid index of a dictionary has that entry's key and value; any other index or type gives
  NULL or \<open>BENCODE_ERR_INVALID_ARG\<close>.\<close>

theorem elements_agree:
  assumes "owned m t"
  shows "(\<exists>r. bencode_list_at (Some (root t)) i m = Some r
      \<and> (case r of None \<Rightarrow> \<not> (\<exists>vs. tree_val t = BList vs \<and> i < length vs)
         | Some c \<Rightarrow> \<exists>vs u. tree_val t = BList vs \<and> i < length vs \<and> c = root u \<and> holds m u \<and> tree_val u = vs ! i))
    \<and> (\<exists>st r. bencode_dict_at (Some (root t)) i m = Some (st, r)
      \<and> (case r of None \<Rightarrow> st = BENCODE_ERR_INVALID_ARG \<and> \<not> (\<exists>es. tree_val t = BDict es \<and> i < length es)
         | Some (ka, n, c) \<Rightarrow> st = BENCODE_OK \<and> (\<exists>es u. tree_val t = BDict es \<and> i < length es
             \<and> read_bytes (key_ptr ka) n m = Some (fst (es ! i))
             \<and> c = root u \<and> holds m u \<and> tree_val u = snd (es ! i))))"
    (is "?list \<and> ?dict")
proof -
  have h: "holds m t" using assms by (simp add: owned_def)
  have ?list
  proof (cases t)
    case (GList a al arr cap ts)
    then have sh: "list_shell m a al arr cap (map root ts)" and ts: "\<forall>u\<in>set ts. holds m u" using h by simp_all
    have rd: "i < length ts \<Longrightarrow> read_item arr i m = Some (root (ts ! i))"
      using sh read_item_array [of m al arr cap "map root ts" i] by (simp add: list_shell_def)
    have node: "read_node m a = Some \<lparr>valloc = al, payload = List_payload arr (length ts) cap\<rparr>"
      using sh by (simp add: list_shell_def read_node_def)
    show ?thesis
    proof (cases "i < length ts")
      case True
      then have "holds m (ts ! i)" using ts by simp
      then show ?thesis using True rd node GList by (auto simp: bencode_list_at_def intro!: exI [of _ "ts ! i"])
    qed (use node GList in \<open>simp add: bencode_list_at_def\<close>)
  qed (use h in \<open>simp_all add: bencode_list_at_def read_node_def dict_shell_def\<close>)
  moreover have ?dict
  proof (cases t)
    case (GDict a al arr cap ts)
    then have sh: "dict_shell m a al arr cap (shell_entries ts)" and ts: "\<forall>(ka, k, u)\<in>set ts. holds m u"
      using h by simp_all
    have node: "read_node m a = Some \<lparr>valloc = al, payload = Dict_payload arr (length ts) cap\<rparr>"
      using sh by (simp add: dict_shell_def read_node_def)
    show ?thesis
    proof (cases "i < length ts")
      case True
      obtain ka k u where e: "ts ! i = (ka, k, u)" by (cases "ts ! i")
      then have ins: "(ka, k, u) \<in> set ts" using True nth_mem by metis
      have rd: "read_entry arr i m = Some \<lparr>ekey = ka, ekey_len = length k, evalue = root u\<rparr>"
        using read_entry_array [of m al arr cap "shell_entries ts" i] sh True e
        by (simp only: dict_shell_def) simp
      have "key_at m al ka k" using sh ins by (auto simp: dict_shell_def)
      then have "read_bytes (key_ptr ka) (length k) m = Some k" by (rule read_key)
      moreover have "holds m u" using ts ins by auto
      ultimately show ?thesis using True rd node GDict e by (auto simp: bencode_dict_at_def)
    qed (use node GDict in \<open>simp add: bencode_dict_at_def\<close>)
  qed (use h in \<open>simp_all add: bencode_dict_at_def read_node_def list_shell_def\<close>)
  ultimately show ?thesis by blast
qed

theorem elements_agree_witness:
  "bencode_dict_at (Some 1) 2 sample_mem = Some (BENCODE_ERR_INVALID_ARG, None)"
proof -
  have d: "tree_val sample_dict = BDict [([97], BInt 7), ([99], BStr [120, 121])]" "root sample_dict = 1"
    by (simp_all add: sample_dict_def)
  from elements_agree [OF sample_dict_owned, of 2] show ?thesis
    unfolding d by (auto split: option.splits)
qed

text \<open>C35: \<open>grow_array\<close>, asked for room for one more element, returns an array that still holds the elements and
  has a free place after them; its capacity in bytes does not overflow \<open>size_t\<close>; the old array has been
  released.  Otherwise the array is as it was.\<close>

theorem grow_array_keeps:
  assumes "wf_mem m" and "alloc_ok al" and "array m al arr cap esz cs" and "0 < esz" and "esz \<le> 24"
  shows "\<exists>st arr' cap' m'. grow_array al arr esz cap (Suc (length cs)) m = Some (st, arr', cap', m')
    \<and> (if st = BENCODE_OK
       then \<exists>b blk rest. arr' = Some b \<and> store m' b = Some (pool_of al, blk) \<and> cells_of esz blk = Some (cs @ rest)
              \<and> length (cs @ rest) = cap' \<and> rest \<noteq> [] \<and> cap' * esz \<le> SIZE_MAX \<and> moves m (set (opt arr)) m' {b}
       else st = BENCODE_ERR_NOMEM \<and> arr' = arr \<and> cap' = cap \<and> moves m {} m' {}
              \<and> (granting m \<longrightarrow> SIZE_MAX div esz < 2 * length cs + 4))"
  using assms
proof (cases rule: grow_array_spec)
  case (grown arr' cap' m')
  then obtain b blk rest where r: "arr' = Some b" "store m' b = Some (pool_of al, blk)"
    "cells_of esz blk = Some (cs @ rest)" "length (cs @ rest) = cap'" "rest \<noteq> []" "cap' \<le> SIZE_MAX div esz"
    by (auto simp: roomy_def)
  have "cap' * esz \<le> SIZE_MAX div esz * esz" using r(6) by (rule mult_le_mono1)
  then have "cap' * esz \<le> SIZE_MAX" using div_times_less_eq_dividend le_trans by blast
  then show ?thesis using grown r by auto
next
  case (nomem m')
  then show ?thesis by (auto simp: crowded_def)
qed

theorem grow_array_keeps_witness:
  "\<exists>arr' cap' m'. grow_array None None 8 0 1 sample_mem = Some (BENCODE_OK, arr', cap', m') \<and> 0 < cap' \<and> cap' * 8 \<le> SIZE_MAX"
proof -
  have "array sample_mem None None 0 8 []" by (simp add: array_None)
  from grow_array_keeps [OF sample_wf alloc_ok_NULL this] sample_granting show ?thesis
    by (auto simp: SIZE_MAX_def split: if_splits)
qed

end
