(* ===== verification/Emit.thy ===== *)
theory Emit
  imports Value
begin

text \<open>
  \<open>src/emit.c\<close>: the recursive emitter over a caller-supplied sink, and the two sinks that the library
  brings, a stream and a growing buffer.  A sink is a function of the bytes and of the state, which is the
  user's data together with the memory, so that a sink may allocate while the emitter reads the tree.  The
  emitter reads a node once, before its loop; a sink does not change the tree that is being emitted.
\<close>

section \<open>Sinks\<close>

type_synonym 'u sink_result = "(bencode_status \<times> 'u \<times> mem) option"
type_synonym 'u bencode_emit_fn = "byte list \<Rightarrow> 'u \<times> mem \<Rightarrow> 'u sink_result"

definition emit_bytes :: "'u bencode_emit_fn \<Rightarrow> byte list \<Rightarrow> 'u \<times> mem \<Rightarrow> 'u sink_result" where
  "emit_bytes emit bs s = (if length bs = 0 then Some (BENCODE_OK, s) else emit bs s)"

section \<open>Scalars\<close>

text \<open>The size of the character arrays that \<open>snprintf\<close> prints into, and what it prints for the formats
  \<open>i%lde\<close> and \<open>%zu:\<close>.\<close>

definition BUF_SIZE :: nat where
  "BUF_SIZE = 32"

definition print_int :: "bencode_int_t \<Rightarrow> byte list" where
  "print_int i =
     (let n = sint i in 105 # (if n < 0 then 45 # dec (nat (- n)) else dec (nat n)) @ [101])"

definition print_header :: "nat \<Rightarrow> byte list" where
  "print_header len = dec len @ [58]"

definition emit_int :: "'u bencode_emit_fn \<Rightarrow> bencode_int_t \<Rightarrow> 'u \<times> mem \<Rightarrow> 'u sink_result" where
  "emit_int emit i s =
     (let buf = print_int i in
      if length buf \<ge> BUF_SIZE then Some (BENCODE_ERR_IO, s) else emit_bytes emit buf s)"

definition emit_string :: "'u bencode_emit_fn \<Rightarrow> bptr \<Rightarrow> nat \<Rightarrow> 'u \<times> mem \<Rightarrow> 'u sink_result" where
  "emit_string emit bytes len s =
     (let header = print_header len in
      if length header \<ge> BUF_SIZE then Some (BENCODE_ERR_IO, s)
      else do {
        (st, s1) \<leftarrow> emit_bytes emit header s;
        if st \<noteq> BENCODE_OK then Some (st, s1)
        else do {
          bs \<leftarrow> read_bytes bytes len (snd s1);
          emit_bytes emit bs s1
        }
      })"

section \<open>Containers\<close>

text \<open>The loop bodies, over the function that emits a child.\<close>

definition emit_item :: "(addr \<Rightarrow> 'u \<times> mem \<Rightarrow> 'u sink_result) \<Rightarrow> addr option \<Rightarrow> nat \<Rightarrow> 'u \<times> mem \<Rightarrow> 'u sink_result" where
  "emit_item emit_child items i s = do {
     x \<leftarrow> read_item items i (snd s);
     emit_child x s
   }"

definition emit_entry :: "'u bencode_emit_fn \<Rightarrow> (addr \<Rightarrow> 'u \<times> mem \<Rightarrow> 'u sink_result) \<Rightarrow> addr option \<Rightarrow> nat
    \<Rightarrow> 'u \<times> mem \<Rightarrow> 'u sink_result" where
  "emit_entry emit emit_child entries i s = do {
     e \<leftarrow> read_entry entries i (snd s);
     (st, s1) \<leftarrow> emit_string emit (key_ptr (ekey e)) (ekey_len e) s;
     if st \<noteq> BENCODE_OK then Some (st, s1) else emit_child (evalue e) s1
   }"

definition emit_list :: "'u bencode_emit_fn \<Rightarrow> (addr \<Rightarrow> 'u \<times> mem \<Rightarrow> 'u sink_result) \<Rightarrow> addr option \<Rightarrow> nat
    \<Rightarrow> 'u \<times> mem \<Rightarrow> 'u sink_result" where
  "emit_list emit emit_child items count s = do {
     (st, s1) \<leftarrow> emit_bytes emit [108] s;
     if st \<noteq> BENCODE_OK then Some (st, s1)
     else do {
       (st, s2) \<leftarrow> for_ok (emit_item emit_child items) 0 count s1;
       if st \<noteq> BENCODE_OK then Some (st, s2) else emit_bytes emit [101] s2
     }
   }"

definition emit_dict :: "'u bencode_emit_fn \<Rightarrow> (addr \<Rightarrow> 'u \<times> mem \<Rightarrow> 'u sink_result) \<Rightarrow> addr option \<Rightarrow> nat
    \<Rightarrow> 'u \<times> mem \<Rightarrow> 'u sink_result" where
  "emit_dict emit emit_child entries count s = do {
     (st, s1) \<leftarrow> emit_bytes emit [100] s;
     if st \<noteq> BENCODE_OK then Some (st, s1)
     else do {
       (st, s2) \<leftarrow> for_ok (emit_entry emit emit_child entries) 0 count s1;
       if st \<noteq> BENCODE_OK then Some (st, s2) else emit_bytes emit [101] s2
     }
   }"

primrec emit_value :: "nat \<Rightarrow> 'u bencode_emit_fn \<Rightarrow> addr \<Rightarrow> 'u \<times> mem \<Rightarrow> 'u sink_result" where
  "emit_value 0 emit a s = None"
| "emit_value (Suc n) emit a s = do {
     v \<leftarrow> read_node (snd s) a;
     (case payload v of
        Int_payload i \<Rightarrow> emit_int emit i s
      | Str_payload bytes len owned \<Rightarrow> emit_string emit bytes len s
      | List_payload items count cap \<Rightarrow> emit_list emit (emit_value n emit) items count s
      | Dict_payload entries count cap \<Rightarrow> emit_dict emit (emit_value n emit) entries count s
      | Invalid_payload \<Rightarrow> Some (BENCODE_ERR_INVALID_ARG, s))
   }"

text \<open>The depth of the recursion is counted as in \<open>bencode_value_free\<close>.\<close>

definition emit_depth :: "mem \<Rightarrow> nat" where
  "emit_depth m = Suc (next_addr m)"

definition bencode_emit :: "addr option \<Rightarrow> 'u bencode_emit_fn option \<Rightarrow> 'u \<times> mem \<Rightarrow> 'u sink_result" where
  "bencode_emit ptr emit s =
     (case (ptr, emit) of
        (Some a, Some f) \<Rightarrow> emit_value (emit_depth (snd s)) f a s
      | _ \<Rightarrow> Some (BENCODE_ERR_INVALID_ARG, s))"

section \<open>Streams\<close>

text \<open>A stream of the standard library: \<open>fwrite\<close> writes some of the bytes it is given and returns how many,
  \<open>fflush\<close> succeeds or fails.  What it answers is arbitrary.\<close>

record file_stream =
  written :: "byte list"
  fcalls :: nat
  fwrite_answers :: "nat \<Rightarrow> nat \<Rightarrow> nat"
  fflush_answers :: "nat \<Rightarrow> bool"

definition fwrite :: "byte list \<Rightarrow> file_stream \<Rightarrow> nat \<times> file_stream" where
  "fwrite bs fp =
     (let n = min (fwrite_answers fp (fcalls fp) (length bs)) (length bs)
      in (n, fp\<lparr>written := written fp @ take n bs, fcalls := fcalls fp + 1\<rparr>))"

definition fflush :: "file_stream \<Rightarrow> bool \<times> file_stream" where
  "fflush fp = (fflush_answers fp (fcalls fp), fp\<lparr>fcalls := fcalls fp + 1\<rparr>)"

definition emit_to_file_cb :: "file_stream bencode_emit_fn" where
  "emit_to_file_cb bs = (\<lambda>(fp, m).
     (case fwrite bs fp of (n, fp1) \<Rightarrow>
        if n \<noteq> length bs then Some (BENCODE_ERR_IO, fp1, m) else Some (BENCODE_OK, fp1, m)))"

definition bencode_emit_to_file :: "addr option \<Rightarrow> file_stream option \<Rightarrow> mem
    \<Rightarrow> (bencode_status \<times> file_stream option \<times> mem) option" where
  "bencode_emit_to_file ptr out m =
     (case (ptr, out) of
        (Some a, Some fp) \<Rightarrow> do {
          (st, fp1, m1) \<leftarrow> emit_value (emit_depth m) emit_to_file_cb a (fp, m);
          if st \<noteq> BENCODE_OK then Some (st, Some fp1, m1)
          else (case fflush fp1 of (good, fp2) \<Rightarrow>
            if \<not> good then Some (BENCODE_ERR_IO, Some fp2, m1) else Some (BENCODE_OK, Some fp2, m1))
        }
      | _ \<Rightarrow> Some (BENCODE_ERR_INVALID_ARG, out, m))"

section \<open>Growing buffers\<close>

record alloc_sink =
  sbytes :: "addr option"
  slen :: nat
  scap :: nat
  salloc :: "bencode_allocator option"
  soom :: bool

text \<open>Subtraction of \<open>size_t\<close> values.\<close>

definition sz_sub :: "nat \<Rightarrow> nat \<Rightarrow> nat" where
  "sz_sub a b = (if b \<le> a then a - b else a + 2 ^ 64 - b)"

text \<open>The doubling loop of \<open>alloc_sink_append\<close>; the inner \<open>None\<close> is its overflow exit.\<close>

partial_function (option) sink_double :: "nat \<Rightarrow> nat \<Rightarrow> nat \<Rightarrow> nat option option" where
  [code]: "sink_double new_cap used len =
     (if sz_sub new_cap used < len then
        (if new_cap > SIZE_MAX div 2 then Some None else sink_double (sz (new_cap * 2)) used len)
      else Some (Some new_cap))"

text \<open>The part of \<open>alloc_sink_append\<close> that makes room, and in it the move to the larger buffer.\<close>

definition sink_move :: "bencode_allocator option \<Rightarrow> addr option \<Rightarrow> nat \<Rightarrow> addr \<Rightarrow> mem \<Rightarrow> mem option" where
  "sink_move al bytes len fresh m1 = (case bytes of
       None \<Rightarrow> Some m1
     | Some old \<Rightarrow> do {
         bs \<leftarrow> read_bytes (BAt old 0) len m1;
         m2 \<leftarrow> write_bytes fresh 0 bs m1;
         bencode_free al (Some old) m2
       })"

definition sink_grow :: "nat \<Rightarrow> alloc_sink \<times> mem \<Rightarrow> alloc_sink sink_result" where
  "sink_grow len = (\<lambda>(s, m).
     if sz_sub (scap s) (slen s) < len then do {
       grown \<leftarrow> sink_double (if scap s = 0 then 4096 else scap s) (slen s) len;
       (case grown of
          None \<Rightarrow> Some (BENCODE_ERR_NOMEM, s\<lparr>soom := True\<rparr>, m)
        | Some new_cap \<Rightarrow>
            (case bencode_alloc (salloc s) new_cap m of
               (None, m1) \<Rightarrow> Some (BENCODE_ERR_NOMEM, s\<lparr>soom := True\<rparr>, m1)
             | (Some fresh, m1) \<Rightarrow> do {
                 m3 \<leftarrow> sink_move (salloc s) (sbytes s) (slen s) fresh m1;
                 Some (BENCODE_OK, s\<lparr>sbytes := Some fresh, scap := new_cap\<rparr>, m3)
               }))
     }
     else Some (BENCODE_OK, s, m))"

definition alloc_sink_append :: "alloc_sink bencode_emit_fn" where
  "alloc_sink_append bs = (\<lambda>(s, m).
     if soom s then Some (BENCODE_ERR_NOMEM, s, m)
     else do {
       (st, s1, m1) \<leftarrow> sink_grow (length bs) (s, m);
       if st \<noteq> BENCODE_OK then Some (st, s1, m1)
       else do {
         b \<leftarrow> sbytes s1;
         m2 \<leftarrow> write_bytes b (slen s1) bs m1;
         Some (BENCODE_OK, s1\<lparr>slen := sz (slen s1 + length bs)\<rparr>, m2)
       }
     })"

definition init_sink :: "bencode_allocator option \<Rightarrow> alloc_sink" where
  "init_sink al = \<lparr>sbytes = None, slen = 0, scap = 0, salloc = al, soom = False\<rparr>"

text \<open>The result is the status, the values stored through \<open>out_bytes\<close> and \<open>out_len\<close>, and the memory.\<close>

definition bencode_emit_to_alloc :: "addr option \<Rightarrow> bencode_allocator option \<Rightarrow> bool \<Rightarrow> bool \<Rightarrow> mem
    \<Rightarrow> (bencode_status \<times> addr option \<times> nat \<times> mem) option" where
  "bencode_emit_to_alloc ptr al has_bytes has_len m =
     (case ptr of
        None \<Rightarrow> Some (BENCODE_ERR_INVALID_ARG, None, 0, m)
      | Some a \<Rightarrow>
          if \<not> has_bytes \<or> \<not> has_len then Some (BENCODE_ERR_INVALID_ARG, None, 0, m)
          else let checked = bencode_allocator_check al in
            if checked \<noteq> BENCODE_OK then Some (checked, None, 0, m)
            else do {
              (st, s, m1) \<leftarrow> emit_value (emit_depth m) alloc_sink_append a (init_sink al, m);
              if st \<noteq> BENCODE_OK then do {
                m2 \<leftarrow> bencode_free al (sbytes s) m1;
                Some (st, None, 0, m2)
              }
              else Some (BENCODE_OK, sbytes s, slen s, m1)
            })"

definition bencode_buffer_free :: "bencode_allocator option \<Rightarrow> addr option \<Rightarrow> mem \<Rightarrow> mem option" where
  "bencode_buffer_free al bytes m = bencode_free al bytes m"

end
