(* ===== verification/Emit_Spec.thy ===== *)
theory Emit_Spec
  imports Emit Owned_Free "HOL-Library.Sublist"
begin

text \<open>
  What the emitter does with any sink that keeps its side of the bargain, proved once; the streams and the
  growing buffer are instances.
\<close>

section \<open>The printed scalars\<close>

lemma dec_bound: "0 < k \<Longrightarrow> n < 10 ^ k \<Longrightarrow> length (dec n) \<le> k"
proof (induction n arbitrary: k rule: dec.induct)
  case (1 n)
  show ?case
  proof (cases "n < 10")
    case True
    then show ?thesis using "1.prems" by (subst dec.simps) simp
  next
    case False
    then obtain j where k: "k = Suc j" "0 < j"
      using "1.prems" by (cases k; cases "k - 1") auto
    then have "n div 10 < 10 ^ j" using "1.prems" by (simp add: div_less_iff_less_mult mult.commute)
    then have "length (dec (n div 10)) \<le> j" using "1.IH" False k by blast
    then show ?thesis using False k by (subst dec.simps) simp
  qed
qed

lemma print_int_encode: "print_int i = encode (BInt (sint i))"
  by (simp add: print_int_def enc_int_def Let_def)

lemma print_int_fits: "length (print_int i) \<le> 22"
proof -
  have "nat \<bar>sint i\<bar> \<le> 2 ^ 63"
    using sint_int64_bounds [of i] by (auto simp: INT64_MIN_def INT64_MAX_def)
  then have le: "length (dec (nat \<bar>sint i\<bar>)) \<le> 19" by (intro dec_bound) simp_all
  show ?thesis
  proof (cases "sint i < 0")
    case True
    then show ?thesis using le by (simp add: print_int_def)
  next
    case False
    then have "\<bar>sint i\<bar> = sint i" by simp
    then show ?thesis using le False by (simp add: print_int_def)
  qed
qed

lemma print_header_fits: "len \<le> SIZE_MAX \<Longrightarrow> length (print_header len) \<le> 21"
  using dec_bound [of 20 len] by (simp add: print_header_def SIZE_MAX_def)

lemma encode_string: "print_header (length bs) @ bs = encode (BStr bs)"
  by (simp add: print_header_def enc_str_def)

section \<open>The interface of a sink\<close>

text \<open>\<open>accepts w s\<close>: the sink has taken the bytes \<open>w\<close>; \<open>failed w st s\<close>: it has answered \<open>st\<close> on the last of the
  bytes \<open>w\<close>.  While it accepts, memory that was there at the start is as it was.\<close>

locale byte_sink =
  fixes m0 :: mem
    and emit :: "'u bencode_emit_fn"
    and accepts :: "byte list \<Rightarrow> 'u \<times> mem \<Rightarrow> bool"
    and failed :: "byte list \<Rightarrow> bencode_status \<Rightarrow> 'u \<times> mem \<Rightarrow> bool"
  assumes emit_step: "accepts w s \<Longrightarrow> bs \<noteq> [] \<Longrightarrow> length bs \<le> SIZE_MAX \<Longrightarrow>
      \<exists>st s'. emit bs s = Some (st, s')
        \<and> (if st = BENCODE_OK then accepts (w @ bs) s' else failed (w @ bs) st s')"
    and accepts_moves: "accepts w s \<Longrightarrow> \<exists>F. moves m0 {} (snd s) F"
begin

text \<open>Putting out exactly the bytes \<open>bs\<close>, or failing on a prefix of them.\<close>

definition puts :: "byte list \<Rightarrow> byte list \<Rightarrow> 'u sink_result \<Rightarrow> bool" where
  "puts w bs res \<longleftrightarrow> (\<exists>st s'. res = Some (st, s')
     \<and> (if st = BENCODE_OK then accepts (w @ bs) s' else \<exists>p. prefix p bs \<and> failed (w @ p) st s'))"

lemma puts_cases:
  assumes "puts w bs res"
  obtains (accepted) s' where "res = Some (BENCODE_OK, s')" and "accepts (w @ bs) s'"
  | (stopped) st s' p where "res = Some (st, s')" and "st \<noteq> BENCODE_OK" and "prefix p bs" and "failed (w @ p) st s'"
  using assms unfolding puts_def by (metis (no_types, opaque_lifting))

lemma puts_okI: "res = Some (BENCODE_OK, s') \<Longrightarrow> accepts (w @ bs) s' \<Longrightarrow> puts w bs res"
  unfolding puts_def by auto

lemma puts_stopI:
  "res = Some (st, s') \<Longrightarrow> st \<noteq> BENCODE_OK \<Longrightarrow> prefix p bs \<Longrightarrow> failed (w @ p) st s' \<Longrightarrow> puts w bs res"
  unfolding puts_def by auto

text \<open>One after the other.\<close>

lemma puts_seq:
  assumes "puts w bs res" and "\<And>s'. res = Some (BENCODE_OK, s') \<Longrightarrow> accepts (w @ bs) s' \<Longrightarrow> puts (w @ bs) cs (next1 s')"
  shows "puts w (bs @ cs) (do { (st, s1) \<leftarrow> res; if st \<noteq> BENCODE_OK then Some (st, s1) else next1 s1 })"
  using assms(1)
proof (cases rule: puts_cases)
  case (accepted s')
  from assms(2) [OF accepted] show ?thesis
  proof (cases rule: puts_cases)
    case (accepted s2)
    then show ?thesis using \<open>res = _\<close> by (intro puts_okI [of _ s2]) simp_all
  next
    case (stopped st s2 p)
    then show ?thesis using \<open>res = _\<close> by (intro puts_stopI [of _ st s2 "bs @ p"]) simp_all
  qed
next
  case (stopped st s' p)
  then show ?thesis by (intro puts_stopI [of _ st s' p]) (simp_all add: prefix_prefix)
qed

lemma puts_bytes: "accepts w s \<Longrightarrow> length bs \<le> SIZE_MAX \<Longrightarrow> puts w bs (emit_bytes emit bs s)"
proof (cases "bs = []")
  case False
  assume "accepts w s" and "length bs \<le> SIZE_MAX"
  from emit_step [OF this(1) False this(2)] show ?thesis using False unfolding puts_def emit_bytes_def
    by (metis length_0_conv prefix_order.order_refl)
qed (simp add: puts_def emit_bytes_def)

lemma accepts_holds: "holds m0 t \<Longrightarrow> accepts w s \<Longrightarrow> holds (snd s) t"
  using accepts_moves holds_moves by fastforce

lemma puts_string:
  assumes "accepts w s" and "length bs \<le> SIZE_MAX"
    and "\<And>w s. accepts w s \<Longrightarrow> read_bytes ptr (length bs) (snd s) = Some bs"
  shows "puts w (encode (BStr bs)) (emit_string emit ptr (length bs) s)"
proof -
  have small: "length (print_header (length bs)) < BUF_SIZE"
    using print_header_fits [OF assms(2)] by (simp add: BUF_SIZE_def)
  then have "length (print_header (length bs)) \<le> SIZE_MAX" by (simp add: BUF_SIZE_def SIZE_MAX_def)
  then have "puts w (print_header (length bs)) (emit_bytes emit (print_header (length bs)) s)"
    by (rule puts_bytes [OF assms(1)])
  from puts_seq [OF this, of bs "\<lambda>s1. do { bs \<leftarrow> read_bytes ptr (length bs) (snd s1); emit_bytes emit bs s1 }"]
  show ?thesis using small assms(2,3) puts_bytes
    by (simp add: emit_string_def encode_string del: encode.simps)
qed

lemma puts_loop:
  assumes "accepts w s" and "\<And>i w s. i < n \<Longrightarrow> accepts w s \<Longrightarrow> puts w (chunk i) (body i s)"
  shows "puts w (concat (map chunk [0..<n])) (for_ok body 0 n s)"
proof -
  have "\<exists>st s'. for_ok body 0 n s = Some (st, s')
      \<and> (st = BENCODE_OK \<longrightarrow> accepts (w @ concat (map chunk [0..<0 + n])) s')
      \<and> (st \<noteq> BENCODE_OK \<longrightarrow> (\<exists>p. prefix p (concat (map chunk [0..<n])) \<and> failed (w @ p) st s'))"
  proof (rule for_ok_invariant)
    show "accepts (w @ concat (map chunk [0..<0])) s" using assms(1) by simp
    fix i s1
    assume i: "i < 0 + n" and acc: "accepts (w @ concat (map chunk [0..<i])) s1"
    have pre: "prefix (concat (map chunk [0..<i]) @ p) (concat (map chunk [0..<n]))" if p: "prefix p (chunk i)" for p
    proof -
      have "[0..<n] = [0..<i] @ i # [Suc i..<n]" 
        using i upt_add_eq_append [of 0 i "n - i"] upt_conv_Cons [of i n] by simp
      then show ?thesis using p by (simp add: prefix_prefix)
    qed
    from i have "i < n" by simp
    from assms(2) [OF this acc]
    show "\<exists>st s'. body i s1 = Some (st, s')
        \<and> (st = BENCODE_OK \<longrightarrow> accepts (w @ concat (map chunk [0..<Suc i])) s')
        \<and> (st \<noteq> BENCODE_OK \<longrightarrow> (\<exists>p. prefix p (concat (map chunk [0..<n])) \<and> failed (w @ p) st s'))"
    proof (cases rule: puts_cases)
      case (stopped st s' p)
      then show ?thesis using pre [of p]
        by (intro exI [of _ st] exI [of _ s'] conjI impI exI [of _ "concat (map chunk [0..<i]) @ p"]) simp_all
    qed simp
  qed
  then obtain st s' where r: "for_ok body 0 n s = Some (st, s')"
    "st = BENCODE_OK \<Longrightarrow> accepts (w @ concat (map chunk [0..<n])) s'"
    "st \<noteq> BENCODE_OK \<Longrightarrow> \<exists>p. prefix p (concat (map chunk [0..<n])) \<and> failed (w @ p) st s'" by auto
  show ?thesis
  proof (cases "st = BENCODE_OK")
    case True
    show ?thesis by (rule puts_okI [OF r(1) [unfolded True] r(2) [OF True]])
  next
    case False
    then show ?thesis using r(3) puts_stopI [OF r(1) False] by blast
  qed
qed

section \<open>The emitter\<close>

lemma puts_container:
  assumes "accepts w s" and "\<And>w s. accepts w s \<Longrightarrow> puts w body_text (body s)"
  shows "puts w ([b] @ body_text @ [e]) (do {
     (st, s1) \<leftarrow> emit_bytes emit [b] s;
     if st \<noteq> BENCODE_OK then Some (st, s1)
     else do { (st, s2) \<leftarrow> body s1; if st \<noteq> BENCODE_OK then Some (st, s2) else emit_bytes emit [e] s2 }
   })"
proof -
  have one: "length [c] \<le> SIZE_MAX" for c :: byte by (simp add: SIZE_MAX_def)
  have "puts (w @ [b]) (body_text @ [e])
      (do { (st, s2) \<leftarrow> body s1; if st \<noteq> BENCODE_OK then Some (st, s2) else emit_bytes emit [e] s2 })"
    if "accepts (w @ [b]) s1" for s1
    by (rule puts_seq [OF assms(2) [OF that]]) (rule puts_bytes [OF _ one])
  then show ?thesis by (intro puts_seq [OF puts_bytes [OF assms(1) one]])
qed

text \<open>A container, given that \<open>child\<close> writes the elements.\<close>

lemma emit_list_puts:
  assumes t: "holds m0 (GList a al arr cap ts)"
    and child: "\<And>t w s. t \<in> set ts \<Longrightarrow> accepts w s \<Longrightarrow> puts w (encode (tree_val t)) (child (root t) s)"
    and "accepts w s"
  shows "puts w (encode_items (map tree_val ts)) (for_ok (emit_item child arr) 0 (length ts) s)"
proof -
  have "puts w (encode (tree_val (ts ! i))) (emit_item child arr i s)" if i: "i < length ts" and acc: "accepts w s" for i w s
  proof -
    have "array (snd s) al arr cap sizeof_item (map Item (map root ts))"
      using accepts_holds [OF t acc] by (simp add: list_shell_def)
    then have "read_item arr i (snd s) = Some (root (ts ! i))"
      using read_item_array [of _ _ _ _ "map root ts" i] i by simp
    then show ?thesis using child [OF nth_mem [OF i] acc] by (simp add: emit_item_def)
  qed
  moreover have "map (\<lambda>i. encode (tree_val (ts ! i))) [0..<length ts] = map (\<lambda>t. encode (tree_val t)) ts"
    by (rule map_upt_eqI) simp_all
  then have "encode_items (map tree_val ts) = concat (map (\<lambda>i. encode (tree_val (ts ! i))) [0..<length ts])"
    by (simp add: comp_def)
  ultimately show ?thesis using puts_loop [OF assms(3)] by simp
qed

lemma emit_entry_puts:
  assumes t: "holds m0 (GDict a al arr cap es)" and i: "i < length es" "es ! i = (ka, k, u)" and acc: "accepts w s"
    and child: "\<And>w s. accepts w s \<Longrightarrow> puts w (encode (tree_val u)) (child (root u) s)"
  shows "puts w (encode (BStr k) @ encode (tree_val u)) (emit_entry emit child arr i s)"
proof -
  have ins: "(ka, k, u) \<in> set es" using i nth_mem by metis
  have shell: "dict_shell (snd s) a al arr cap (shell_entries es)" if "accepts w s" for w s
    using accepts_holds [OF t that] by simp
  then have key: "key_at (snd s) al ka k" if "accepts w s" for w s
    using that ins by (fastforce simp: dict_shell_def)
  have rd: "read_entry arr i (snd s) = Some \<lparr>ekey = ka, ekey_len = length k, evalue = root u\<rparr>"
    using read_entry_array [of "snd s" al arr cap "shell_entries es" i] shell [OF acc] i
    by (simp only: dict_shell_def) simp
  have "length k \<le> SIZE_MAX" using key [OF acc] by (simp add: key_at_def)
  then have "puts w (encode (BStr k)) (emit_string emit (key_ptr ka) (length k) s)"
    by (rule puts_string [OF acc]) (rule read_key, rule key)
  then have "puts w (encode (BStr k) @ encode (tree_val u)) (do {
      (st, s1) \<leftarrow> emit_string emit (key_ptr ka) (length k) s;
      if st \<noteq> BENCODE_OK then Some (st, s1) else child (root u) s1 })"
    by (rule puts_seq) (rule child)
  then show ?thesis using rd by (simp add: emit_entry_def cong: if_cong)
qed

lemma emit_dict_puts:
  assumes t: "holds m0 (GDict a al arr cap es)"
    and child: "\<And>ka k u w s. (ka, k, u) \<in> set es \<Longrightarrow> accepts w s \<Longrightarrow> puts w (encode (tree_val u)) (child (root u) s)"
    and "accepts w s"
  shows "puts w (encode_entries (entry_vals es)) (for_ok (emit_entry emit child arr) 0 (length es) s)"
proof -
  let ?text = "\<lambda>i. case es ! i of (ka, k, t) \<Rightarrow> encode (BStr k) @ encode (tree_val t)"
  have "puts w (?text i) (emit_entry emit child arr i s)" if i: "i < length es" and acc: "accepts w s" for i w s
  proof -
    obtain ka k u where e: "es ! i = (ka, k, u)" by (cases "es ! i")
    then have "(ka, k, u) \<in> set es" using i nth_mem by metis
    then show ?thesis unfolding e prod.case by (intro emit_entry_puts [OF t i e acc] child)
  qed
  moreover have "map ?text [0..<length es] = map (\<lambda>(ka, k, t). enc_str k @ encode (tree_val t)) es"
    by (rule map_upt_eqI) (simp_all split: prod.splits)
  then have "encode_entries (entry_vals es) = concat (map ?text [0..<length es])"
    by (simp add: comp_def case_prod_unfold)
  ultimately show ?thesis using puts_loop [OF assms(3)] by simp
qed

lemma emit_value_spec:
  assumes "holds m0 t" and "height t \<le> n" and "accepts w s"
  shows "puts w (encode (tree_val t)) (emit_value n emit (root t) s)"
  using assms
proof (induction n arbitrary: t w s)
  case 0
  then show ?case by (cases t) simp_all
next
  case (Suc n)
  have h: "holds (snd s) t" using accepts_holds Suc.prems(1,3) by blast
  have ints: "length (print_int i) \<le> SIZE_MAX" "length (print_int i) < BUF_SIZE" for i
    using print_int_fits [of i] by (simp_all add: SIZE_MAX_def BUF_SIZE_def)
  show ?case
  proof (cases t)
    case (GInt a al i)
    then show ?thesis using h puts_bytes [OF Suc.prems(3) ints(1), of i] ints(2) [of i]
      by (simp add: read_node_def emit_int_def print_int_encode)
  next
    case (GOwned a al b bs)
    have "read_bytes (BAt b 0) (length bs) (snd s) = Some bs" if "accepts w s" for w s
      using accepts_holds [OF Suc.prems(1) that] GOwned by (simp add: read_bytes_def slice_def)
    then show ?thesis using h GOwned puts_string [OF Suc.prems(3), of bs "BAt b 0"]
      by (simp add: read_node_def)
  next
    case (GBorrow a al ptr bs)
    have "read_bytes ptr (length bs) (snd s) = Some bs" if "accepts w s" for w s
      using accepts_holds [OF Suc.prems(1) that] GBorrow read_borrowed by simp
    then show ?thesis using h GBorrow puts_string [OF Suc.prems(3), of bs ptr]
      by (simp add: read_node_def)
  next
    case (GList a al arr cap ts)
    have "read_node (snd s) a = Some \<lparr>valloc = al, payload = List_payload arr (length ts) cap\<rparr>"
      using h GList by (simp add: list_shell_def read_node_def)
    moreover have "puts w (encode (tree_val t')) (emit_value n emit (root t') s)"
      if "t' \<in> set ts" and "accepts w s" for t' w s
      using Suc.IH [OF _ _ that(2), of t'] Suc.prems(1,2) list_children(1) [OF that(1), of a al arr cap] that(1)
      by (simp add: GList del: height.simps)
    ultimately show ?thesis
      using puts_container [where b = 108 and e = 101, OF Suc.prems(3) emit_list_puts [OF Suc.prems(1) [unfolded GList]]] GList
      by (simp add: emit_list_def)
  next
    case (GDict a al arr cap es)
    have "read_node (snd s) a = Some \<lparr>valloc = al, payload = Dict_payload arr (length es) cap\<rparr>"
      using h GDict by (simp add: dict_shell_def read_node_def)
    moreover have "puts w (encode (tree_val u)) (emit_value n emit (root u) s)"
      if "(ka, k, u) \<in> set es" and "accepts w s" for ka k u w s
      using Suc.IH [OF _ _ that(2), of u] Suc.prems(1,2) dict_children(1) [OF that(1), of a al arr cap] that(1)
      by (auto simp add: GDict simp del: height.simps)
    ultimately show ?thesis
      using puts_container [where b = 100 and e = 101, OF Suc.prems(3) emit_dict_puts [OF Suc.prems(1) [unfolded GDict]]] GDict
      by (simp add: emit_dict_def)
  qed
qed

end

end
