(* ===== verification/Emit_Sinks.thy ===== *)
theory Emit_Sinks
  imports Emit_Spec Owned_Array
begin

text \<open>
  The sinks of the library as instances of \<open>byte_sink\<close>: a callback of the caller that does not touch the
  library's memory, a stream, and the growing buffer of \<open>bencode_emit_to_alloc\<close>.
\<close>

section \<open>The caller's callback\<close>

definition lift_sink :: "(byte list \<Rightarrow> 'u \<Rightarrow> (bencode_status \<times> 'u) option) \<Rightarrow> 'u bencode_emit_fn" where
  "lift_sink f bs = (\<lambda>(u, m). do { (st, u') \<leftarrow> f bs u; Some (st, u', m) })"

text \<open>Calling the callback with one chunk after the other, up to the first status other than OK.\<close>

primrec feed_chunks :: "(byte list \<Rightarrow> 'u \<Rightarrow> (bencode_status \<times> 'u) option) \<Rightarrow> byte list list \<Rightarrow> 'u
    \<Rightarrow> (bencode_status \<times> 'u) option" where
  "feed_chunks f [] u = Some (BENCODE_OK, u)"
| "feed_chunks f (c # cs) u = do {
     (st, u') \<leftarrow> f c u;
     if st \<noteq> BENCODE_OK then Some (st, u') else feed_chunks f cs u'
   }"

lemma feed_chunks_snoc:
  "feed_chunks f cs u = Some (BENCODE_OK, u1) \<Longrightarrow> f c u1 = Some (st, u2) \<Longrightarrow>
     feed_chunks f (cs @ [c]) u = Some (st, u2)"
proof (induction cs arbitrary: u)
  case (Cons d cs)
  then show ?case by (auto split: Option.bind_splits if_splits)
qed (cases "st = BENCODE_OK"; simp)

definition chunked :: "(byte list \<Rightarrow> 'u \<Rightarrow> (bencode_status \<times> 'u) option) \<Rightarrow> 'u \<Rightarrow> mem \<Rightarrow> byte list
    \<Rightarrow> bencode_status \<Rightarrow> 'u \<times> mem \<Rightarrow> bool" where
  "chunked f u0 m0 w st = (\<lambda>(u, m). m = m0
     \<and> (\<exists>cs. [] \<notin> set cs \<and> concat cs = w \<and> feed_chunks f cs u0 = Some (st, u)))"

text \<open>A callback that returns on every input.\<close>

definition returns :: "(byte list \<Rightarrow> 'u \<Rightarrow> (bencode_status \<times> 'u) option) \<Rightarrow> bool" where
  "returns f \<longleftrightarrow> (\<forall>bs u. f bs u \<noteq> None)"

lemma lift_sink_step:
  assumes "returns f" and "chunked f u0 m0 w BENCODE_OK s" and "bs \<noteq> []"
  shows "\<exists>st s'. lift_sink f bs s = Some (st, s') \<and> chunked f u0 m0 (w @ bs) st s'"
proof -
  obtain u where s: "s = (u, m0)" using assms(2) by (cases s) (auto simp: chunked_def)
  with assms(2) obtain cs where cs: "[] \<notin> set cs" "concat cs = w" "feed_chunks f cs u0 = Some (BENCODE_OK, u)"
    by (auto simp: chunked_def)
  obtain st u' where f: "f bs u = Some (st, u')" using assms(1) unfolding returns_def by fast
  have "chunked f u0 m0 (w @ bs) st (u', m0)"
    using cs assms(3) feed_chunks_snoc [OF cs(3) f] by (auto simp: chunked_def intro!: exI [of _ "cs @ [bs]"])
  then show ?thesis using s f by (simp add: lift_sink_def)
qed

interpretation callback: byte_sink m0 "lift_sink f"
    "\<lambda>w s. wf_mem m0 \<and> returns f \<and> chunked f u0 m0 w BENCODE_OK s"
    "\<lambda>w st s. chunked f u0 m0 w st s"
  for m0 :: mem and f :: "byte list \<Rightarrow> 'u \<Rightarrow> (bencode_status \<times> 'u) option" and u0 :: 'u
proof unfold_locales
  fix w :: "byte list" and s :: "'u \<times> mem" and bs :: "byte list"
  assume a: "wf_mem m0 \<and> returns f \<and> chunked f u0 m0 w BENCODE_OK s" and "bs \<noteq> []"
  with lift_sink_step [of f u0 m0 w s bs] obtain st s' where
    r: "lift_sink f bs s = Some (st, s')" "chunked f u0 m0 (w @ bs) st s'" by blast
  show "\<exists>st s'. lift_sink f bs s = Some (st, s')
      \<and> (if st = BENCODE_OK then wf_mem m0 \<and> returns f \<and> chunked f u0 m0 (w @ bs) BENCODE_OK s'
         else chunked f u0 m0 (w @ bs) st s')"
    using a r by (cases "st = BENCODE_OK") (auto simp del: split_paired_Ex)
next
  fix w :: "byte list" and s :: "'u \<times> mem"
  assume "wf_mem m0 \<and> returns f \<and> chunked f u0 m0 w BENCODE_OK s"
  then show "\<exists>F. moves m0 {} (snd s) F"
    using moves_refl [of m0 "{}"] by (auto simp: chunked_def)
qed

section \<open>Streams\<close>

definition reliable :: "file_stream \<Rightarrow> bool" where
  "reliable fp \<longleftrightarrow> (\<forall>n len. len \<le> fwrite_answers fp n len) \<and> (\<forall>n. fflush_answers fp n)"

definition same_stream :: "file_stream \<Rightarrow> file_stream \<Rightarrow> bool" where
  "same_stream fp0 fp \<longleftrightarrow> fwrite_answers fp = fwrite_answers fp0 \<and> fflush_answers fp = fflush_answers fp0"

definition file_accepts :: "mem \<Rightarrow> file_stream \<Rightarrow> byte list \<Rightarrow> file_stream \<times> mem \<Rightarrow> bool" where
  "file_accepts m0 fp0 w = (\<lambda>(fp, m). wf_mem m0 \<and> m = m0 \<and> same_stream fp0 fp \<and> written fp = written fp0 @ w)"

definition file_failed :: "mem \<Rightarrow> file_stream \<Rightarrow> byte list \<Rightarrow> bencode_status \<Rightarrow> file_stream \<times> mem \<Rightarrow> bool" where
  "file_failed m0 fp0 w st = (\<lambda>(fp, m). st = BENCODE_ERR_IO \<and> m = m0 \<and> \<not> reliable fp0
     \<and> (\<exists>p. prefix p w \<and> written fp = written fp0 @ p))"

interpretation stream: byte_sink m0 emit_to_file_cb "file_accepts m0 fp0" "file_failed m0 fp0"
  for m0 fp0
proof unfold_locales
  fix w bs :: "byte list" and s :: "file_stream \<times> mem"
  assume acc: "file_accepts m0 fp0 w s"
  then obtain fp where s: "s = (fp, m0)" and same: "same_stream fp0 fp" and w: "written fp = written fp0 @ w"
    and wf: "wf_mem m0"
    by (cases s) (auto simp: file_accepts_def)
  define n where "n = min (fwrite_answers fp (fcalls fp) (length bs)) (length bs)"
  let ?fp = "fp\<lparr>written := written fp @ take n bs, fcalls := fcalls fp + 1\<rparr>"
  have run: "emit_to_file_cb bs s = Some (if n \<noteq> length bs then BENCODE_ERR_IO else BENCODE_OK, ?fp, m0)"
    by (simp add: emit_to_file_cb_def fwrite_def s Let_def n_def)
  show "\<exists>st s'. emit_to_file_cb bs s = Some (st, s')
      \<and> (if st = BENCODE_OK then file_accepts m0 fp0 (w @ bs) s' else file_failed m0 fp0 (w @ bs) st s')"
  proof (cases "n = length bs")
    case True
    then have "file_accepts m0 fp0 (w @ bs) (?fp, m0)"
      using same w wf by (simp add: file_accepts_def same_stream_def)
    then show ?thesis using run True by simp
  next
    case False
    then have "\<not> length bs \<le> fwrite_answers fp0 (fcalls fp) (length bs)"
      using same by (simp add: same_stream_def n_def)
    then have "\<not> reliable fp0" unfolding reliable_def by blast
    moreover have "prefix (w @ take n bs) (w @ bs)" by (simp add: take_is_prefix)
    ultimately have "file_failed m0 fp0 (w @ bs) BENCODE_ERR_IO (?fp, m0)"
      using w by (auto simp: file_failed_def)
    then show ?thesis using run False by simp
  qed
next
  fix w s
  assume "file_accepts m0 fp0 w s"
  then show "\<exists>F. moves m0 {} (snd s) F"
    using moves_refl [of m0 "{}"] by (auto simp: file_accepts_def)
qed

section \<open>The growing buffer\<close>

lemma sz_sub_less: "used \<le> c \<Longrightarrow> sz_sub c used < len \<longleftrightarrow> c < used + len"
  by (auto simp: sz_sub_def)

lemma sink_double_eq:
  assumes "0 < c" and "used \<le> c" and "c \<le> SIZE_MAX"
  shows "sink_double c used len = double_until c (used + len)"
  using assms
proof (induction "used + len - c" arbitrary: c rule: less_induct)
  case less
  show ?case
  proof (cases "c < used + len \<and> \<not> c > SIZE_MAX div 2")
    case True
    then have le: "c * 2 \<le> SIZE_MAX" by linarith
    have "used + len - c * 2 < used + len - c" using True less.prems(1) by linarith
    from less.hyps [OF this] less.prems le
    have "sink_double (c * 2) used len = double_until (c * 2) (used + len)" by simp
    moreover have "sink_double c used len = sink_double (c * 2) used len"
      using True less.prems(2) le by (subst sink_double.simps) (simp add: sz_sub_less sz_id)
    moreover have "double_until c (used + len) = double_until (c * 2) (used + len)"
      using True le by (subst double_until.simps) (simp add: sz_id)
    ultimately show ?thesis by simp
  next
    case False
    then consider "\<not> c < used + len" | "c < used + len" "c > SIZE_MAX div 2" by blast
    then show ?thesis
    proof cases
      case 1
      have "sink_double c used len = Some (Some c)"
        using 1 less.prems(2) by (subst sink_double.simps) (simp add: sz_sub_less)
      moreover have "double_until c (used + len) = Some (Some c)"
        using 1 by (subst double_until.simps) simp
      ultimately show ?thesis by simp
    next
      case 2
      have "sink_double c used len = Some None"
        using 2 less.prems(2) by (subst sink_double.simps) (simp add: sz_sub_less)
      moreover have "double_until c (used + len) = Some None"
        using 2 by (subst double_until.simps) simp
      ultimately show ?thesis by simp
    qed
  qed
qed

text \<open>The block of the buffer: the bytes \<open>w\<close> so far, then room.\<close>

definition filled :: "mem \<Rightarrow> bencode_allocator option \<Rightarrow> addr \<Rightarrow> byte list \<Rightarrow> nat \<Rightarrow> bool" where
  "filled m al b w cap \<longleftrightarrow> (\<exists>blk rest. store m b = Some (pool_of al, blk)
     \<and> bytes_of blk = Some (map Some w @ rest) \<and> length w + length rest = cap)"

definition sink_accepts :: "mem \<Rightarrow> bencode_allocator option \<Rightarrow> byte list \<Rightarrow> alloc_sink \<times> mem \<Rightarrow> bool" where
  "sink_accepts m0 al w = (\<lambda>(s, m). alloc_ok al \<and> salloc s = al \<and> \<not> soom s \<and> slen s = length w
     \<and> scap s \<le> SIZE_MAX
     \<and> (case sbytes s of
          None \<Rightarrow> w = [] \<and> scap s = 0 \<and> moves m0 {} m {}
        | Some b \<Rightarrow> 0 < scap s \<and> moves m0 {} m {b} \<and> filled m al b w (scap s)))"

definition sink_failed :: "mem \<Rightarrow> bencode_allocator option \<Rightarrow> byte list \<Rightarrow> bencode_status \<Rightarrow> alloc_sink \<times> mem \<Rightarrow> bool" where
  "sink_failed m0 al w st = (\<lambda>(s, m). alloc_ok al \<and> st = BENCODE_ERR_NOMEM
     \<and> (granting m0 \<longrightarrow> SIZE_MAX div 2 < length w)
     \<and> (case sbytes s of
          None \<Rightarrow> moves m0 {} m {}
        | Some b \<Rightarrow> moves m0 {} m {b} \<and> (\<exists>blk. store m b = Some (pool_of al, blk))))"

lemma filled_length: "filled m al b w cap \<Longrightarrow> length w \<le> cap"
  by (auto simp: filled_def)

lemma filled_read: "filled m al b w cap \<Longrightarrow> read_bytes (BAt b 0) (length w) m = Some w"
proof -
  assume "filled m al b w cap"
  then obtain blk rest where "store m b = Some (pool_of al, blk)" "bytes_of blk = Some (map Some w @ rest)"
    by (auto simp: filled_def)
  then show ?thesis by (simp add: read_bytes_def slice_def)
qed

lemma filled_write:
  assumes "filled m al b w cap" and "length w + length bs \<le> cap" and "moves m0 {} m F" and "b \<in> F" and "alloc_ok al"
  obtains m' where "write_bytes b (length w) bs m = Some m'" and "filled m' al b (w @ bs) cap"
    and "moves m0 {} m' F" and "\<And>a. a \<noteq> b \<Longrightarrow> store m' a = store m a"
proof -
  obtain blk rest where b: "store m b = Some (pool_of al, blk)" "bytes_of blk = Some (map Some w @ rest)"
    "length w + length rest = cap" using assms(1) by (auto simp: filled_def)
  let ?m' = "put_block b (pool_of al, Bytes (map Some w @ map Some bs @ drop (length bs) rest)) m"
  show thesis
  proof (rule that [of ?m'])
    show "write_bytes b (length w) bs m = Some ?m'" using b assms(2) by (simp add: write_bytes_def)
    show "filled ?m' al b (w @ bs) cap" using b(3) assms(2) by (auto simp: filled_def)
    show "moves m0 {} ?m' F" by (rule moves_put_fresh [OF assms(3,4) b(1) alloc_ok_pool [OF assms(5)]])
  qed simp
qed

lemma sink_failedI:
  assumes "sink_accepts m0 al w (s, m)" and "moves m {} m' {}" and "sbytes s' = sbytes s"
    and "granting m0 \<longrightarrow> SIZE_MAX div 2 < length w'"
  shows "sink_failed m0 al w' BENCODE_ERR_NOMEM (s', m')"
proof (cases "sbytes s")
  case None
  then have mv: "moves m0 {} m {}" using assms(1) by (simp add: sink_accepts_def)
  show ?thesis using assms(1,3,4) None moves_trans [OF mv assms(2)] by (simp add: sink_accepts_def sink_failed_def)
next
  case (Some b)
  then have mv: "moves m0 {} m {b}" and f: "filled m al b w (scap s)"
    using assms(1) by (simp_all add: sink_accepts_def)
  have "moves m0 {} m' {b}" using moves_step [OF mv assms(2)] by simp
  moreover have "store m' b = store m b" using moves_kept [OF assms(2) movesD(4) [OF mv]] by simp
  moreover obtain blk where "store m b = Some (pool_of al, blk)" using f by (auto simp: filled_def)
  ultimately show ?thesis using assms(1,3,4) Some by (simp add: sink_accepts_def sink_failed_def)
qed


lemma sink_move_spec:
  assumes acc: "sink_accepts m0 al w (s, m)" and new: "moves m {} m1 {fresh}" "store m1 fresh = Some (pool_of al, Raw k)"
    and k: "length w \<le> k" "0 < k" "k \<le> SIZE_MAX"
  obtains m2 where "sink_move al (sbytes s) (length w) fresh m1 = Some m2"
    and "sink_accepts m0 al w (s\<lparr>sbytes := Some fresh, scap := k\<rparr>, m2)"
proof -
  have al: "alloc_ok al" using acc by (simp add: sink_accepts_def)
  have empty: "filled m1 al fresh [] k" using new(2) by (simp add: filled_def)
  show thesis
  proof (cases "sbytes s")
    case None
    then have w: "w = []" and mv: "moves m0 {} m {}" using acc by (simp_all add: sink_accepts_def)
    have "sink_accepts m0 al w (s\<lparr>sbytes := Some fresh, scap := k\<rparr>, m1)"
      using acc empty k moves_trans [OF mv new(1)] w by (simp add: sink_accepts_def)
    then show thesis using that None by (simp add: sink_move_def)
  next
    case (Some b)
    then have mv: "moves m0 {} m {b}" and f: "filled m al b w (scap s)"
      using acc by (simp_all add: sink_accepts_def)
    have below: "{b} \<subseteq> {..<next_addr m}" by (rule movesD(4) [OF mv])
    have ne: "fresh \<noteq> b" using moves_apart [OF new(1) below] by simp
    have sb: "store m1 b = store m b" using moves_kept [OF new(1) below] by simp
    then have f1: "filled m1 al b w (scap s)" using f by (simp add: filled_def)
    have mv1: "moves m0 {} m1 {fresh, b}" using moves_step [OF mv new(1)] by (simp add: insert_commute)
    obtain m2 where wr: "write_bytes fresh 0 w m1 = Some m2" and f2: "filled m2 al fresh w k"
      and mv2: "moves m0 {} m2 {fresh, b}" and kept: "\<And>a. a \<noteq> fresh \<Longrightarrow> store m2 a = store m1 a"
      by (rule filled_write [OF empty, of w, simplified]) (use k(1) mv1 al in auto)
    obtain blk where "store m2 b = Some (pool_of al, blk)" using f1 kept ne by (auto simp: filled_def)
    from free_to_moves [OF movesD(2) [OF mv2] this alloc_ok_pool [OF al]] obtain m3 where
      fr: "free_to (pool_of al) b m2 = Some m3" and mv3: "moves m2 {b} m3 {}" .
    have "{} \<union> ({fresh, b} - {b}) = {fresh}" using ne by auto
    then have mv4: "moves m0 {} m3 {fresh}" using moves_step [OF mv2 mv3] by simp
    have "store m3 fresh = store m2 fresh"
      using moves_kept [OF mv3, of "{fresh}" fresh] movesD(4) [OF mv2] ne by simp
    then have f3: "filled m3 al fresh w k" using f2 by (simp add: filled_def)
    show thesis
    proof (rule that)
      show "sink_move al (sbytes s) (length w) fresh m1 = Some m3"
        using Some filled_read [OF f1] wr fr al by (simp add: sink_move_def bencode_free_pool)
      show "sink_accepts m0 al w (s\<lparr>sbytes := Some fresh, scap := k\<rparr>, m3)"
        using acc f3 k mv4 by (simp add: sink_accepts_def)
    qed
  qed
qed

lemma sink_grow_cases:
  assumes acc: "sink_accepts m0 al w (s, m)" and len: "0 < len"
  obtains (room) s1 m1 b where "sink_grow len (s, m) = Some (BENCODE_OK, s1, m1)"
      and "sink_accepts m0 al w (s1, m1)" and "sbytes s1 = Some b" and "length w + len \<le> scap s1"
  | (nomem) s1 m1 where "sink_grow len (s, m) = Some (BENCODE_ERR_NOMEM, s1, m1)"
      and "moves m {} m1 {}" and "sbytes s1 = sbytes s" and "granting m0 \<longrightarrow> SIZE_MAX div 2 < length w + len"
proof -
  have al: "alloc_ok al" "salloc s = al" and n: "slen s = length w" and cap: "scap s \<le> SIZE_MAX"
    using acc by (simp_all add: sink_accepts_def)
  have used: "length w \<le> scap s"
    using acc filled_length by (auto simp: sink_accepts_def split: option.splits)
  have wf: "wf_mem m" and gr: "granting m = granting m0"
    using acc movesD(2) moves_granting by (fastforce simp: sink_accepts_def split: option.splits)+
  show thesis
  proof (cases "scap s < length w + len")
    case False
    then have "sink_grow len (s, m) = Some (BENCODE_OK, s, m)"
      using n used by (simp add: sink_grow_def sz_sub_less)
    moreover obtain b where "sbytes s = Some b"
      using False acc len by (auto simp: sink_accepts_def split: option.splits)
    ultimately show thesis using room acc False by simp
  next
    case True
    let ?c = "if scap s = 0 then 4096 else scap s"
    have "0 < ?c" "length w \<le> ?c" "?c \<le> SIZE_MAX" using used cap by (auto simp: SIZE_MAX_def)
    from sink_double_eq [OF this, of len] double_until_spec [OF this(1,3), of "length w + len"] obtain r where
      r: "sink_double ?c (length w) len = Some r" and bound: "case r of None \<Rightarrow> SIZE_MAX div 2 < length w + len
         | Some k \<Rightarrow> length w + len \<le> k \<and> ?c \<le> k \<and> k \<le> max ?c (2 * (length w + len)) \<and> k \<le> SIZE_MAX" by auto
    have go: "sink_grow len (s, m) = (case r of
          None \<Rightarrow> Some (BENCODE_ERR_NOMEM, s\<lparr>soom := True\<rparr>, m)
        | Some k \<Rightarrow> (case bencode_alloc al k m of
               (None, m1) \<Rightarrow> Some (BENCODE_ERR_NOMEM, s\<lparr>soom := True\<rparr>, m1)
             | (Some fresh, m1) \<Rightarrow> do {
                 m3 \<leftarrow> sink_move al (sbytes s) (length w) fresh m1;
                 Some (BENCODE_OK, s\<lparr>sbytes := Some fresh, scap := k\<rparr>, m3) }))"
      using True n used r al by (simp add: sink_grow_def sz_sub_less split: option.split prod.split)
    show thesis
    proof (cases r)
      case None
      then show thesis using nomem [of "s\<lparr>soom := True\<rparr>" m] go bound moves_refl [OF wf, of "{}"] by simp
    next
      case (Some k)
      have k: "length w + len \<le> k" "length w \<le> k" "0 < k" "k \<le> SIZE_MAX" using bound Some len by auto
      from wf show thesis
      proof (cases rule: alloc_from_cases [where p = "pool_of al" and nbytes = k])
        case (refused m1)
        then show thesis using nomem [of "s\<lparr>soom := True\<rparr>" m1] go Some gr by (simp add: bencode_alloc_pool)
      next
        case (granted fresh m1)
        obtain m2 where m2: "sink_move al (sbytes s) (length w) fresh m1 = Some m2"
          "sink_accepts m0 al w (s\<lparr>sbytes := Some fresh, scap := k\<rparr>, m2)"
          by (rule sink_move_spec [OF acc granted(2,3) k(2-4)])
        have "sink_grow len (s, m) = Some (BENCODE_OK, s\<lparr>sbytes := Some fresh, scap := k\<rparr>, m2)"
          using m2(1) by (simp add: go Some bencode_alloc_pool granted(1))
        then show thesis using room m2(2) k(1) by simp
      qed
    qed
  qed
qed

interpretation buffer: byte_sink m0 alloc_sink_append "sink_accepts m0 al" "sink_failed m0 al" for m0 al
proof unfold_locales
  fix w bs :: "byte list" and u :: "alloc_sink \<times> mem"
  assume acc: "sink_accepts m0 al w u" and ne: "bs \<noteq> []"
  obtain s m where u: "u = (s, m)" by (cases u)
  have oom: "\<not> soom s" using acc u by (simp add: sink_accepts_def)
  have len: "0 < length bs" using ne by simp
  from acc [unfolded u] len
  show "\<exists>st u'. alloc_sink_append bs u = Some (st, u')
      \<and> (if st = BENCODE_OK then sink_accepts m0 al (w @ bs) u' else sink_failed m0 al (w @ bs) st u')"
  proof (cases rule: sink_grow_cases)
    case (nomem s1 m1)
    have "sink_failed m0 al (w @ bs) BENCODE_ERR_NOMEM (s1, m1)"
      using sink_failedI [OF acc [unfolded u] nomem(2,3)] nomem(4) by simp
    then show ?thesis using nomem(1) oom u by (simp add: alloc_sink_append_def)
  next
    case (room s1 m1 b)
    have al: "alloc_ok al" and n: "slen s1 = length w" and cap: "scap s1 \<le> SIZE_MAX"
      and mv: "moves m0 {} m1 {b}" and f: "filled m1 al b w (scap s1)"
      using room(2,3) by (simp_all add: sink_accepts_def)
    obtain m2 where wr: "write_bytes b (length w) bs m1 = Some m2" and f2: "filled m2 al b (w @ bs) (scap s1)"
      and mv2: "moves m0 {} m2 {b}"
      by (rule filled_write [OF f room(4) mv _ al]) simp
    have "sz (slen s1 + length bs) = length (w @ bs)" using n room(4) cap by (simp add: sz_id)
    then have "alloc_sink_append bs u = Some (BENCODE_OK, s1\<lparr>slen := length (w @ bs)\<rparr>, m2)"
      using room(1,3) oom u n wr by (simp add: alloc_sink_append_def)
    moreover have "sink_accepts m0 al (w @ bs) (s1\<lparr>slen := length (w @ bs)\<rparr>, m2)"
      using room(2,3) f2 mv2 by (simp add: sink_accepts_def)
    ultimately show ?thesis by simp
  qed
next
  fix w :: "byte list" and u :: "alloc_sink \<times> mem"
  assume "sink_accepts m0 al w u"
  then show "\<exists>F. moves m0 {} (snd u) F"
    by (cases u) (auto simp: sink_accepts_def split: option.splits)
qed

end
