(* ===== verification/Emit_Props.thy ===== *)
theory Emit_Props
  imports Emit_Sinks Value_Props Dom_Props
begin

text \<open>
  The contract of \<open>src/emit.c\<close>: every sink receives the canonical encoding of the value, what is emitted can
  be parsed back, and what is parsed is emitted as it was.
\<close>

section \<open>Trees are canonical values\<close>

lemma tree_canonical: "holds m t \<Longrightarrow> canonical (height t) (tree_val t)"
proof (induction m t rule: holds.induct)
  case (1 m a al i)
  then show ?case using sint_int64_bounds [of i] by simp
next
  case (4 m a al arr cap ts)
  have "canonical (Max (insert 0 (set (map height ts)))) (tree_val t)" if t: "t \<in> set ts" for t
  proof (rule canonical_mono)
    show "canonical (height t) (tree_val t)" using "4.IH" [OF t] "4.prems" t by simp
    show "height t \<le> Max (insert 0 (set (map height ts)))" using list_children(1) [OF t] by simp
  qed
  then show ?case by simp
next
  case (5 m a al arr cap es)
  have sh: "dict_shell m a al arr cap (shell_entries es)" and hs: "\<forall>(ka, k, t)\<in>set es. holds m t"
    and sorted: "sorted_wrt (<) (map (\<lambda>(ka, k, t). k) es)" using "5.prems" by simp_all
  have "length k \<le> SIZE_MAX \<and> canonical (Max (insert 0 (set (map (\<lambda>(ka, k, t). height t) es)))) (tree_val t)"
    if e: "(ka, k, t) \<in> set es" for ka k t
  proof
    show "length k \<le> SIZE_MAX" using sh e by (fastforce simp: dict_shell_def key_at_def)
    have "canonical (height t) (tree_val t)" using "5.IH" [OF e refl refl] hs e by auto
    moreover have "height t \<le> Max (insert 0 (set (map (\<lambda>(ka, k, t). height t) es)))"
      using dict_children(1) [OF e] by simp
    ultimately show "canonical (Max (insert 0 (set (map (\<lambda>(ka, k, t). height t) es)))) (tree_val t)"
      by (rule canonical_mono)
  qed
  then show ?case using sorted by (auto simp: comp_def case_prod_unfold)
qed simp_all

section \<open>Runs of the emitter\<close>

lemma emit_depth_enough: "wf_mem m \<Longrightarrow> owned m t \<Longrightarrow> height t \<le> emit_depth m"
  using height_below by (fastforce simp: emit_depth_def)

lemma emit_to_file_run:
  assumes "wf_mem m" and "owned m t"
  obtains (all) fp1 where "emit_value (emit_depth m) emit_to_file_cb (root t) (fp, m) = Some (BENCODE_OK, fp1, m)"
      and "same_stream fp fp1" and "written fp1 = written fp @ encode (tree_val t)"
  | (part) fp1 p where "emit_value (emit_depth m) emit_to_file_cb (root t) (fp, m) = Some (BENCODE_ERR_IO, fp1, m)"
      and "\<not> reliable fp" and "written fp1 = written fp @ p" and "prefix p (encode (tree_val t))"
proof -
  have "holds m t" using assms(2) by (simp add: owned_def)
  moreover have "file_accepts m fp [] (fp, m)" using assms(1) by (simp add: file_accepts_def same_stream_def)
  ultimately have "stream.puts m fp [] (encode (tree_val t)) (emit_value (emit_depth m) emit_to_file_cb (root t) (fp, m))"
    using stream.emit_value_spec emit_depth_enough [OF assms] by blast
  then show thesis
  proof (cases rule: stream.puts_cases)
    case (accepted s')
    then show thesis using all by (cases s') (simp add: file_accepts_def)
  next
    case (stopped st s' p)
    then obtain fp1 q where "s' = (fp1, m)" "st = BENCODE_ERR_IO" "\<not> reliable fp" "prefix q p" "written fp1 = written fp @ q"
      by (cases s') (auto simp: file_failed_def)
    then show thesis using part stopped(1,3) prefix_order.trans by blast
  qed
qed

lemma emit_to_alloc_cases:
  assumes "wf_mem m" and "owned m t" and "alloc_ok al"
  obtains (emitted) b m1 cap where "bencode_emit_to_alloc (Some (root t)) al True True m
        = Some (BENCODE_OK, Some b, length (encode (tree_val t)), m1)"
      and "filled m1 al b (encode (tree_val t)) cap" and "moves m {} m1 {b}"
  | (nomem) m1 where "bencode_emit_to_alloc (Some (root t)) al True True m = Some (BENCODE_ERR_NOMEM, None, 0, m1)"
      and "moves m {} m1 {}" and "granting m \<longrightarrow> SIZE_MAX div 2 < length (encode (tree_val t))"
proof -
  let ?run = "emit_value (emit_depth m) alloc_sink_append (root t) (init_sink al, m)"
  have go: "bencode_emit_to_alloc (Some (root t)) al True True m = do {
      (st, s, m1) \<leftarrow> ?run;
      if st \<noteq> BENCODE_OK then do { m2 \<leftarrow> bencode_free al (sbytes s) m1; Some (st, None, 0, m2) }
      else Some (BENCODE_OK, sbytes s, slen s, m1)
    }" using assms(3) by (simp add: bencode_emit_to_alloc_def)
  have "holds m t" using assms(2) by (simp add: owned_def)
  moreover have "sink_accepts m al [] (init_sink al, m)"
    using assms(3) moves_refl [OF assms(1), of "{}"] by (simp add: sink_accepts_def init_sink_def)
  ultimately have "buffer.puts m al [] (encode (tree_val t)) ?run"
    using buffer.emit_value_spec emit_depth_enough [OF assms(1,2)] by blast
  then show thesis
  proof (cases rule: buffer.puts_cases)
    case (accepted s')
    then obtain s m1 b where "s' = (s, m1)" "sbytes s = Some b" "slen s = length (encode (tree_val t))"
      "moves m {} m1 {b}" "filled m1 al b (encode (tree_val t)) (scap s)"
      by (cases s') (auto simp: sink_accepts_def split: option.splits)
    then show thesis using emitted accepted(1) go by simp
  next
    case (stopped st s' p)
    then obtain s m1 where s': "s' = (s, m1)" and st: "st = BENCODE_ERR_NOMEM"
      and gr: "granting m \<longrightarrow> SIZE_MAX div 2 < length p"
      and own: "case sbytes s of None \<Rightarrow> moves m {} m1 {}
        | Some b \<Rightarrow> moves m {} m1 {b} \<and> (\<exists>blk. store m1 b = Some (pool_of al, blk))"
      by (cases s') (auto simp: sink_failed_def)
    have mv: "moves m {} m1 (set (opt (sbytes s)))" using own by (cases "sbytes s") simp_all
    have "\<exists>blk. store m1 b = Some (pool_of al, blk)" if "sbytes s = Some b" for b using own that by simp
    from bencode_free_moves [OF movesD(2) [OF mv] assms(3) this] obtain m2 where
      "bencode_free al (sbytes s) m1 = Some m2" "moves m1 (set (opt (sbytes s))) m2 {}" by blast
    then have "bencode_emit_to_alloc (Some (root t)) al True True m = Some (BENCODE_ERR_NOMEM, None, 0, m2)"
      and "moves m {} m2 {}"
      using stopped(1) s' st moves_trans [OF mv] by (simp_all add: go)
    moreover have "length p \<le> length (encode (tree_val t))" using stopped(3) by (rule prefix_length_le)
    ultimately show thesis using nomem gr by fastforce
  qed
qed

section \<open>Properties\<close>

text \<open>C30: \<open>bencode_emit\<close> calls the callback with non-empty chunks that together are the canonical encoding of the
  value, in order; the first status other than \<open>BENCODE_OK\<close> that the callback returns ends the run and is
  returned.  The memory is not changed.\<close>

theorem emit_calls_callback:
  assumes "wf_mem m" and "owned m t" and "\<forall>bs u. f bs u \<noteq> None"
  shows "\<exists>st u' cs. bencode_emit (Some (root t)) (Some (lift_sink f)) (u, m) = Some (st, u', m)
    \<and> feed_chunks f cs u = Some (st, u') \<and> [] \<notin> set cs \<and> prefix (concat cs) (encode (tree_val t))
    \<and> (st = BENCODE_OK \<longrightarrow> concat cs = encode (tree_val t))"
proof -
  have "holds m t" using assms(2) by (simp add: owned_def)
  moreover have "wf_mem m \<and> returns f \<and> chunked f u m [] BENCODE_OK (u, m)"
    using assms(1,3) by (auto simp: returns_def chunked_def intro!: exI [of _ "[]"])
  ultimately have "callback.puts m f u [] (encode (tree_val t)) (emit_value (emit_depth m) (lift_sink f) (root t) (u, m))"
    by (intro callback.emit_value_spec emit_depth_enough assms(1,2))
  then show ?thesis
  proof (cases rule: callback.puts_cases)
    case (accepted s')
    then show ?thesis by (cases s') (auto simp: bencode_emit_def chunked_def)
  next
    case (stopped st s' p)
    then show ?thesis by (cases s') (auto simp: bencode_emit_def chunked_def)
  qed
qed

theorem emit_calls_callback_witness:
  "\<exists>st u' cs. bencode_emit (Some 1) (Some (lift_sink (\<lambda>bs n. Some (if n < 3 then BENCODE_OK else BENCODE_ERR_IO, n + 1 :: nat)))) (0, sample_mem)
      = Some (st, u', sample_mem)
    \<and> feed_chunks (\<lambda>bs n. Some (if n < 3 then BENCODE_OK else BENCODE_ERR_IO, n + 1 :: nat)) cs 0 = Some (st, u')"
  using emit_calls_callback [OF sample_wf sample_dict_owned,
      of "\<lambda>bs n. Some (if n < 3 then BENCODE_OK else BENCODE_ERR_IO, n + 1 :: nat)" 0]
  by (simp add: sample_dict_def) blast

text \<open>C31: \<open>bencode_emit_to_file\<close> appends to the stream the canonical encoding of the value when it returns
  \<open>BENCODE_OK\<close>, and otherwise \<open>BENCODE_ERR_IO\<close> with a prefix of it; a stream that writes everything always
  gives \<open>BENCODE_OK\<close>.  The memory is not changed.\<close>

theorem emit_to_file_writes:
  assumes "wf_mem m" and "owned m t"
  shows "\<exists>st fp'. bencode_emit_to_file (Some (root t)) (Some fp) m = Some (st, Some fp', m)
    \<and> (if st = BENCODE_OK then written fp' = written fp @ encode (tree_val t)
       else st = BENCODE_ERR_IO \<and> \<not> reliable fp
         \<and> (\<exists>p. prefix p (encode (tree_val t)) \<and> written fp' = written fp @ p))"
  using assms
proof (cases rule: emit_to_file_run [where fp = fp])
  case (all fp1)
  then show ?thesis
    by (cases "fflush_answers fp1 (fcalls fp1)")
      (auto simp: bencode_emit_to_file_def fflush_def reliable_def same_stream_def)
next
  case (part fp1 p)
  then show ?thesis by (auto simp: bencode_emit_to_file_def)
qed

definition full_disk :: "nat \<Rightarrow> file_stream" where
  "full_disk n = \<lparr>written = [], fcalls = 0, fwrite_answers = (\<lambda>k len. if k < n then len else 0),
     fflush_answers = (\<lambda>k. True)\<rparr>"

theorem emit_to_file_writes_witness:
  "\<exists>st fp'. bencode_emit_to_file (Some 1) (Some (full_disk 2)) sample_mem = Some (st, Some fp', sample_mem)
    \<and> (if st = BENCODE_OK then written fp' = encode (tree_val sample_dict)
       else st = BENCODE_ERR_IO \<and> \<not> reliable (full_disk 2)
         \<and> (\<exists>p. prefix p (encode (tree_val sample_dict)) \<and> written fp' = p))"
proof -
  have "root sample_dict = 1" "written (full_disk 2) = []" by (simp_all add: sample_dict_def full_disk_def)
  with emit_to_file_writes [OF sample_wf sample_dict_owned, of "full_disk 2"] show ?thesis
    by (simp only: append_Nil)
qed

text \<open>C28: \<open>bencode_emit_to_alloc\<close> returns a fresh block that holds the canonical encoding of the value, and its
  length; \<open>bencode_buffer_free\<close> with the same allocator gives it back.  Otherwise the status is
  \<open>BENCODE_ERR_NOMEM\<close>, the outputs are NULL and zero, and no block is left.\<close>

theorem emit_to_alloc_fills:
  assumes "wf_mem m" and "owned m t" and "alloc_ok al"
  shows "\<exists>st r n m'. bencode_emit_to_alloc (Some (root t)) al True True m = Some (st, r, n, m')
    \<and> (if st = BENCODE_OK
       then \<exists>b m2. r = Some b \<and> n = length (encode (tree_val t))
              \<and> read_bytes (BAt b 0) n m' = Some (encode (tree_val t)) \<and> moves m {} m' {b}
              \<and> bencode_buffer_free al r m' = Some m2 \<and> moves m {} m2 {}
       else st = BENCODE_ERR_NOMEM \<and> r = None \<and> n = 0 \<and> moves m {} m' {}
              \<and> (granting m \<longrightarrow> SIZE_MAX div 2 < length (encode (tree_val t))))"
  using assms
proof (cases rule: emit_to_alloc_cases)
  case (emitted b m1 cap)
  from filled_read [OF emitted(2)] obtain blk where blk: "store m1 b = Some (pool_of al, blk)"
    using emitted(2) by (auto simp: filled_def)
  from free_to_moves [OF movesD(2) [OF emitted(3)] blk alloc_ok_pool [OF assms(3)]] obtain m2 where
    "free_to (pool_of al) b m1 = Some m2" "moves m1 {b} m2 {}" .
  then have "bencode_buffer_free al (Some b) m1 = Some m2" "moves m {} m2 {}"
    using moves_trans [OF emitted(3)] assms(3) by (simp_all add: bencode_buffer_free_def bencode_free_pool)
  then show ?thesis using emitted filled_read [OF emitted(2)] by auto
next
  case (nomem m1)
  then show ?thesis by simp
qed

theorem emit_to_alloc_fills_witness:
  "\<exists>st r n m'. bencode_emit_to_alloc (Some 1) None True True sample_mem = Some (st, r, n, m')
    \<and> (st = BENCODE_OK \<longrightarrow> n = length (encode (tree_val sample_dict)))"
proof -
  have "root sample_dict = 1" by (simp add: sample_dict_def)
  with emit_to_alloc_fills [OF sample_wf sample_dict_owned alloc_ok_NULL] show ?thesis by (auto split: if_splits)
qed

text \<open>C16: parsing what was emitted gives a tree for the same value: when the bytes that
  \<open>bencode_emit_to_alloc\<close> produced for a tree no higher than the nesting limit are handed to \<open>bencode_parse\<close>
  (in any memory that has them), the parse succeeds unless memory runs out, and then the two trees stand
  for the same value and all bytes are consumed.\<close>

theorem emit_parse_roundtrip:
  assumes "wf_mem m" and "owned m t" and "alloc_ok al"
    and "bencode_emit_to_alloc (Some (root t)) al True True m = Some (BENCODE_OK, Some b, n, m1)"
    and "read_bytes (BAt b 0) n m1 = Some bytes"
    and "parse_ready opts input bytes m2" and "height t \<le> effective_depth (options_depth opts)"
  shows "\<exists>st r c m3. bencode_parse input n opts True m2 = Some (st, r, c, m3)
    \<and> (if st = BENCODE_OK then c = n \<and> (\<exists>t'. r = Some (root t') \<and> owned m3 t' \<and> tree_val t' = tree_val t)
       else st = BENCODE_ERR_NOMEM \<and> (granting m2 \<longrightarrow> 2 ^ 58 < n))"
proof -
  have "n = length (encode (tree_val t)) \<and> bytes = encode (tree_val t)"
    using assms(1-3)
  proof (cases rule: emit_to_alloc_cases)
    case (emitted b1 m1' cap)
    then show ?thesis using assms(4,5) filled_read [OF emitted(2)] by simp
  next
    case (nomem m1')
    then show ?thesis using assms(4) by simp
  qed
  then have n: "n = length bytes" and bytes: "bytes = encode (tree_val t)" by simp_all
  have "holds m t" using assms(2) by (simp add: owned_def)
  then have "parses_as opts bytes (tree_val t)"
    using canonical_mono [OF tree_canonical assms(7)] bytes by (simp add: parses_as_def)
  from assms(6) show ?thesis
  proof (cases rule: bencode_parse_cases)
    case (parsed v rest t' m')
    have "v = tree_val t" using parses_as_unique parsed(1) \<open>parses_as opts bytes (tree_val t)\<close> .
    then show ?thesis using parsed n bytes by auto
  next
    case (rejected st c m')
    then show ?thesis using \<open>parses_as opts bytes (tree_val t)\<close> by blast
  next
    case (nomem c m')
    then show ?thesis using n by auto
  qed
qed

theorem emit_parse_roundtrip_witness:
  "\<exists>b m1. bencode_emit_to_alloc (Some 8) None True True sample_mem = Some (BENCODE_OK, Some b, 2, m1)
    \<and> (\<exists>t' c m3. bencode_parse (BAt 0 0) 2 None True (buffer_mem [108, 101]) = Some (BENCODE_OK, Some (root t'), c, m3)
         \<and> owned m3 t' \<and> tree_val t' = BList [])"
proof -
  have l: "root sample_list = 8" "tree_val sample_list = BList []" "height sample_list = 1"
    "encode (BList []) = [108, 101]" by (simp_all add: sample_list_def)
  obtain b m1 where run: "bencode_emit_to_alloc (Some 8) None True True sample_mem = Some (BENCODE_OK, Some b, 2, m1)"
    and bytes: "read_bytes (BAt b 0) 2 m1 = Some [108, 101]"
    using sample_wf sample_list_owned alloc_ok_NULL
  proof (cases rule: emit_to_alloc_cases)
    case (emitted b m1 cap)
    then show thesis using that filled_read [OF emitted(2)] l by (simp add: numeral_2_eq_2)
  next
    case (nomem m1)
    then show thesis using sample_granting l by (simp add: SIZE_MAX_def)
  qed
  have ready: "parse_ready None (BAt 0 0) [108, 101] (buffer_mem [108, 101])"
    by (rule buffer_ready) (simp_all add: options_allocator_def alloc_ok_NULL SIZE_MAX_def)
  have deep: "height sample_list \<le> effective_depth (options_depth None)"
    by (simp add: l options_depth_def effective_depth_def BENCODE_DEFAULT_MAX_DEPTH_def BENCODE_INTERNAL_MAX_DEPTH_def)
  from emit_parse_roundtrip [OF sample_wf sample_list_owned alloc_ok_NULL _ bytes ready deep, unfolded l, OF run]
    granting_buffer [of "[108, 101]"] run
  show ?thesis by (auto split: if_splits)
qed

text \<open>A stream that writes everything.\<close>

definition good_disk :: file_stream where
  "good_disk = \<lparr>written = [], fcalls = 0, fwrite_answers = (\<lambda>k len. len), fflush_answers = (\<lambda>k. True)\<rparr>"

lemma good_disk: "reliable good_disk"
  by (simp add: reliable_def good_disk_def)

text \<open>C17: emitting what was parsed gives back the bytes: after \<open>bencode_parse\<close> succeeded,
  \<open>bencode_emit_to_file\<close> of the result, to a stream that writes everything, appends exactly the part of
  the input that was consumed.\<close>

theorem parse_emit_roundtrip:
  assumes "parse_ready opts input inp m"
    and "bencode_parse input (length inp) opts True m = Some (BENCODE_OK, r, c, m1)" and "reliable fp"
  shows "\<exists>fp'. bencode_emit_to_file r (Some fp) m1 = Some (BENCODE_OK, Some fp', m1)
    \<and> written fp' = written fp @ take c inp"
  using assms(1)
proof (cases rule: bencode_parse_cases)
  case (parsed v rest t m')
  then have eq: "m' = m1" "r = Some (root t)" "take c inp = encode (tree_val t)" using assms(2) by auto
  have "wf_mem m1" "owned m1 t" using parsed(4) movesD(2) [OF parsed(6)] eq(1) by simp_all
  then show ?thesis
  proof (cases rule: emit_to_file_run [where fp = fp])
    case (all fp1)
    then show ?thesis using assms(3) eq
      by (simp add: bencode_emit_to_file_def fflush_def reliable_def same_stream_def)
  next
    case (part fp1 p)
    then show ?thesis using assms(3) by simp
  qed
next
  case (rejected st c m')
  then show ?thesis using assms(2) OK_no_error by auto
next
  case (nomem c m')
  then show ?thesis using assms(2) by simp
qed

theorem parse_emit_roundtrip_witness:
  "\<exists>r m1 fp'. bencode_parse (BAt 0 0) (length sample_text) None True (buffer_mem sample_text) = Some (BENCODE_OK, r, 17, m1)
    \<and> bencode_emit_to_file r (Some good_disk) m1 = Some (BENCODE_OK, Some fp', m1) \<and> written fp' = sample_text"
proof -
  obtain r m1 where run: "bencode_parse (BAt 0 0) (length sample_text) None True (buffer_mem sample_text)
      = Some (BENCODE_OK, r, 17, m1)" using sample_parse_result by blast
  have "written good_disk = []" "take 17 sample_text = sample_text"
    using sample_text_length by (simp_all add: good_disk_def)
  with parse_emit_roundtrip [OF sample_ready(1) run good_disk] run show ?thesis by auto
qed

end
