(* ===== verification/Session.thy ===== *)
theory Session
  imports Emit_Props
begin

text \<open>
  Programs that use the library: any sequence of calls of its builders, \<open>bencode_parse\<close>, \<open>bencode_value_clone\<close>
  and \<open>bencode_value_free\<close> (\<open>src/value.c\<close>, \<open>src/parse_dom.c\<close>) that follows the ownership rules of
  \<open>include/bencode/bencode.h\<close>.  The client sees a finite map from the values it owns to what they stand for.
\<close>

section \<open>Calls\<close>

datatype call =
    Int_new bencode_int_t "bencode_allocator option"
  | String_new bptr "byte list" "bencode_allocator option"
  | List_new "bencode_allocator option"
  | Dict_new "bencode_allocator option"
  | List_append addr addr
  | Dict_set addr bptr "byte list" addr
  | Clone addr "bencode_allocator option"
  | Parse bptr "byte list" "bencode_parse_options option"
  | Free addr

text \<open>The C function behind a call, with its status, its new value if it has one, and the memory.\<close>

fun perform :: "call \<Rightarrow> mem \<Rightarrow> (bencode_status \<times> addr option \<times> mem) option" where
  "perform (Int_new i al) m = bencode_int_new i al True m"
| "perform (String_new ptr bs al) m = bencode_string_new ptr (length bs) al True m"
| "perform (List_new al) m = bencode_list_new al True m"
| "perform (Dict_new al) m = bencode_dict_new al True m"
| "perform (List_append l c) m = do { (st, m1) \<leftarrow> bencode_list_append (Some l) (Some c) m; Some (st, None, m1) }"
| "perform (Dict_set d ptr k c) m =
     do { (st, m1) \<leftarrow> bencode_dict_set (Some d) ptr (length k) (Some c) m; Some (st, None, m1) }"
| "perform (Clone v al) m = bencode_value_clone (Some v) al True m"
| "perform (Parse ptr inp opts) m =
     do { (st, r, c, m1) \<leftarrow> bencode_parse ptr (length inp) opts True m; Some (st, r, m1) }"
| "perform (Free v) m = do { m1 \<leftarrow> bencode_value_free (Some v) m; Some (BENCODE_OK, None, m1) }"

type_synonym env = "addr \<Rightarrow> bval option"

text \<open>The rules: allocators keep their promise; bytes that are passed are readable, parser input lies in memory
  of the client; values are passed by their owner, and a value is not put into itself.\<close>

fun allowed :: "call \<Rightarrow> mem \<Rightarrow> env \<Rightarrow> bool" where
  "allowed (Int_new i al) m V \<longleftrightarrow> alloc_ok al"
| "allowed (String_new ptr bs al) m V \<longleftrightarrow> alloc_ok al \<and> read_bytes ptr (length bs) m = Some bs \<and> length bs \<le> SIZE_MAX"
| "allowed (List_new al) m V \<longleftrightarrow> alloc_ok al"
| "allowed (Dict_new al) m V \<longleftrightarrow> alloc_ok al"
| "allowed (List_append l c) m V \<longleftrightarrow> V l \<noteq> None \<and> V c \<noteq> None \<and> l \<noteq> c"
| "allowed (Dict_set d ptr k c) m V \<longleftrightarrow> V d \<noteq> None \<and> V c \<noteq> None \<and> d \<noteq> c
     \<and> read_bytes ptr (length k) m = Some k \<and> length k \<le> SIZE_MAX"
| "allowed (Clone v al) m V \<longleftrightarrow> V v \<noteq> None \<and> alloc_ok al"
| "allowed (Parse ptr inp opts) m V \<longleftrightarrow> parse_ready opts ptr inp m"
| "allowed (Free v) m V \<longleftrightarrow> V v \<noteq> None"

text \<open>What a call that returns \<open>BENCODE_OK\<close> with the new value \<open>r\<close> means for the client.\<close>

fun effect :: "call \<Rightarrow> addr option \<Rightarrow> env \<Rightarrow> env \<Rightarrow> bool" where
  "effect (Int_new i al) r V V' \<longleftrightarrow> (\<exists>a. r = Some a \<and> V a = None \<and> V' = V(a \<mapsto> BInt (sint i)))"
| "effect (String_new ptr bs al) r V V' \<longleftrightarrow> (\<exists>a. r = Some a \<and> V a = None \<and> V' = V(a \<mapsto> BStr bs))"
| "effect (List_new al) r V V' \<longleftrightarrow> (\<exists>a. r = Some a \<and> V a = None \<and> V' = V(a \<mapsto> BList []))"
| "effect (Dict_new al) r V V' \<longleftrightarrow> (\<exists>a. r = Some a \<and> V a = None \<and> V' = V(a \<mapsto> BDict []))"
| "effect (List_append l c) r V V' \<longleftrightarrow>
     (\<exists>vs v. V l = Some (BList vs) \<and> V c = Some v \<and> V' = (V(l \<mapsto> BList (vs @ [v])))(c := None))"
| "effect (Dict_set d ptr k c) r V V' \<longleftrightarrow>
     (\<exists>es v. V d = Some (BDict es) \<and> V c = Some v \<and> V' = (V(d \<mapsto> BDict (insert_key k v es)))(c := None))"
| "effect (Clone v al) r V V' \<longleftrightarrow> (\<exists>a. r = Some a \<and> V a = None \<and> V' = V(a := V v))"
| "effect (Parse ptr inp opts) r V V' \<longleftrightarrow> (\<exists>a v. r = Some a \<and> V a = None \<and> parses_as opts inp v \<and> V' = V(a \<mapsto> v))"
| "effect (Free v) r V V' \<longleftrightarrow> V' = V(v := None)"

definition outcome :: "call \<Rightarrow> bencode_status \<Rightarrow> addr option \<Rightarrow> env \<Rightarrow> env \<Rightarrow> bool" where
  "outcome c st r V V' \<longleftrightarrow> (if st = BENCODE_OK then effect c r V V' else r = None \<and> V' = V)"

text \<open>The states that a client can reach from the memory \<open>m0\<close>.\<close>

inductive session :: "mem \<Rightarrow> mem \<Rightarrow> env \<Rightarrow> bool" for m0 where
  start: "wf_mem m0 \<Longrightarrow> session m0 m0 Map.empty"
| call: "session m0 m V \<Longrightarrow> allowed c m V \<Longrightarrow> perform c m = Some (st, r, m') \<Longrightarrow> outcome c st r V V'
    \<Longrightarrow> session m0 m' V'"

section \<open>The invariant\<close>

text \<open>\<open>T\<close> has a tree for every value of the client: the trees are where the client thinks they are, stand for
  the right values, share no block, and are all that was taken from \<open>m0\<close>.\<close>

definition covers :: "mem \<Rightarrow> mem \<Rightarrow> env \<Rightarrow> (addr \<Rightarrow> gtree) \<Rightarrow> bool" where
  "covers m0 m V T \<longleftrightarrow>
     (\<forall>a v. V a = Some v \<longrightarrow> root (T a) = a \<and> owned m (T a) \<and> tree_val (T a) = v)
   \<and> (\<forall>a\<in>dom V. \<forall>b\<in>dom V. a \<noteq> b \<longrightarrow> set (blocks (T a)) \<inter> set (blocks (T b)) = {})
   \<and> moves m0 {} m (\<Union>a\<in>dom V. set (blocks (T a)))"

lemma coversD:
  assumes "covers m0 m V T"
  shows "wf_mem m" "moves m0 {} m (\<Union>a\<in>dom V. set (blocks (T a)))"
    "V a = Some v \<Longrightarrow> root (T a) = a \<and> owned m (T a) \<and> tree_val (T a) = v"
    "V a \<noteq> None \<Longrightarrow> V b \<noteq> None \<Longrightarrow> a \<noteq> b \<Longrightarrow> set (blocks (T a)) \<inter> set (blocks (T b)) = {}"
proof -
  show mv: "moves m0 {} m (\<Union>a\<in>dom V. set (blocks (T a)))" using assms by (simp add: covers_def)
  show "wf_mem m" using movesD(2) [OF mv] .
qed (use assms in \<open>auto simp: covers_def dom_def\<close>)

text \<open>A call takes over the trees at \<open>S\<close>; the others stay.\<close>

lemma covers_rest:
  assumes cov: "covers m0 m V T" and S: "S \<subseteq> dom V" and mv: "moves m (\<Union>a\<in>S. set (blocks (T a))) m' F'"
  shows "a \<in> dom V - S \<Longrightarrow> owned m' (T a)"
    and "a \<in> dom V - S \<Longrightarrow> set (blocks (T a)) \<inter> F' = {}"
    and "moves m0 {} m' (F' \<union> (\<Union>a\<in>dom V - S. set (blocks (T a))))"
proof -
  let ?S = "\<Union>a\<in>S. set (blocks (T a))" and ?Q = "\<Union>a\<in>dom V - S. set (blocks (T a))"
  have apart: "set (blocks (T a)) \<inter> ?S = {}" if "a \<in> dom V - S" for a
  proof -
    have "set (blocks (T a)) \<inter> set (blocks (T b)) = {}" if "b \<in> S" for b
      by (rule coversD(4) [OF cov]) (use \<open>a \<in> dom V - S\<close> that S in auto)
    then show ?thesis by blast
  qed
  have all: "(\<Union>a\<in>dom V. set (blocks (T a))) = ?S \<union> ?Q" using S by blast
  have below: "?Q \<subseteq> {..<next_addr m}" using movesD(4) [OF coversD(2) [OF cov]] by blast
  have "?Q \<inter> ?S = {}" using apart by blast
  then have Q: "?S \<union> ?Q - ?S = ?Q" by blast
  have "moves m0 {} m' (F' \<union> (?S \<union> ?Q - ?S))"
    by (rule moves_step [OF coversD(2) [OF cov, unfolded all] mv]) blast
  then show "moves m0 {} m' (F' \<union> ?Q)" unfolding Q .
  show "set (blocks (T a)) \<inter> F' = {}" if a: "a \<in> dom V - S"
    by (rule moves_apart [OF mv _ apart [OF a]]) (use below a in blast)
  show "owned m' (T a)" if a: "a \<in> dom V - S"
  proof (rule owned_moves [OF _ mv apart [OF a]])
    obtain v where "V a = Some v" using a by auto
    then show "owned m (T a)" using coversD(3) [OF cov] by blast
  qed
qed

lemma covers_drop:
  assumes cov: "covers m0 m V T" and S: "S \<subseteq> dom V" and mv: "moves m (\<Union>a\<in>S. set (blocks (T a))) m' {}"
  shows "covers m0 m' (V |` (- S)) T"
proof -
  have dom: "dom (V |` (- S)) = dom V - S" by auto
  show ?thesis unfolding covers_def dom
  proof (intro conjI allI impI ballI)
    fix a v
    assume a: "(V |` (- S)) a = Some v"
    then have V: "V a = Some v" "a \<in> dom V - S" by (auto simp: restrict_map_def split: if_splits)
    then show "root (T a) = a" "tree_val (T a) = v" using coversD(3) [OF cov] by simp_all
    show "owned m' (T a)" by (rule covers_rest(1) [OF cov S mv V(2)])
  next
    show "set (blocks (T a)) \<inter> set (blocks (T b)) = {}" if "a \<in> dom V - S" "b \<in> dom V - S" "a \<noteq> b" for a b
      by (rule coversD(4) [OF cov]) (use that in auto)
    show "moves m0 {} m' (\<Union>a\<in>dom V - S. set (blocks (T a)))" using covers_rest(3) [OF cov S mv] by simp
  qed
qed

lemma covers_put:
  assumes cov: "covers m0 m V T" and S: "S \<subseteq> dom V" and mv: "moves m (\<Union>a\<in>S. set (blocks (T a))) m' (set (blocks u))"
    and u: "owned m' u"
  shows "covers m0 m' ((V |` (- S))(root u \<mapsto> tree_val u)) (T(root u := u))" and "root u \<notin> dom V - S"
proof -
  note rest = covers_rest [OF cov S mv]
  have tree: "root (T a) = a" if "a \<in> dom V" for a using coversD(3) [OF cov] that by blast
  show new: "root u \<notin> dom V - S"
  proof
    assume r: "root u \<in> dom V - S"
    then have "root (T (root u)) = root u" using tree by blast
    then have "root u \<in> set (blocks (T (root u)))" by (metis root_in_blocks)
    then show False using rest(2) [OF r] by (auto dest: equalityD1)
  qed
  let ?V = "(V |` (- S))(root u \<mapsto> tree_val u)" and ?T = "T(root u := u)"
  have dom: "dom ?V = insert (root u) (dom V - S)" by auto
  have same: "?T a = T a" if "a \<in> dom V - S" for a using that new by auto
  have union: "(\<Union>a\<in>insert (root u) (dom V - S). set (blocks (?T a))) = set (blocks u) \<union> (\<Union>a\<in>dom V - S. set (blocks (T a)))"
  proof -
    have "(\<Union>a\<in>dom V - S. set (blocks (?T a))) = (\<Union>a\<in>dom V - S. set (blocks (T a)))"
      by (rule SUP_cong [OF refl]) (simp only: same)
    then show ?thesis unfolding UN_insert by simp
  qed
  show "covers m0 m' ?V ?T" unfolding covers_def dom union
  proof (intro conjI allI impI ballI)
    fix a v
    assume a: "?V a = Some v"
    show "root (?T a) = a" "owned m' (?T a)" "tree_val (?T a) = v"
    proof (atomize (full), cases "a = root u")
      case False
      then have V: "V a = Some v" "a \<in> dom V - S" using a by (auto simp: restrict_map_def split: if_splits)
      then show "root (?T a) = a \<and> owned m' (?T a) \<and> tree_val (?T a) = v"
        using False coversD(3) [OF cov V(1)] rest(1) [OF V(2)] by simp
    qed (use a u in auto)
  next
    fix a b
    assume a: "a \<in> insert (root u) (dom V - S)" and b: "b \<in> insert (root u) (dom V - S)" and ne: "a \<noteq> b"
    consider "a = root u" "b \<in> dom V - S" | "b = root u" "a \<in> dom V - S" | "a \<in> dom V - S" "b \<in> dom V - S"
      using a b ne by blast
    then show "set (blocks (?T a)) \<inter> set (blocks (?T b)) = {}"
    proof cases
      case 1
      then show ?thesis using rest(2) [of b] same [of b] by (simp add: Int_commute)
    next
      case 2
      then show ?thesis using rest(2) [of a] same [of a] by simp
    next
      case 3
      then show ?thesis using same coversD(4) [OF cov, of a b] ne by auto
    qed
  next
    show "moves m0 {} m' (set (blocks u) \<union> (\<Union>a\<in>dom V - S. set (blocks (T a))))" by (rule rest(3))
  qed
qed

text \<open>A failed call, and a call that makes a value.\<close>

lemma restrict_all: "V |` (- {}) = V"
  by (rule ext) simp

lemma covers_same: "covers m0 m V T \<Longrightarrow> moves m {} m' {} \<Longrightarrow> covers m0 m' V T"
  using covers_drop [of m0 m V T "{}" m', unfolded restrict_all] by simp

lemma covers_new:
  assumes "covers m0 m V T" and "moves m {} m' (set (blocks u))" and "owned m' u"
  shows "covers m0 m' (V(root u \<mapsto> tree_val u)) (T(root u := u))" and "V (root u) = None"
proof -
  have mv: "moves m (\<Union>a\<in>{}. set (blocks (T a))) m' (set (blocks u))" using assms(2) by simp
  note put = covers_put [OF assms(1) empty_subsetI mv assms(3), unfolded restrict_all]
  show "covers m0 m' (V(root u \<mapsto> tree_val u)) (T(root u := u))" by (rule put(1))
  show "V (root u) = None" using put(2) by auto
qed

section \<open>One call\<close>

text \<open>A call that is allowed returns, and keeps the invariant with the outcome the client expects.\<close>

definition served :: "mem \<Rightarrow> call \<Rightarrow> mem \<Rightarrow> env \<Rightarrow> bool" where
  "served m0 c m V \<longleftrightarrow> (\<exists>st r m' V' T'. perform c m = Some (st, r, m') \<and> outcome c st r V V' \<and> covers m0 m' V' T')"

lemma servedI: "perform c m = Some (st, r, m') \<Longrightarrow> outcome c st r V V' \<Longrightarrow> covers m0 m' V' T' \<Longrightarrow> served m0 c m V"
  unfolding served_def by blast

lemma served_failed:
  assumes "covers m0 m V T" and "perform c m = Some (st, None, m')" and "st \<noteq> BENCODE_OK" and "moves m {} m' {}"
  shows "served m0 c m V"
proof (rule servedI [OF assms(2) _ covers_same [OF assms(1,4)]])
  show "outcome c st None V V" using assms(3) by (simp add: outcome_def)
qed

lemma served_new:
  assumes "covers m0 m V T" and "perform c m = Some (BENCODE_OK, Some (root u), m')" and "owned m' u"
    and "moves m {} m' (set (blocks u))"
    and "V (root u) = None \<Longrightarrow> effect c (Some (root u)) V (V(root u \<mapsto> tree_val u))"
  shows "served m0 c m V"
proof (rule servedI [OF assms(2) _ covers_new(1) [OF assms(1,4,3)]])
  show "outcome c BENCODE_OK (Some (root u)) V (V(root u \<mapsto> tree_val u))"
    using assms(5) covers_new(2) [OF assms(1,4,3)] by (simp add: outcome_def)
qed

lemma served_built:
  assumes "covers m0 m V T" and "built m v (perform c m)"
    and "\<And>a. V a = None \<Longrightarrow> effect c (Some a) V (V(a \<mapsto> v))"
  shows "served m0 c m V"
  using assms(2)
proof (cases rule: built_cases)
  case (success t m')
  then show ?thesis using served_new [OF assms(1) success(1,2,4)] assms(3) by simp
next
  case (nomem m')
  show ?thesis by (rule served_failed [OF assms(1) nomem(1) _ nomem(2)]) simp
qed

text \<open>The trees of two values of the client.\<close>

lemma covers_pair:
  assumes "covers m0 m V T" and "V a = Some x" and "V b = Some y" and "a \<noteq> b"
  obtains t u where "T a = t" and "T b = u" and "root t = a" and "owned m t" and "tree_val t = x"
    and "root u = b" and "owned m u" and "tree_val u = y" and "set (blocks t) \<inter> set (blocks u) = {}"
  using coversD(3) [OF assms(1,2)] coversD(3) [OF assms(1,3)] coversD(4) [OF assms(1), of a b] assms(2-4) that by simp

lemma append_other: "holds m t \<Longrightarrow> (\<And>vs. tree_val t \<noteq> BList vs) \<Longrightarrow>
    bencode_list_append (Some (root t)) (Some c) m = Some (BENCODE_ERR_INVALID_ARG, m)"
  by (cases t) (auto simp: bencode_list_append_def read_node_def dict_shell_def)

lemma dict_set_other: "holds m t \<Longrightarrow> (\<And>es. tree_val t \<noteq> BDict es) \<Longrightarrow>
    bencode_dict_set (Some (root t)) ptr len (Some c) m = Some (BENCODE_ERR_INVALID_ARG, m)"
  by (cases t) (auto simp: bencode_dict_set_def read_node_def list_shell_def)

text \<open>A container that takes over a child.\<close>

lemma served_taken:
  assumes cov: "covers m0 m V T" and V: "V l = Some x" "V b = Some y" "l \<noteq> b"
    and run: "perform c m = Some (BENCODE_OK, None, m')" and w: "owned m' w" "root w = l"
    and mv: "moves m (set (blocks (T l)) \<union> set (blocks (T b))) m' (set (blocks w))"
    and eff: "effect c None V ((V(l \<mapsto> tree_val w))(b := None))"
  shows "served m0 c m V"
proof (rule servedI [OF run])
  show "outcome c BENCODE_OK None V ((V(l \<mapsto> tree_val w))(b := None))" using eff by (simp add: outcome_def)
  have "moves m (\<Union>a\<in>{l, b}. set (blocks (T a))) m' (set (blocks w))" using mv by simp
  from covers_put(1) [OF cov _ this w(1)] V(1,2)
  have "covers m0 m' ((V |` (- {l, b}))(l \<mapsto> tree_val w)) (T(root w := w))" using w(2) by auto
  moreover have "(V |` (- {l, b}))(l \<mapsto> tree_val w) = (V(l \<mapsto> tree_val w))(b := None)"
    using V(3) by (auto simp: restrict_map_def)
  ultimately show "covers m0 m' ((V(l \<mapsto> tree_val w))(b := None)) (T(root w := w))" by simp
qed

lemma served_append:
  assumes cov: "covers m0 m V T" and al: "allowed (List_append l c) m V"
  shows "served m0 (List_append l c) m V"
proof -
  obtain x y where V: "V l = Some x" "V c = Some y" "l \<noteq> c" using al by auto
  obtain t u where t: "T l = t" "T c = u" "root t = l" "owned m t" "tree_val t = x"
    and u: "root u = c" "owned m u" "tree_val u = y" and apart: "set (blocks t) \<inter> set (blocks u) = {}"
    by (rule covers_pair [OF cov V])
  show ?thesis
  proof (cases "\<exists>vs. x = BList vs")
    case False
    then have "bencode_list_append (Some l) (Some c) m = Some (BENCODE_ERR_INVALID_ARG, m)"
      using append_other [of m t c] t by (simp add: owned_def)
    then show ?thesis using moves_refl [OF coversD(1) [OF cov], of "{}"]
      by (intro served_failed [OF cov, of _ BENCODE_ERR_INVALID_ARG m]) simp_all
  next
    case True
    then obtain vs where x: "x = BList vs" by blast
    obtain al arr cap ts where tt: "t = GList l al arr cap ts" and vs: "vs = map tree_val ts"
      using list_tree [of t vs] t(3,5) x by auto
    from coversD(1) [OF cov] t(4) [unfolded tt] u(2) apart [unfolded tt] show ?thesis
    proof (cases rule: list_append_tree)
      case (appended arr' cap' m')
      show ?thesis
      proof (rule served_taken [OF cov V])
        show "perform (List_append l c) m = Some (BENCODE_OK, None, m')" using appended(1) u(1) by simp
        show "owned m' (GList l al arr' cap' (ts @ [u]))" by (rule appended(2))
        show "moves m (set (blocks (T l)) \<union> set (blocks (T c))) m' (set (blocks (GList l al arr' cap' (ts @ [u]))))"
          unfolding t(1,2) tt by (rule appended(3))
      qed (use V x vs u(3) in simp_all)
    next
      case (nomem m')
      show ?thesis by (rule served_failed [where st = BENCODE_ERR_NOMEM, OF cov _ _ nomem(2)]) (use nomem(1) u(1) in simp_all)
    qed
  qed
qed

lemma served_dict_set:
  assumes cov: "covers m0 m V T" and al: "allowed (Dict_set d ptr k c) m V"
  shows "served m0 (Dict_set d ptr k c) m V"
proof -
  obtain x y where V: "V d = Some x" "V c = Some y" "d \<noteq> c" using al by auto
  have key: "read_bytes ptr (length k) m = Some k" "length k \<le> SIZE_MAX" using al by simp_all
  obtain t u where t: "T d = t" "T c = u" "root t = d" "owned m t" "tree_val t = x"
    and u: "root u = c" "owned m u" "tree_val u = y" and apart: "set (blocks t) \<inter> set (blocks u) = {}"
    by (rule covers_pair [OF cov V])
  show ?thesis
  proof (cases "\<exists>es. x = BDict es")
    case False
    then have "bencode_dict_set (Some d) ptr (length k) (Some c) m = Some (BENCODE_ERR_INVALID_ARG, m)"
      using dict_set_other [of m t ptr "length k" c] t by (simp add: owned_def)
    then show ?thesis using moves_refl [OF coversD(1) [OF cov], of "{}"]
      by (intro served_failed [OF cov, of _ BENCODE_ERR_INVALID_ARG m]) simp_all
  next
    case True
    then obtain es where x: "x = BDict es" by blast
    obtain al arr cap ts where tt: "t = GDict d al arr cap ts" and es: "es = entry_vals ts"
      using dict_tree [of t es] t(3,5) x by auto
    from coversD(1) [OF cov] t(4) [unfolded tt] u(2) apart [unfolded tt] key show ?thesis
    proof (cases rule: dict_set_tree)
      case (inserted arr' cap' ka xs mid ys m')
      let ?w = "GDict d al arr' cap' (xs @ (ka, k, u) # ys)"
      have val: "tree_val ?w = BDict (insert_key k y es)"
        using insert_key_entries [OF inserted(2-4), of ka u] u(3) unfolding es inserted(1) by simp
      show ?thesis
      proof (rule served_taken [OF cov V])
        show "perform (Dict_set d ptr k c) m = Some (BENCODE_OK, None, m')" using inserted(5) u(1) by simp
        show "owned m' ?w" by (rule inserted(6))
        show "moves m (set (blocks (T d)) \<union> set (blocks (T c))) m' (set (blocks ?w))"
          unfolding t(1,2) tt by (rule inserted(7))
        show "effect (Dict_set d ptr k c) None V ((V(d \<mapsto> tree_val ?w))(c := None))" unfolding val using V x by simp
      qed simp
    next
      case (nomem m')
      show ?thesis by (rule served_failed [where st = BENCODE_ERR_NOMEM, OF cov _ _ nomem(2)]) (use nomem(1) u(1) in simp_all)
    qed
  qed
qed

lemma served_clone:
  assumes cov: "covers m0 m V T" and al: "allowed (Clone v al) m V"
  shows "served m0 (Clone v al) m V"
proof -
  obtain x where x: "V v = Some x" and ok: "alloc_ok al" using al by auto
  have t: "root (T v) = v" "owned m (T v)" "tree_val (T v) = x" using coversD(3) [OF cov x] by simp_all
  from bencode_value_clone_spec [OF coversD(1) [OF cov] t(2) ok] show ?thesis
  proof (cases rule: cloned_cases)
    case (success u m')
    then show ?thesis using t x
      by (intro served_new [OF cov _ success(2,4)]) (simp_all add: own_copy_def)
  next
    case (nomem m')
    show ?thesis by (rule served_failed [where st = BENCODE_ERR_NOMEM, OF cov _ _ nomem(2)]) (use nomem(1) t(1) in simp_all)
  qed
qed

lemma served_parse:
  assumes cov: "covers m0 m V T" and al: "allowed (Parse ptr inp opts) m V"
  shows "served m0 (Parse ptr inp opts) m V"
proof -
  have "parse_ready opts ptr inp m" using al by simp
  then show ?thesis
  proof (cases rule: bencode_parse_cases)
    case (parsed v rest t m')
    show ?thesis
      by (rule served_new [OF cov _ parsed(4,6)]) (use parsed(1,3,5) in auto)
  next
    case (rejected st c m')
    have "st \<noteq> BENCODE_OK" using rejected(4) OK_no_error by auto
    then show ?thesis by (intro served_failed [OF cov _ _ rejected(5)]) (use rejected(2) in simp_all)
  next
    case (nomem c m')
    show ?thesis by (rule served_failed [where st = BENCODE_ERR_NOMEM, OF cov _ _ nomem(3)]) (use nomem(1) in simp_all)
  qed
qed

lemma served_free:
  assumes cov: "covers m0 m V T" and al: "allowed (Free v) m V"
  shows "served m0 (Free v) m V"
proof -
  obtain x where x: "V v = Some x" using al by auto
  have t: "root (T v) = v" "owned m (T v)" using coversD(3) [OF cov x] by simp_all
  obtain m' where m': "bencode_value_free (Some (root (T v))) m = Some m'" "moves m (set (blocks (T v))) m' {}"
    by (rule bencode_value_free_spec [OF coversD(1) [OF cov] t(2)])
  have "covers m0 m' (V |` (- {v})) T"
    by (rule covers_drop [OF cov]) (use x m'(2) in auto)
  moreover have "V |` (- {v}) = V(v := None)" by (simp add: restrict_complement_singleton_eq)
  ultimately show ?thesis using m'(1) t(1)
    by (intro servedI [of _ _ BENCODE_OK None m' V "V(v := None)" _ T]) (simp_all add: outcome_def)
qed

lemma served_all:
  assumes cov: "covers m0 m V T" and al: "allowed c m V"
  shows "served m0 c m V"
proof (cases c)
  case (Int_new i ala)
  then show ?thesis using bencode_int_new_spec [OF coversD(1) [OF cov]] al by (intro served_built [OF cov]) simp_all
next
  case (String_new ptr bs ala)
  then show ?thesis using bencode_string_new_spec [OF coversD(1) [OF cov]] al by (intro served_built [OF cov]) simp_all
next
  case (List_new ala)
  then show ?thesis using bencode_list_new_spec [OF coversD(1) [OF cov]] al by (intro served_built [OF cov]) simp_all
next
  case (Dict_new ala)
  then show ?thesis using bencode_dict_new_spec [OF coversD(1) [OF cov]] al by (intro served_built [OF cov]) simp_all
qed (use served_append [OF cov] served_dict_set [OF cov] served_clone [OF cov] served_parse [OF cov] served_free [OF cov] al
    in simp_all)

section \<open>All sessions\<close>

lemma effect_unique: "effect c r V V1 \<Longrightarrow> effect c r V V2 \<Longrightarrow> V1 = V2"
  by (cases c) (auto dest: parses_as_unique)

lemma outcome_unique: "outcome c st r V V1 \<Longrightarrow> outcome c st r V V2 \<Longrightarrow> V1 = V2"
  by (auto simp: outcome_def effect_unique split: if_splits)

lemma session_covers: "session m0 m V \<Longrightarrow> \<exists>T. covers m0 m V T"
proof (induction rule: session.induct)
  case start
  then show ?case using moves_refl [of m0 "{}"] by (simp add: covers_def)
next
  case (call m V c st r m' V')
  from call.IH obtain T where "covers m0 m V T" by blast
  from served_all [OF this call.hyps(2)] obtain V'' T' where "outcome c st r V V''" "covers m0 m' V'' T'"
    using call.hyps(3) unfolding served_def by auto
  then show ?case using outcome_unique call.hyps(4) by blast
qed

primrec release :: "addr list \<Rightarrow> mem \<Rightarrow> mem option" where
  "release [] m = Some m"
| "release (v # vs) m = do { m1 \<leftarrow> bencode_value_free (Some v) m; release vs m1 }"

lemma release_covers:
  "covers m0 m V T \<Longrightarrow> distinct vs \<Longrightarrow> set vs = dom V \<Longrightarrow> \<exists>m'. release vs m = Some m' \<and> moves m0 {} m' {}"
proof (induction vs arbitrary: m V)
  case Nil
  then show ?case using coversD(2) [OF Nil(1)] by simp
next
  case (Cons v vs)
  obtain x where x: "V v = Some x" using Cons.prems(3) by auto
  have t: "root (T v) = v" "owned m (T v)" using coversD(3) [OF Cons.prems(1) x] by simp_all
  obtain m1 where m1: "bencode_value_free (Some (root (T v))) m = Some m1" "moves m (set (blocks (T v))) m1 {}"
    by (rule bencode_value_free_spec [OF coversD(1) [OF Cons.prems(1)] t(2)])
  have "covers m0 m1 (V |` (- {v})) T"
    by (rule covers_drop [OF Cons.prems(1)]) (use x m1(2) in auto)
  moreover have "set vs = dom (V |` (- {v}))" using Cons.prems(2,3) by auto
  ultimately have "\<exists>m'. release vs m1 = Some m' \<and> moves m0 {} m' {}" using Cons.IH Cons.prems(2) by simp
  then show ?case using m1(1) t(1) by simp
qed

section \<open>Properties\<close>

text \<open>A session of one call.\<close>

lemma sample_session:
  "\<exists>m. session (buffer_mem []) m [1 \<mapsto> BInt 5] \<and> granting m"
proof -
  let ?m = "\<lparr>store = (store (buffer_mem []))(1 \<mapsto> (Platform, Node \<lparr>valloc = None, payload = Int_payload 5\<rparr>)),
      next_addr = 2, requests = 1, answers = (\<lambda>p n nbytes. True)\<rparr>"
  have run: "perform (Int_new 5 None) (buffer_mem []) = Some (BENCODE_OK, Some 1, ?m)"
    by (simp add: bencode_int_new_def bencode_allocator_check_def value_alloc_def bencode_alloc_def alloc_from_def
        buffer_mem_def write_node_def put_block_def sizeof_value_def)
  have "session (buffer_mem []) (buffer_mem []) Map.empty"
    by (rule session.start) (simp add: buffer_mem_def wf_mem_def)
  then have "session (buffer_mem []) ?m [1 \<mapsto> BInt 5]"
    by (rule session.call [OF _ _ run]) (simp_all add: outcome_def alloc_ok_def)
  then show ?thesis by (intro exI [of _ ?m]) (simp add: granting_def)
qed

text \<open>C12: in every state that a client reaches by calls that follow the ownership rules, each value it holds is an
  intact tree in memory for the value it expects, the trees share no block, and the library holds no
  other memory.\<close>

theorem session_invariant:
  assumes "session m0 m V"
  shows "\<exists>T. (\<forall>a v. V a = Some v \<longrightarrow> root (T a) = a \<and> owned m (T a) \<and> tree_val (T a) = v)
    \<and> (\<forall>a\<in>dom V. \<forall>b\<in>dom V. a \<noteq> b \<longrightarrow> set (blocks (T a)) \<inter> set (blocks (T b)) = {})
    \<and> moves m0 {} m (\<Union>a\<in>dom V. set (blocks (T a)))"
  using session_covers [OF assms] by (simp add: covers_def)

theorem session_invariant_witness:
  "\<exists>m T. session (buffer_mem []) m [1 \<mapsto> BInt 5] \<and> root (T 1) = 1 \<and> owned m (T 1) \<and> tree_val (T (1 :: addr)) = BInt 5"
proof -
  obtain m where m: "session (buffer_mem []) m [1 \<mapsto> BInt 5]" using sample_session by blast
  from session_invariant [OF m] obtain T where
    "\<forall>a v. [1 \<mapsto> BInt 5] a = Some v \<longrightarrow> root (T a) = a \<and> owned m (T a) \<and> tree_val (T a) = v" by blast
  then have "root (T 1) = 1 \<and> owned m (T 1) \<and> tree_val (T 1) = BInt 5" by simp
  then show ?thesis using m by blast
qed

text \<open>C13: no call that follows the rules goes wrong: in every reachable state each allowed call returns, and when
  it returns \<open>BENCODE_OK\<close> the client's values change as the interface says (a new value, a child taken over, a
  value released), and otherwise not at all.\<close>

theorem session_call_returns:
  assumes "session m0 m V" and "allowed c m V"
  shows "\<exists>st r m' V'. perform c m = Some (st, r, m') \<and> outcome c st r V V' \<and> session m0 m' V'"
proof -
  from session_covers [OF assms(1)] obtain T where "covers m0 m V T" by blast
  from served_all [OF this assms(2)] obtain st r m' V' where
    "perform c m = Some (st, r, m')" "outcome c st r V V'" unfolding served_def by blast
  then show ?thesis using session.call [OF assms] by blast
qed

theorem session_call_returns_witness:
  "\<exists>m st r m' V'. perform (Parse (BAt 0 0) sample_text None) (buffer_mem sample_text) = Some (st, r, m')
     \<and> outcome (Parse (BAt 0 0) sample_text None) st r Map.empty V' \<and> session (buffer_mem sample_text) m' V'"
proof -
  have "session (buffer_mem sample_text) (buffer_mem sample_text) Map.empty"
    by (rule session.start) (simp add: buffer_mem_def wf_mem_def)
  from session_call_returns [OF this, of "Parse (BAt 0 0) sample_text None"] sample_ready(1) show ?thesis by simp
qed

text \<open>C14: nothing leaks: from every reachable state, releasing the values that the client holds, in any order,
  gives back all memory that was taken since the start.\<close>

theorem session_releases_all:
  assumes "session m0 m V" and "distinct vs" and "set vs = dom V"
  shows "\<exists>m'. release vs m = Some m' \<and> moves m0 {} m' {}"
  using session_covers [OF assms(1)] release_covers [OF _ assms(2,3)] by blast

theorem session_releases_all_witness:
  "\<exists>m m'. session (buffer_mem []) m [1 \<mapsto> BInt 5] \<and> release [1] m = Some m' \<and> moves (buffer_mem []) {} m' {}"
proof -
  obtain m where m: "session (buffer_mem []) m [1 \<mapsto> BInt 5]" using sample_session by blast
  from session_releases_all [OF m, of "[1]"] m show ?thesis by auto
qed

text \<open>C18: whatever a client has built, parsed or copied is emitted as the canonical encoding of the value it
  stands for.\<close>

theorem session_emits:
  assumes "session m0 m V" and "V a = Some v" and "reliable fp"
  shows "\<exists>fp' d. bencode_emit_to_file (Some a) (Some fp) m = Some (BENCODE_OK, Some fp', m)
    \<and> written fp' = written fp @ encode v \<and> canonical d v"
proof -
  from session_covers [OF assms(1)] obtain T where cov: "covers m0 m V T" by blast
  have t: "root (T a) = a" "owned m (T a)" "tree_val (T a) = v" using coversD(3) [OF cov assms(2)] by simp_all
  have can: "canonical (height (T a)) v" using tree_canonical t(2,3) by (auto simp: owned_def)
  from coversD(1) [OF cov] t(2) show ?thesis
  proof (cases rule: emit_to_file_run [where fp = fp])
    case (all fp1)
    have "fflush_answers fp1 (fcalls fp1)" using all(2) assms(3) by (simp add: same_stream_def reliable_def)
    then have "bencode_emit_to_file (Some a) (Some fp) m = Some (BENCODE_OK, Some (snd (fflush fp1)), m)"
      using all(1) t(1) by (simp add: bencode_emit_to_file_def fflush_def)
    moreover have "written (snd (fflush fp1)) = written fp @ encode v" using all(3) t(3) by (simp add: fflush_def)
    ultimately show ?thesis using can by blast
  next
    case (part fp1 p)
    then show ?thesis using assms(3) by simp
  qed
qed

theorem session_emits_witness:
  "\<exists>m fp'. session (buffer_mem []) m [1 \<mapsto> BInt 5]
    \<and> bencode_emit_to_file (Some 1) (Some good_disk) m = Some (BENCODE_OK, Some fp', m) \<and> written fp' = [105, 53, 101]"
proof -
  obtain m where m: "session (buffer_mem []) m [1 \<mapsto> BInt 5]" using sample_session by blast
  have "encode (BInt 5) = [105, 53, 101]" "written good_disk = []"
    by (simp_all add: enc_int_def dec_digit digit_byte_def good_disk_def)
  then show ?thesis using session_emits [OF m _ good_disk, of 1 "BInt 5"] m by auto
qed

end
