(* ===== verification/Owned_Access.thy ===== *)
theory Owned_Access
  imports Owned_Array
begin

text \<open>What the accessors of \<open>src/value.c\<close> return on the nodes of a tree that the memory holds.\<close>

lemma holds_value_type:
  "holds m t \<Longrightarrow> bencode_value_type (Some (root t)) m = Some (case t of
     GInt _ _ _ \<Rightarrow> BENCODE_INT | GOwned _ _ _ _ \<Rightarrow> BENCODE_STRING | GBorrow _ _ _ _ \<Rightarrow> BENCODE_STRING
   | GList _ _ _ _ _ \<Rightarrow> BENCODE_LIST | GDict _ _ _ _ _ \<Rightarrow> BENCODE_DICT)"
  by (cases t) (simp_all add: bencode_value_type_def read_node_def list_shell_def dict_shell_def)

lemma holds_value_int:
  "holds m (GInt a al i) \<Longrightarrow> bencode_value_int (Some a) True m = Some (BENCODE_OK, Some i)"
  by (simp add: bencode_value_int_def read_node_def)

lemma holds_value_string:
  assumes "holds m t" and "tree_val t = BStr bs"
  obtains ptr where "bencode_value_string (Some (root t)) True True m = Some (BENCODE_OK, Some (ptr, length bs))"
    and "read_bytes ptr (length bs) m = Some bs" and "length bs \<le> SIZE_MAX"
proof (cases t)
  case (GOwned a al b cs)
  have "read_bytes (BAt b 0) (length cs) m = Some cs" using assms GOwned by (simp add: read_bytes_def slice_def)
  then show thesis using that assms GOwned by (simp add: bencode_value_string_def read_node_def)
next
  case (GBorrow a al ptr cs)
  then have "read_bytes ptr (length cs) m = Some cs" using assms read_borrowed by simp
  then show thesis using that assms GBorrow by (simp add: bencode_value_string_def read_node_def)
qed (use assms in simp_all)

lemma holds_list_size:
  "holds m (GList a al arr cap ts) \<Longrightarrow> bencode_list_size (Some a) m = Some (length ts)"
  by (simp add: bencode_list_size_def read_node_def list_shell_def)

lemma holds_list_at:
  "holds m (GList a al arr cap ts) \<Longrightarrow> i < length ts \<Longrightarrow> bencode_list_at (Some a) i m = Some (Some (root (ts ! i)))"
  using read_item_array [of m al arr cap "map root ts" i]
  by (simp add: bencode_list_at_def read_node_def list_shell_def)

lemma holds_dict_size:
  "holds m (GDict a al arr cap es) \<Longrightarrow> bencode_dict_size (Some a) m = Some (length es)"
  by (simp add: bencode_dict_size_def read_node_def dict_shell_def)

lemma holds_dict_at:
  assumes "holds m (GDict a al arr cap es)" and "i < length es" and "es ! i = (ka, k, u)"
  shows "bencode_dict_at (Some a) i m = Some (BENCODE_OK, Some (ka, length k, root u))"
    and "read_bytes (key_ptr ka) (length k) m = Some k" and "length k \<le> SIZE_MAX" and "holds m u"
    and "(ka, k, u) \<in> set es"
proof -
  have sh: "dict_shell m a al arr cap (shell_entries es)" and us: "\<forall>(ka, k, u)\<in>set es. holds m u"
    using assms(1) by simp_all
  show ins: "(ka, k, u) \<in> set es" using assms(2,3) nth_mem by metis
  have "read_entry arr i m = Some \<lparr>ekey = ka, ekey_len = length k, evalue = root u\<rparr>"
    using read_entry_array [of m al arr cap "shell_entries es" i] sh assms(2,3) by (simp only: dict_shell_def) simp
  then show "bencode_dict_at (Some a) i m = Some (BENCODE_OK, Some (ka, length k, root u))"
    using sh assms(2) by (simp add: bencode_dict_at_def read_node_def dict_shell_def)
  have key: "key_at m al ka k" using sh ins by (auto simp: dict_shell_def)
  then show "read_bytes (key_ptr ka) (length k) m = Some k" by (rule read_key)
  show "length k \<le> SIZE_MAX" using key by (simp add: key_at_def)
  show "holds m u" using us ins by auto
qed

lemma holds_counts:
  "holds m (GList a al arr cap ts) \<Longrightarrow> length ts < SIZE_MAX"
  "holds m (GDict a al arr cap es) \<Longrightarrow> length es < SIZE_MAX"
  using count_less [of m al arr cap sizeof_item "map Item (map root ts)"]
    count_less [of m al arr cap sizeof_entry "map entry_cell (shell_entries es)"]
  by (simp_all add: list_shell_def dict_shell_def sizeof_defs Suc_le_eq)

end
