(* ===== verification/Observe.thy ===== *)
theory Observe
  imports Session Owned_Access
begin

text \<open>
  What a client can see: \<open>observe\<close> reads a whole value back with the accessors of \<open>include/bencode/bencode.h\<close>
  (\<open>src/value.c\<close>) and nothing else.
\<close>

section \<open>Reading a value back\<close>

definition observe_list :: "(addr option \<Rightarrow> bval option) \<Rightarrow> addr option \<Rightarrow> mem \<Rightarrow> bval option" where
  "observe_list child v m = do {
     n \<leftarrow> bencode_list_size v m;
     vs \<leftarrow> those (map (\<lambda>i. do { c \<leftarrow> bencode_list_at v i m; child c }) [0..<n]);
     Some (BList vs)
   }"

definition observe_dict :: "(addr option \<Rightarrow> bval option) \<Rightarrow> addr option \<Rightarrow> mem \<Rightarrow> bval option" where
  "observe_dict child v m = do {
     n \<leftarrow> bencode_dict_size v m;
     es \<leftarrow> those (map (\<lambda>i. do {
       (st, r) \<leftarrow> bencode_dict_at v i m;
       (key, len, c) \<leftarrow> r;
       k \<leftarrow> read_bytes (key_ptr key) len m;
       w \<leftarrow> child (Some c);
       Some (k, w)
     }) [0..<n]);
     Some (BDict es)
   }"

primrec observe :: "nat \<Rightarrow> mem \<Rightarrow> addr option \<Rightarrow> bval option" where
  "observe 0 m v = None"
| "observe (Suc n) m v = do {
     ty \<leftarrow> bencode_value_type v m;
     case ty of
       BENCODE_INVALID \<Rightarrow> None
     | BENCODE_INT \<Rightarrow> do { (st, r) \<leftarrow> bencode_value_int v True m; i \<leftarrow> r; Some (BInt (sint i)) }
     | BENCODE_STRING \<Rightarrow> do {
         (st, r) \<leftarrow> bencode_value_string v True True m;
         (ptr, len) \<leftarrow> r;
         bs \<leftarrow> read_bytes ptr len m;
         Some (BStr bs)
       }
     | BENCODE_LIST \<Rightarrow> observe_list (observe n m) v m
     | BENCODE_DICT \<Rightarrow> observe_dict (observe n m) v m
   }"

lemma those_upt:
  assumes "\<And>i. i < length xs \<Longrightarrow> f i = Some (xs ! i)"
  shows "those (map f [0..<length xs]) = Some xs"
proof -
  have "those (map f [0..<k]) = Some (take k xs)" if "k \<le> length xs" for k
    using that
  proof (induction k)
    case (Suc k)
    have "those (ys @ [y]) = do { zs \<leftarrow> those ys; z \<leftarrow> y; Some (zs @ [z]) }" for ys :: "'a option list" and y
      by (induction ys) (auto split: option.splits bind_splits)
    then show ?case using Suc assms [of k] by (simp add: take_Suc_conv_app_nth)
  qed simp
  from this [of "length xs"] show ?thesis by simp
qed

lemma observe_holds: "holds m t \<Longrightarrow> height t < n \<Longrightarrow> observe n m (Some (root t)) = Some (tree_val t)"
proof (induction n arbitrary: t)
  case (Suc n)
  note ty = holds_value_type [OF Suc.prems(1)]
  have str: ?case if v: "tree_val t = BStr bs" for bs
  proof -
    obtain ptr where "bencode_value_string (Some (root t)) True True m = Some (BENCODE_OK, Some (ptr, length bs))"
      "read_bytes ptr (length bs) m = Some bs" by (rule holds_value_string [OF Suc.prems(1) v])
    then show ?thesis using ty v by (cases t) simp_all
  qed
  have inner: "observe n m (Some (root u)) = Some (tree_val u)" if "holds m u" "height u < height t" for u
    using Suc.IH [OF that(1)] that(2) Suc.prems(2) by simp
  show ?case
  proof (cases t)
    case (GInt a al i)
    then show ?thesis using ty holds_value_int [of m a al i] Suc.prems(1) by simp
  next
    case (GList a al arr cap ts)
    have h: "holds m (GList a al arr cap ts)" using Suc.prems(1) GList by simp
    have "observe n m (Some (root (ts ! i))) = Some (tree_val (ts ! i))" if i: "i < length ts" for i
      by (rule inner) (use h list_children(1) [OF nth_mem [OF i]] i in \<open>simp_all add: GList del: height.simps\<close>)
    then have "those (map (\<lambda>i. do { c \<leftarrow> bencode_list_at (Some a) i m; observe n m c }) [0..<length (map tree_val ts)])
        = Some (map tree_val ts)"
      by (intro those_upt) (simp add: holds_list_at [OF h])
    then show ?thesis using ty holds_list_size [OF h] by (simp add: GList observe_list_def)
  next
    case (GDict a al arr cap es)
    have h: "holds m (GDict a al arr cap es)" using Suc.prems(1) GDict by simp
    let ?read = "\<lambda>i. do { (st, r) \<leftarrow> bencode_dict_at (Some a) i m; (key, len, c) \<leftarrow> r; k \<leftarrow> read_bytes (key_ptr key) len m;
        w \<leftarrow> observe n m (Some c); Some (k, w) }"
    have "?read i = Some (entry_vals es ! i)" if i: "i < length es" for i
    proof -
      obtain ka k u where e: "es ! i = (ka, k, u)" by (cases "es ! i")
      note at = holds_dict_at [OF h i e]
      have "height u < height t" unfolding GDict by (rule dict_children(1) [OF at(5)])
      from inner [OF at(4) this] show ?thesis using at(1,2) e i by simp
    qed
    then have "those (map ?read [0..<length (entry_vals es)]) = Some (entry_vals es)"
      by (intro those_upt) simp
    then show ?thesis using ty holds_dict_size [OF h] by (simp add: GDict observe_dict_def)
  qed (use str in simp_all)
qed simp

section \<open>The property\<close>

text \<open>C15: in every state that a client reaches by calls that follow the ownership rules, reading a value it holds back
  through the accessors of the interface (type, integer, string bytes, sizes, elements by index) gives exactly the value
  the client expects there.\<close>

theorem session_observes:
  assumes "session m0 m V" and "V a = Some v"
  shows "observe (Suc (emit_depth m)) m (Some a) = Some v"
proof -
  from session_covers [OF assms(1)] obtain T where cov: "covers m0 m V T" by blast
  have t: "root (T a) = a" "owned m (T a)" "tree_val (T a) = v" using coversD(3) [OF cov assms(2)] by simp_all
  have "height (T a) < Suc (emit_depth m)" using emit_depth_enough [OF coversD(1) [OF cov] t(2)] by simp
  then show ?thesis using observe_holds [of m "T a"] t by (simp add: owned_def del: observe.simps)
qed

text \<open>A client that has parsed the sample text.\<close>

lemma sample_parsed_session:
  obtains m V a where "session (buffer_mem sample_text) m V" and "V a = Some sample"
proof -
  let ?c = "Parse (BAt 0 0) sample_text None" and ?m = "buffer_mem sample_text"
  have start: "session ?m ?m Map.empty" by (rule session.start) (simp add: buffer_mem_def wf_mem_def)
  obtain T where "covers ?m ?m Map.empty T" using session_covers [OF start] by blast
  from served_all [OF this, of ?c] sample_ready(1) obtain st r m' V' where
    run: "perform ?c ?m = Some (st, r, m')" and out: "outcome ?c st r Map.empty V'" unfolding served_def by auto
  have "st = BENCODE_OK" using run sample_parse_result by auto
  then obtain a v where "parses_as None sample_text v" "V' = [a \<mapsto> v]" using out by (auto simp: outcome_def)
  then have "V' a = Some sample" using parses_as_unique [OF _ sample_parses] by simp
  moreover have "session ?m m' V'" by (rule session.call [OF start _ run out]) (use sample_ready(1) in simp)
  ultimately show thesis using that by blast
qed

theorem session_observes_witness:
  "\<exists>m V a. session (buffer_mem sample_text) m V
     \<and> observe (Suc (emit_depth m)) m (Some a) = Some (BDict [([97], BInt (-7)), ([98, 99], BList [BStr []])])"
proof -
  obtain m V a where "session (buffer_mem sample_text) m V" "V a = Some sample" by (rule sample_parsed_session)
  from session_observes [OF this] this(1) show ?thesis unfolding sample_def by blast
qed

end
