(* ===== verification/Cli.thy ===== *)
theory Cli
  imports Emit Dom
begin

text \<open>
  \<open>src/main.c\<close>, the command-line tool: reading the input, the human-readable printer, the structural
  statistics, the subcommands and \<open>main\<close>.  The world of the program is its memory, its standard streams
  and the files it can open.  The tool's own blocks come from \<open>malloc\<close> like the library's; the model
  keeps them apart as \<open>Foreign\<close>, memory that the library only reads.
\<close>

section \<open>The world\<close>

text \<open>An input stream delivers its bytes, then an error or the end of file; \<open>fread\<close> delivers less than it was
  asked for only there.\<close>

record in_stream =
  pending :: "byte list"
  broken :: bool

definition fread :: "nat \<Rightarrow> in_stream \<Rightarrow> byte list \<times> in_stream" where
  "fread n fp = (take n (pending fp), fp\<lparr>pending := drop n (pending fp)\<rparr>)"

record world =
  wmem :: mem
  wstdin :: in_stream
  wfiles :: "string \<Rightarrow> in_stream option"
  wout :: file_stream
  werr :: file_stream

text \<open>Text in the execution character set.\<close>

definition ascii :: "string \<Rightarrow> byte list" where
  "ascii s = map of_char s"

definition app_malloc :: "nat \<Rightarrow> mem \<Rightarrow> addr option \<times> mem" where
  "app_malloc n m = alloc_from Foreign n m"

definition app_free :: "addr option \<Rightarrow> mem \<Rightarrow> mem option" where
  "app_free ptr m = (case ptr of None \<Rightarrow> Some m | Some a \<Rightarrow> free_to Foreign a m)"

text \<open>\<open>realloc\<close> to a larger size: the block moves, or stays as it is when memory runs out.\<close>

definition app_realloc :: "addr \<Rightarrow> nat \<Rightarrow> mem \<Rightarrow> (addr option \<times> mem) option" where
  "app_realloc old n m =
     (case app_malloc n m of
        (None, m1) \<Rightarrow> Some (None, m1)
      | (Some fresh, m1) \<Rightarrow> do {
          (p, blk) \<leftarrow> store m1 old;
          bs \<leftarrow> bytes_of blk;
          m2 \<leftarrow> app_free (Some old) (put_block fresh (Foreign, Bytes (bs @ replicate (n - length bs) None)) m1);
          Some (Some fresh, m2)
        })"

section \<open>Reading the input\<close>

text \<open>The result: zero or one, the buffer and the capacity as the call leaves them.\<close>

definition grow_buf :: "addr \<Rightarrow> nat \<Rightarrow> mem \<Rightarrow> (int \<times> addr option \<times> nat \<times> mem) option" where
  "grow_buf buf cap m =
     (if cap > SIZE_MAX div 2 then do {
        m1 \<leftarrow> app_free (Some buf) m;
        Some (1, None, cap, m1)
      }
      else let new_cap = sz (cap * 2) in do {
        (grown, m1) \<leftarrow> app_realloc buf new_cap m;
        (case grown of
           None \<Rightarrow> do { m2 \<leftarrow> app_free (Some buf) m1; Some (1, None, cap, m2) }
         | Some g \<Rightarrow> Some (0, Some g, new_cap, m1))
      })"

definition open_input :: "string option \<Rightarrow> world \<Rightarrow> bool \<times> in_stream option" where
  "open_input path w =
     (let from_stdin = (path = None \<or> path = Some ''-'')
      in (from_stdin, if from_stdin then Some (wstdin w) else (case path of Some p \<Rightarrow> wfiles w p | None \<Rightarrow> None)))"

text \<open>The loop of \<open>read_all\<close>: every round but the last takes bytes from the stream.  The result: the return
  code, the buffer, the number of bytes, the stream and the memory.\<close>

function read_loop :: "addr \<Rightarrow> nat \<Rightarrow> nat \<Rightarrow> in_stream \<Rightarrow> mem
    \<Rightarrow> (int \<times> addr option \<times> nat \<times> in_stream \<times> mem) option" where
  "read_loop buf cap len fp m =
     (case (if len = cap then grow_buf buf cap m else Some (0, Some buf, cap, m)) of
        None \<Rightarrow> None
      | Some (rc, grown, cap1, m1) \<Rightarrow>
          if rc \<noteq> 0 then Some (1, None, len, fp, m1)
          else (case grown of
            None \<Rightarrow> None
          | Some b \<Rightarrow>
              (case fread (sz_sub cap1 len) fp of (got, fp1) \<Rightarrow>
                (case write_bytes b len got m1 of
                   None \<Rightarrow> None
                 | Some m2 \<Rightarrow>
                     let len1 = sz (len + length got) in
                     if length got = 0 then
                       (if broken fp1 then
                          (case app_free (Some b) m2 of None \<Rightarrow> None | Some m3 \<Rightarrow> Some (1, None, len1, fp1, m3))
                        else Some (0, Some b, len1, fp1, m2))
                     else read_loop b cap1 len1 fp1 m2))))"
  by pat_completeness auto
termination
  by (relation "measure (\<lambda>(buf, cap, len, fp, m). length (pending fp))") (auto simp: fread_def)

declare read_loop.simps [simp del]

text \<open>The result: the return code, the buffer and its size (which the caller reads when the code is zero), and
  the world.\<close>

definition read_all :: "string option \<Rightarrow> world \<Rightarrow> (int \<times> addr option \<times> nat \<times> world) option" where
  "read_all path w =
     (case open_input path w of
        (from_stdin, None) \<Rightarrow> Some (1, None, 0, w)
      | (from_stdin, Some fp) \<Rightarrow>
          (case app_malloc 4096 (wmem w) of
             (None, m1) \<Rightarrow> Some (1, None, 0, w\<lparr>wmem := m1\<rparr>)
           | (Some buf, m1) \<Rightarrow> do {
               (rc, out_buf, len, fp1, m2) \<leftarrow> read_loop buf 4096 0 fp m1;
               let w1 = w\<lparr>wmem := m2, wstdin := (if from_stdin then fp1 else wstdin w)\<rparr>;
               if rc \<noteq> 0 then Some (rc, None, 0, w1) else Some (0, out_buf, len, w1)
             }))"

section \<open>The printer\<close>

text \<open>The functions of the printer return zero, or minus one as soon as a write fails.\<close>

type_synonym printed = "(int \<times> file_stream) option"

definition print_text :: "byte list \<Rightarrow> file_stream \<Rightarrow> printed" where
  "print_text bs fp = (case fwrite bs fp of (n, fp1) \<Rightarrow> Some (if n = length bs then 0 else -1, fp1))"

text \<open>\<open>if (p != 0) return -1;\<close> before what follows.\<close>

definition and_then :: "(file_stream \<Rightarrow> printed) \<Rightarrow> (file_stream \<Rightarrow> printed) \<Rightarrow> file_stream \<Rightarrow> printed" where
  "and_then p q fp = do { (rc, fp1) \<leftarrow> p fp; if rc \<noteq> 0 then Some (-1, fp1) else q fp1 }"

primrec print_for :: "(nat \<Rightarrow> file_stream \<Rightarrow> printed) \<Rightarrow> nat \<Rightarrow> nat \<Rightarrow> file_stream \<Rightarrow> printed" where
  "print_for body i 0 fp = Some (0, fp)"
| "print_for body i (Suc n) fp = do {
     (rc, fp1) \<leftarrow> body i fp;
     if rc \<noteq> 0 then Some (-1, fp1) else print_for body (Suc i) n fp1
   }"

definition hex_digit :: "nat \<Rightarrow> byte" where
  "hex_digit n = (if n < 10 then word_of_nat (48 + n) else word_of_nat (87 + n))"

text \<open>What the loop body of \<open>print_string\<close> writes for a byte.\<close>

definition print_byte :: "byte \<Rightarrow> byte list" where
  "print_byte b =
     (if b = 34 \<or> b = 92 then [92, b]
      else if b \<ge> 32 \<and> b < 127 then [b]
      else [92, 120, hex_digit (unat b div 16), hex_digit (unat b mod 16)])"

definition print_string :: "bptr \<Rightarrow> nat \<Rightarrow> mem \<Rightarrow> file_stream \<Rightarrow> printed" where
  "print_string bytes len m =
     and_then (print_text [34])
       (and_then (print_for (\<lambda>i fp. do { bs \<leftarrow> read_bytes bytes len m; print_text (print_byte (bs ! i)) fp }) 0 len)
         (print_text [34]))"

definition print_indent :: "nat \<Rightarrow> file_stream \<Rightarrow> printed" where
  "print_indent level = print_for (\<lambda>i. print_text [32, 32]) 0 level"

definition print_list :: "(addr option \<Rightarrow> nat \<Rightarrow> file_stream \<Rightarrow> printed) \<Rightarrow> mem \<Rightarrow> addr option \<Rightarrow> nat
    \<Rightarrow> file_stream \<Rightarrow> printed" where
  "print_list print_child m v level fp = do {
     n \<leftarrow> bencode_list_size v m;
     if n = 0 then print_text [91, 93] fp
     else and_then (print_text [91, 10])
       (and_then (print_for (\<lambda>i.
            and_then (print_indent (sz (level + 1)))
              (and_then (\<lambda>fp. do { x \<leftarrow> bencode_list_at v i m; print_child x (sz (level + 1)) fp })
                (print_text (if sz (i + 1) < n then [44, 10] else [10])))) 0 n)
         (and_then (print_indent level) (print_text [93]))) fp
   }"

definition print_dict :: "(addr option \<Rightarrow> nat \<Rightarrow> file_stream \<Rightarrow> printed) \<Rightarrow> mem \<Rightarrow> addr option \<Rightarrow> nat
    \<Rightarrow> file_stream \<Rightarrow> printed" where
  "print_dict print_child m v level fp = do {
     n \<leftarrow> bencode_dict_size v m;
     if n = 0 then print_text [123, 125] fp
     else and_then (print_text [123, 10])
       (and_then (print_for (\<lambda>i fp. do {
            (st, r) \<leftarrow> bencode_dict_at v i m;
            if st \<noteq> BENCODE_OK then Some (-1, fp)
            else do {
              (k, klen, child) \<leftarrow> r;
              and_then (print_indent (sz (level + 1)))
                (and_then (print_string (key_ptr k) klen m)
                  (and_then (print_text [58, 32])
                    (and_then (print_child (Some child) (sz (level + 1)))
                      (print_text (if sz (i + 1) < n then [44, 10] else [10]))))) fp
            } }) 0 n)
         (and_then (print_indent level) (print_text [125]))) fp
   }"

text \<open>What \<open>fprintf\<close> prints for \<open>%lld\<close>.\<close>

definition print_lld :: "bencode_int_t \<Rightarrow> byte list" where
  "print_lld i = (let n = sint i in if n < 0 then 45 # dec (nat (- n)) else dec (nat n))"

primrec print_value :: "nat \<Rightarrow> mem \<Rightarrow> addr option \<Rightarrow> nat \<Rightarrow> file_stream \<Rightarrow> printed" where
  "print_value 0 m v level fp = None"
| "print_value (Suc n) m v level fp = do {
     ty \<leftarrow> bencode_value_type v m;
     (case ty of
        BENCODE_INT \<Rightarrow> do {
          (st, r) \<leftarrow> bencode_value_int v True m;
          if st \<noteq> BENCODE_OK then Some (-1, fp) else do { i \<leftarrow> r; print_text (print_lld i) fp }
        }
      | BENCODE_STRING \<Rightarrow> do {
          (st, r) \<leftarrow> bencode_value_string v True True m;
          if st \<noteq> BENCODE_OK then Some (-1, fp) else do { (bytes, len) \<leftarrow> r; print_string bytes len m fp }
        }
      | BENCODE_LIST \<Rightarrow> print_list (print_value n m) m v level fp
      | BENCODE_DICT \<Rightarrow> print_dict (print_value n m) m v level fp
      | BENCODE_INVALID \<Rightarrow> Some (-1, fp))
   }"

section \<open>Statistics\<close>

record stats =
  total_values :: nat
  ints :: nat
  strings :: nat
  lists :: nat
  dicts :: nat
  max_depth_seen :: nat
  total_string_bytes :: nat

primrec walk_for :: "(nat \<Rightarrow> stats \<Rightarrow> stats option) \<Rightarrow> nat \<Rightarrow> nat \<Rightarrow> stats \<Rightarrow> stats option" where
  "walk_for body i 0 st = Some st"
| "walk_for body i (Suc n) st = do { st1 \<leftarrow> body i st; walk_for body (Suc i) n st1 }"

definition visit :: "nat \<Rightarrow> stats \<Rightarrow> stats" where
  "visit level st =
     (let st1 = st\<lparr>total_values := sz (total_values st + 1)\<rparr>
      in if level > max_depth_seen st1 then st1\<lparr>max_depth_seen := level\<rparr> else st1)"

primrec walk :: "nat \<Rightarrow> mem \<Rightarrow> addr option \<Rightarrow> nat \<Rightarrow> stats \<Rightarrow> stats option" where
  "walk 0 m v level st = None"
| "walk (Suc n) m v level st =
     (if v = None then Some st
      else do {
        ty \<leftarrow> bencode_value_type v m;
        let st1 = visit level st;
        (case ty of
           BENCODE_INT \<Rightarrow> Some (st1\<lparr>ints := sz (ints st1 + 1)\<rparr>)
         | BENCODE_STRING \<Rightarrow> do {
             let st2 = st1\<lparr>strings := sz (strings st1 + 1)\<rparr>;
             (s, r) \<leftarrow> bencode_value_string v True True m;
             if s = BENCODE_OK
             then do {
               (bytes, len) \<leftarrow> r;
               Some (st2\<lparr>total_string_bytes := sz (total_string_bytes st2 + len)\<rparr>)
             }
             else Some st2
           }
         | BENCODE_LIST \<Rightarrow> do {
             let st2 = st1\<lparr>lists := sz (lists st1 + 1)\<rparr>;
             k \<leftarrow> bencode_list_size v m;
             walk_for (\<lambda>i st. do { x \<leftarrow> bencode_list_at v i m; walk n m x (sz (level + 1)) st }) 0 k st2
           }
         | BENCODE_DICT \<Rightarrow> do {
             let st2 = st1\<lparr>dicts := sz (dicts st1 + 1)\<rparr>;
             k \<leftarrow> bencode_dict_size v m;
             walk_for (\<lambda>i st. do {
               (s, r) \<leftarrow> bencode_dict_at v i m;
               if s = BENCODE_OK
               then do {
                 (key, klen, child) \<leftarrow> r;
                 let st3 = st\<lparr>strings := sz (strings st + 1)\<rparr>;
                 let st4 = st3\<lparr>total_string_bytes := sz (total_string_bytes st3 + klen)\<rparr>;
                 walk n m (Some child) (sz (level + 1)) st4
               }
               else Some st }) 0 k st2
           }
         | BENCODE_INVALID \<Rightarrow> Some st1)
      })"

end
