(* ===== verification/Cli_Main.thy ===== *)
theory Cli_Main
  imports Cli
begin

text \<open>
  \<open>src/main.c\<close>: loading the input, the subcommands, and \<open>main\<close>.  A command returns its exit code and the
  world it leaves.  Not modelled: the disposition of \<open>SIGPIPE\<close>, and the text mode of Windows.
\<close>

section \<open>Diagnostics\<close>

definition line :: "string \<Rightarrow> byte list" where
  "line s = ascii s @ [10]"

text \<open>\<open>fprintf(stderr, ...)\<close> with its result ignored.\<close>

definition complain :: "byte list \<Rightarrow> world \<Rightarrow> world" where
  "complain bs w = w\<lparr>werr := snd (fwrite bs (werr w))\<rparr>"

definition status_to_exit :: "bencode_status \<Rightarrow> int" where
  "status_to_exit st = (if st = BENCODE_OK then 0 else if st = BENCODE_ERR_IO then 2 else 1)"

section \<open>Loading\<close>

definition shown_path :: "string option \<Rightarrow> string" where
  "shown_path path = (case path of None \<Rightarrow> ''<stdin>'' | Some p \<Rightarrow> if p = ''-'' then ''<stdin>'' else p)"

definition strict_options :: bencode_parse_options where
  "strict_options = \<lparr>opt_max_depth = 0, opt_allocator = None, allow_trailing = 0\<rparr>"

text \<open>What is reported for input that does not parse.\<close>

definition diagnostic :: "string \<Rightarrow> bencode_status \<Rightarrow> nat \<Rightarrow> byte list" where
  "diagnostic prog st consumed =
     ascii (prog @ '': '' @ bencode_status_string (status_code st) @ '' at byte offset '') @ dec consumed @ [10]"

text \<open>The result: the exit code, the buffer, its size, the value, and the world.\<close>

definition load :: "string \<Rightarrow> string option \<Rightarrow> world
    \<Rightarrow> (int \<times> addr option \<times> nat \<times> addr option \<times> world) option" where
  "load prog path w = do {
     (rc, out_buf, out_size, w1) \<leftarrow> read_all path w;
     if rc \<noteq> 0 then
       Some (2, None, 0, None, complain (ascii (prog @ '': cannot read '' @ shown_path path) @ [10]) w1)
     else do {
       buf \<leftarrow> out_buf;
       (st, out_value, consumed, m1) \<leftarrow> bencode_parse (BAt buf 0) out_size (Some strict_options) True (wmem w1);
       if st \<noteq> BENCODE_OK then do {
         let w2 = complain (diagnostic prog st consumed) (w1\<lparr>wmem := m1\<rparr>);
         m2 \<leftarrow> app_free (Some buf) m1;
         Some (status_to_exit st, None, out_size, out_value, w2\<lparr>wmem := m2\<rparr>)
       }
       else Some (0, Some buf, out_size, out_value, w1\<lparr>wmem := m1\<rparr>)
     }
   }"

section \<open>Subcommands\<close>

text \<open>The end of every command: the value and the buffer are released.\<close>

definition finish :: "int \<Rightarrow> addr option \<Rightarrow> addr option \<Rightarrow> world \<Rightarrow> (int \<times> world) option" where
  "finish rc buf v w = do {
     m1 \<leftarrow> bencode_value_free v (wmem w);
     m2 \<leftarrow> app_free buf m1;
     Some (rc, w\<lparr>wmem := m2\<rparr>)
   }"

definition put_stdout :: "byte list \<Rightarrow> world \<Rightarrow> bool \<times> world" where
  "put_stdout bs w = (case fwrite bs (wout w) of (n, fp1) \<Rightarrow> (n = length bs, w\<lparr>wout := fp1\<rparr>))"

definition cmd_validate :: "string \<Rightarrow> string option \<Rightarrow> world \<Rightarrow> (int \<times> world) option" where
  "cmd_validate prog path w = do {
     (rc, buf, n, v, w1) \<leftarrow> load prog path w;
     if rc \<noteq> 0 then Some (rc, w1)
     else (case put_stdout (line ''ok'') w1 of (good, w2) \<Rightarrow>
       finish (if good then rc else 2) buf v w2)
   }"

definition cmd_print :: "string \<Rightarrow> string option \<Rightarrow> world \<Rightarrow> (int \<times> world) option" where
  "cmd_print prog path w = do {
     (rc, buf, n, v, w1) \<leftarrow> load prog path w;
     if rc \<noteq> 0 then Some (rc, w1)
     else do {
       (prc, fp1) \<leftarrow> print_value (emit_depth (wmem w1)) (wmem w1) v 0 (wout w1);
       (failed, fp2) \<leftarrow>
         (if prc \<noteq> 0 then Some (True, fp1)
          else do {
            (nl, fp3) \<leftarrow> print_text [10] fp1;
            if nl \<noteq> 0 then Some (True, fp3)
            else (case fflush fp3 of (good, fp4) \<Rightarrow> Some (\<not> good, fp4))
          });
       finish (if failed then 2 else rc) buf v (w1\<lparr>wout := fp2\<rparr>)
     }
   }"

definition cmd_roundtrip :: "string \<Rightarrow> string option \<Rightarrow> world \<Rightarrow> (int \<times> world) option" where
  "cmd_roundtrip prog path w = do {
     (rc, buf, n, v, w1) \<leftarrow> load prog path w;
     if rc \<noteq> 0 then Some (rc, w1)
     else do {
       (st, emitted, emitted_len, m1) \<leftarrow> bencode_emit_to_alloc v None True True (wmem w1);
       let w2 = w1\<lparr>wmem := m1\<rparr>;
       if st \<noteq> BENCODE_OK then
         finish (status_to_exit st) buf v
           (complain (ascii (prog @ '': emit failed: '' @ bencode_status_string (status_code st)) @ [10]) w2)
       else do {
         same \<leftarrow>
           (if emitted_len \<noteq> n then Some False
            else if n = 0 then Some True
            else do {
              e \<leftarrow> emitted;
              b \<leftarrow> buf;
              xs \<leftarrow> read_bytes (BAt e 0) n m1;
              ys \<leftarrow> read_bytes (BAt b 0) n m1;
              Some (memcmp xs ys n = 0)
            });
         (case (if \<not> same
                then (1, complain (ascii (prog @ '': roundtrip mismatch: input '') @ dec n
                            @ ascii '' bytes, output '' @ dec emitted_len @ line '' bytes'') w2)
                else (case put_stdout (line ''ok'') w2 of (good, w3) \<Rightarrow> (if good then rc else 2, w3)))
          of (rc1, w4) \<Rightarrow> do {
            m2 \<leftarrow> bencode_buffer_free None emitted (wmem w4);
            finish rc1 buf v (w4\<lparr>wmem := m2\<rparr>)
          })
       }
     }
   }"

definition empty_stats :: stats where
  "empty_stats = \<lparr>total_values = 0, ints = 0, strings = 0, lists = 0, dicts = 0, max_depth_seen = 0,
     total_string_bytes = 0\<rparr>"

definition stats_text :: "nat \<Rightarrow> stats \<Rightarrow> byte list" where
  "stats_text n st =
     ascii ''input_bytes:        '' @ dec n @ [10] @
     ascii ''total_values:       '' @ dec (total_values st) @ [10] @
     ascii ''  integers:         '' @ dec (ints st) @ [10] @
     ascii ''  strings:          '' @ dec (strings st) @ [10] @
     ascii ''  lists:            '' @ dec (lists st) @ [10] @
     ascii ''  dicts:            '' @ dec (dicts st) @ [10] @
     ascii ''max_depth_seen:     '' @ dec (max_depth_seen st) @ [10] @
     ascii ''total_string_bytes: '' @ dec (total_string_bytes st) @ [10]"

definition cmd_size :: "string \<Rightarrow> string option \<Rightarrow> world \<Rightarrow> (int \<times> world) option" where
  "cmd_size prog path w = do {
     (rc, buf, n, v, w1) \<leftarrow> load prog path w;
     if rc \<noteq> 0 then Some (rc, w1)
     else do {
       st \<leftarrow> walk (Suc (emit_depth (wmem w1))) (wmem w1) v 0 empty_stats;
       (case put_stdout (stats_text n st) w1 of (good, w2) \<Rightarrow>
         finish (if good then rc else 2) buf v w2)
     }
   }"

section \<open>Usage and dispatch\<close>

definition usage_text :: "string \<Rightarrow> byte list" where
  "usage_text prog =
     line (''Usage: '' @ prog @ '' <subcommand> [FILE]'') @
     line (''       '' @ prog @ '' {--help | -h}'') @
     line (''       '' @ prog @ '' {--version | -V}'') @
     line '''' @
     line ''Subcommands:'' @
     line ''  validate   Verify that FILE contains canonical Bencode.'' @
     line ''  print      Decode and pretty-print FILE in a human-readable form.'' @
     line ''  roundtrip  Decode then re-encode; assert bit-exact match.'' @
     line ''  size       Print structural statistics about FILE.'' @
     line '''' @
     line ''FILE may be `-` or omitted to read from standard input.'' @
     line ''Exit codes: 0 success; 1 invalid input or roundtrip mismatch; 2 I/O'' @
     line ''or unknown option.''"

definition print_usage :: "file_stream \<Rightarrow> string \<Rightarrow> int \<times> file_stream" where
  "print_usage stream prog =
     (let text = usage_text prog in
      case fwrite text stream of (n, fp1) \<Rightarrow> (if n \<noteq> length text then 2 else 0, fp1))"

definition usage_error :: "string \<Rightarrow> world \<Rightarrow> int \<times> world" where
  "usage_error prog w = (2, w\<lparr>werr := snd (print_usage (werr w) prog)\<rparr>)"

text \<open>The version string comes from a file that the build generates; it is a parameter.\<close>

definition bencode_version :: "string \<Rightarrow> string" where
  "bencode_version version = version"

definition main :: "string \<Rightarrow> string list \<Rightarrow> world \<Rightarrow> (int \<times> world) option" where
  "main version argv w =
     (let argc = length argv; prog = (if argc > 0 then argv ! 0 else ''bencode'') in
      if argc < 2 then Some (usage_error prog w)
      else let cmd = argv ! 1 in
        if cmd = ''--help'' \<or> cmd = ''-h'' then
          (case print_usage (wout w) prog of (rc, fp1) \<Rightarrow> Some (rc, w\<lparr>wout := fp1\<rparr>))
        else if cmd = ''--version'' \<or> cmd = ''-V'' then
          (case put_stdout (line (''bencode '' @ bencode_version version)) w of (good, w1) \<Rightarrow>
            Some (if good then 0 else 2, w1))
        else
          let next_arg = (if 2 < argc \<and> argv ! 2 = ''--'' then 3 else 2);
              file = (if next_arg < argc then Some (argv ! next_arg) else None)
          in
            if next_arg + 1 < argc then
              Some (usage_error prog (complain (line (prog @ '': extra argument: '' @ argv ! (next_arg + 1))) w))
            else if cmd = ''validate'' then cmd_validate prog file w
            else if cmd = ''print'' then cmd_print prog file w
            else if cmd = ''roundtrip'' then cmd_roundtrip prog file w
            else if cmd = ''size'' then cmd_size prog file w
            else Some (usage_error prog (complain (line (prog @ '': unknown subcommand: '' @ cmd)) w)))"

end
