(* ===== verification/Cli_Load.thy ===== *)
theory Cli_Load
  imports Cli_Main Dom_Props
begin

text \<open>
  What \<open>src/main.c\<close> does with memory: reading the whole input into a growing buffer, parsing it, and giving
  both back at the end of a command.
\<close>

section \<open>The tool's own blocks\<close>

text \<open>The buffer \<open>b\<close> is the only block that \<open>m\<close> has beyond \<open>m0\<close>; \<open>bs\<close> is what was read into it.\<close>

definition buffered :: "mem \<Rightarrow> mem \<Rightarrow> addr \<Rightarrow> byte list \<Rightarrow> nat \<Rightarrow> bool" where
  "buffered m0 m b bs cap \<longleftrightarrow> moves m0 {} m {b}
     \<and> (\<exists>blk rest. store m b = Some (Foreign, blk) \<and> bytes_of blk = Some (map Some bs @ rest)
          \<and> length bs + length rest = cap)"

lemma moves_put_own: "moves m0 {} m {b} \<Longrightarrow> moves m0 {} (put_block b x m) {b}"
proof -
  assume mv: "moves m0 {} m {b}"
  have "store m0 b = None" using movesD(1,10) [OF mv] moves_None by blast
  then show ?thesis using movesD [OF mv] by (auto simp: moves_def wf_mem_def put_block_def)
qed

lemma moves_free_own:
  assumes "moves m0 {} m {b}" and "store m b = Some (p, blk)"
  obtains m' where "free_to p b m = Some m'" and "moves m0 {} m' {}"
proof -
  note a = movesD [OF assms(1)]
  have "store m0 b = None" using a(1,10) moves_None by blast
  then have "moves m0 {} (m\<lparr>store := (store m)(b := None)\<rparr>) {}"
    using a by (auto simp: moves_def wf_mem_def)
  then show thesis using that assms(2) by (simp add: free_to_def)
qed

lemma free_buffer:
  assumes "buffered m0 m b bs cap"
  obtains m' where "app_free (Some b) m = Some m'" and "moves m0 {} m' {}"
proof -
  from assms obtain blk where "moves m0 {} m {b}" "store m b = Some (Foreign, blk)" unfolding buffered_def by blast
  from moves_free_own [OF this] obtain m' where "free_to Foreign b m = Some m'" "moves m0 {} m' {}" .
  then show thesis by (intro that) (simp_all add: app_free_def)
qed

lemma app_malloc_buffer:
  assumes "wf_mem m0"
  obtains (granted) b m where "app_malloc n m0 = (Some b, m)" and "buffered m0 m b [] n"
  | (refused) m where "app_malloc n m0 = (None, m)" and "moves m0 {} m {}" and "\<not> granting m0"
  using assms
proof (cases rule: alloc_from_cases [where p = Foreign and nbytes = n])
  case (granted a m)
  then show thesis using that(1) by (simp add: app_malloc_def buffered_def)
next
  case (refused m)
  then show thesis using that(2) by (simp add: app_malloc_def)
qed

section \<open>Growing the buffer\<close>

lemma app_realloc_buffer:
  assumes "buffered m0 m b bs cap" and "cap \<le> n"
  obtains (grown) b' m' where "app_realloc b n m = Some (Some b', m')" and "buffered m0 m' b' bs n"
  | (refused) m' where "app_realloc b n m = Some (None, m')" and "buffered m0 m' b bs cap" and "\<not> granting m0"
proof -
  from assms(1) obtain blk rest where mv: "moves m0 {} m {b}" and blk: "store m b = Some (Foreign, blk)"
    "bytes_of blk = Some (map Some bs @ rest)" "length bs + length rest = cap" by (auto simp: buffered_def)
  from movesD(2) [OF mv] show thesis
  proof (cases rule: alloc_from_cases [where p = Foreign and nbytes = n])
    case (granted a m1)
    let ?new = "Bytes (map Some bs @ rest @ replicate (n - cap) None)" and ?m2 = "put_block a (Foreign, Bytes (map Some bs @ rest @ replicate (n - cap) None)) m1"
    have ne: "a \<noteq> b" using granted(4) blk(1) by auto
    have old: "store m1 b = Some (Foreign, blk)" using movesD(11) [OF granted(2) blk(1)] .
    let ?m3 = "?m2\<lparr>store := (store ?m2)(b := None)\<rparr>"
    have "moves m0 {} m1 ({a} \<union> {b})"
      using moves_step [OF mv granted(2)] by simp
    then have "moves m0 {} ?m3 {a}"
      using ne moves_None [OF movesD(1) [OF mv]] movesD(10) [OF mv] by (auto simp: moves_def wf_mem_def put_block_def)
    moreover have "app_free (Some b) ?m2 = Some ?m3"
      using old ne by (simp add: app_free_def free_to_def)
    then have "app_realloc b n m = Some (Some a, ?m3)"
      using granted(1) old blk(2,3) by (simp add: app_realloc_def app_malloc_def)
    ultimately show thesis using that(1) ne assms(2) blk(3) by (auto simp: buffered_def)
  next
    case (refused m1)
    have "moves m0 {} m1 {b}" using moves_step [OF mv refused(2)] by simp
    moreover have "store m1 b = Some (Foreign, blk)" using movesD(11) [OF refused(2) blk(1)] .
    moreover have "\<not> granting m0" using refused(3) moves_granting [OF mv] by simp
    ultimately show thesis using that(2) refused(1) blk by (auto simp: buffered_def app_realloc_def app_malloc_def)
  qed
qed

lemma grow_buf_spec:
  assumes "buffered m0 m b bs cap"
  obtains (grown) b' m' where "grow_buf b cap m = Some (0, Some b', cap * 2, m')" and "buffered m0 m' b' bs (cap * 2)"
      and "cap * 2 \<le> SIZE_MAX"
  | (failed) m' where "grow_buf b cap m = Some (1, None, cap, m')" and "moves m0 {} m' {}"
      and "granting m0 \<longrightarrow> SIZE_MAX div 2 < cap"
proof (cases "cap > SIZE_MAX div 2")
  case True
  from free_buffer [OF assms] obtain m' where "app_free (Some b) m = Some m'" "moves m0 {} m' {}" .
  then show thesis using failed True by (simp add: grow_buf_def)
next
  case False
  then have cap: "cap * 2 \<le> SIZE_MAX" "sz (cap * 2) = cap * 2" by (simp_all add: sz_id SIZE_MAX_def)
  have "cap \<le> cap * 2" by simp
  with assms show thesis
  proof (cases rule: app_realloc_buffer)
    case (grown b' m')
    then show thesis using that(1) cap False by (simp add: grow_buf_def Let_def)
  next
    case (refused m')
    from free_buffer [OF refused(2)] obtain m2 where "app_free (Some b) m' = Some m2" "moves m0 {} m2 {}" .
    then show thesis using failed refused(1,3) cap False by (simp add: grow_buf_def Let_def)
  qed
qed

lemma write_buffer:
  assumes "buffered m0 m b bs cap" and "length bs + length got \<le> cap"
  obtains m' where "write_bytes b (length bs) got m = Some m'" and "buffered m0 m' b (bs @ got) cap"
proof -
  from assms(1) obtain blk rest where mv: "moves m0 {} m {b}" and blk: "store m b = Some (Foreign, blk)"
    "bytes_of blk = Some (map Some bs @ rest)" "length bs + length rest = cap" by (auto simp: buffered_def)
  let ?m = "put_block b (Foreign, Bytes (map Some bs @ map Some got @ drop (length got) rest)) m"
  have "write_bytes b (length bs) got m = Some ?m" using blk assms(2) by (simp add: write_bytes_def)
  moreover have "buffered m0 ?m b (bs @ got) cap"
    using moves_put_own [OF mv] assms(2) blk(3) by (auto simp: buffered_def)
  ultimately show thesis by (rule that)
qed

lemma buffered_borrowed:
  assumes "buffered m0 m b bs cap"
  shows "read_bytes (BAt b 0) (length bs) m = Some bs"
  using assms by (auto simp: buffered_def read_bytes_def slice_def)

section \<open>Reading everything\<close>

text \<open>The outcome of the reading loop: all bytes of the stream are in the buffer, or nothing is left.\<close>

definition read_done :: "mem \<Rightarrow> byte list \<Rightarrow> bool \<Rightarrow> (int \<times> addr option \<times> nat \<times> in_stream \<times> mem) option \<Rightarrow> bool" where
  "read_done m0 bs bad res \<longleftrightarrow>
     (\<exists>b m cap fp. res = Some (0, Some b, length bs, fp, m) \<and> buffered m0 m b bs cap \<and> cap \<le> SIZE_MAX \<and> \<not> bad)
   \<or> (\<exists>len m fp. res = Some (1, None, len, fp, m) \<and> moves m0 {} m {}
        \<and> (granting m0 \<longrightarrow> bad \<or> SIZE_MAX div 2 < length bs))"

lemma read_loop_spec:
  "buffered m0 m b bs cap \<Longrightarrow> 0 < cap \<Longrightarrow> cap \<le> SIZE_MAX \<Longrightarrow>
     read_done m0 (bs @ pending fp) (broken fp) (read_loop b cap (length bs) fp m)"
proof (induction "length (pending fp)" arbitrary: m b bs cap fp rule: less_induct)
  case less
  have le: "length bs \<le> cap" using less.prems(1) by (auto simp: buffered_def)
  have room: "read_done m0 (bs @ pending fp) (broken fp) (read_loop b cap (length bs) fp m)"
    if grow: "(if length bs = cap then grow_buf b cap m else Some (0, Some b, cap, m)) = Some (0, Some b1, cap1, m1)"
      and buf: "buffered m0 m1 b1 bs cap1" and less1: "length bs < cap1" and max: "cap1 \<le> SIZE_MAX" for b1 cap1 m1
  proof -
    let ?got = "take (cap1 - length bs) (pending fp)" and ?fp = "fp\<lparr>pending := drop (cap1 - length bs) (pending fp)\<rparr>"
    have sub: "sz_sub cap1 (length bs) = cap1 - length bs" using less1 by (simp add: sz_sub_def)
    obtain m2 where m2: "write_bytes b1 (length bs) ?got m1 = Some m2" "buffered m0 m2 b1 (bs @ ?got) cap1"
      by (rule write_buffer [OF buf, of ?got]) (use less1 in auto)
    have len: "sz (length bs + length ?got) = length (bs @ ?got)" using less1 max by (simp add: sz_id)
    show ?thesis
    proof (cases "pending fp = []")
      case False
      then have nz: "length ?got \<noteq> 0" using less1 by simp
      have "read_loop b cap (length bs) fp m = read_loop b1 cap1 (length (bs @ ?got)) ?fp m2"
        using grow sub m2(1) len nz by (subst read_loop.simps) (simp add: fread_def Let_def del: length_take)
      moreover have "read_done m0 ((bs @ ?got) @ pending ?fp) (broken ?fp) (read_loop b1 cap1 (length (bs @ ?got)) ?fp m2)"
      proof (rule less.hyps [OF _ m2(2) _ max])
        have "0 < length (pending fp)" using False by simp
        then have "length (drop (cap1 - length bs) (pending fp)) < length (pending fp)"
          unfolding length_drop using less1 by linarith
        then show "length (pending ?fp) < length (pending fp)" by simp
      qed (use less1 in simp)
      ultimately show ?thesis by simp
    next
      case True
      show ?thesis
      proof (cases "broken fp")
        case True2: True
        from free_buffer [OF m2(2)] obtain m3 where m3: "app_free (Some b1) m2 = Some m3" "moves m0 {} m3 {}" .
        have "read_loop b cap (length bs) fp m = Some (1, None, length bs, ?fp, m3)"
          using grow sub m2(1) len True True2 m3(1) by (subst read_loop.simps) (simp add: fread_def Let_def)
        then show ?thesis using m3(2) True2 by (auto simp: read_done_def)
      next
        case good: False
        have "read_loop b cap (length bs) fp m = Some (0, Some b1, length bs, ?fp, m2)"
          using grow sub m2(1) len True good by (subst read_loop.simps) (simp add: fread_def Let_def)
        then show ?thesis using m2(2) True good max by (auto simp: read_done_def)
      qed
    qed
  qed
  show ?case
  proof (cases "length bs = cap")
    case False
    then show ?thesis using room [OF _ less.prems(1)] less.prems(3) le by simp
  next
    case full: True
    from less.prems(1) show ?thesis
    proof (cases rule: grow_buf_spec)
      case (grown b' m')
      then show ?thesis using room [of b' "cap * 2" m'] full less.prems(2) by simp
    next
      case (failed m')
      then have "read_loop b cap (length bs) fp m = Some (1, None, length bs, fp, m')"
        using full by (subst read_loop.simps) simp
      then show ?thesis using failed(2,3) full by (auto simp: read_done_def)
    qed
  qed
qed

section \<open>The input of a command\<close>

definition input_stream :: "string option \<Rightarrow> world \<Rightarrow> in_stream option" where
  "input_stream path w = snd (open_input path w)"

text \<open>The stream the command reads, and the world after it was read.\<close>

definition world_read :: "world \<Rightarrow> world \<Rightarrow> bool" where
  "world_read w w1 \<longleftrightarrow> wfiles w1 = wfiles w \<and> wout w1 = wout w \<and> werr w1 = werr w"

lemma read_all_cases:
  assumes "wf_mem (wmem w)"
  obtains (all) fp b cap w1 where "input_stream path w = Some fp" and "\<not> broken fp"
      and "read_all path w = Some (0, Some b, length (pending fp), w1)"
      and "buffered (wmem w) (wmem w1) b (pending fp) cap" and "length (pending fp) \<le> SIZE_MAX" and "world_read w w1"
  | (failed) w1 where "read_all path w = Some (1, None, 0, w1)" and "moves (wmem w) {} (wmem w1) {}" and "world_read w w1"
      and "\<And>fp. granting (wmem w) \<Longrightarrow> input_stream path w = Some fp \<Longrightarrow> broken fp \<or> SIZE_MAX div 2 < length (pending fp)"
proof (cases "open_input path w")
  case (Pair from_stdin s)
  show thesis
  proof (cases s)
    case None
    then show thesis using failed [of w] Pair moves_refl [OF assms, of "{}"]
      by (simp add: read_all_def input_stream_def world_read_def)
  next
    case (Some fp)
    from assms show thesis
    proof (cases rule: app_malloc_buffer [where n = 4096])
      case (granted b m)
      have "read_done (wmem w) (pending fp) (broken fp) (read_loop b 4096 0 fp m)"
        using read_loop_spec [OF granted(2), of fp] by (simp add: SIZE_MAX_def)
      then consider
          b2 m2 cap fp2 where "read_loop b 4096 0 fp m = Some (0, Some b2, length (pending fp), fp2, m2)"
            "buffered (wmem w) m2 b2 (pending fp) cap" "cap \<le> SIZE_MAX" "\<not> broken fp"
        | len m2 fp2 where "read_loop b 4096 0 fp m = Some (1, None, len, fp2, m2)" "moves (wmem w) {} m2 {}"
            "granting (wmem w) \<longrightarrow> broken fp \<or> SIZE_MAX div 2 < length (pending fp)"
        unfolding read_done_def by blast
      then show thesis
      proof cases
        case 1
        have "length (pending fp) \<le> cap" using 1(2) by (auto simp: buffered_def)
        then show thesis using all [of fp b2 _ cap] Pair Some granted(1) 1
          by (simp add: read_all_def input_stream_def world_read_def)
      next
        case 2
        let ?w1 = "w\<lparr>wmem := m2, wstdin := (if from_stdin then fp2 else wstdin w)\<rparr>"
        have "read_all path w = Some (1, None, 0, ?w1)" using Pair Some granted(1) 2(1) by (simp add: read_all_def)
        then show thesis
          by (rule failed) (use 2 Pair Some in \<open>auto simp: input_stream_def world_read_def\<close>)
      qed
    next
      case (refused m)
      then show thesis using failed [of "w\<lparr>wmem := m\<rparr>"] Pair Some
        by (simp add: read_all_def input_stream_def world_read_def)
    qed
  qed
qed

section \<open>Loading\<close>

text \<open>An input is valid when it is the encoding of a canonical value within the default nesting limit.\<close>

definition valid_input :: "byte list \<Rightarrow> bool" where
  "valid_input bs \<longleftrightarrow> (\<exists>v. canonical BENCODE_DEFAULT_MAX_DEPTH v \<and> bs = encode v)"

lemma parses_as_strict: "parses_as (Some strict_options) bs v \<longleftrightarrow> canonical BENCODE_DEFAULT_MAX_DEPTH v \<and> bs = encode v"
  by (auto simp: parses_as_def options_depth_def options_trailing_def strict_options_def effective_depth_def
      BENCODE_DEFAULT_MAX_DEPTH_def BENCODE_INTERNAL_MAX_DEPTH_def)

text \<open>A command that has loaded its input owns the buffer and the tree, and nothing else.\<close>

definition loaded :: "world \<Rightarrow> mem \<Rightarrow> addr \<Rightarrow> byte list \<Rightarrow> gtree \<Rightarrow> bool" where
  "loaded w m b bs t \<longleftrightarrow> owned m t \<and> b \<notin> set (blocks t) \<and> moves (wmem w) {} m (insert b (set (blocks t)))
     \<and> (\<exists>blk. store m b = Some (Foreign, blk)) \<and> read_bytes (BAt b 0) (length bs) m = Some bs"

lemma complain_simps [simp]:
  "wmem (complain bs w) = wmem w" "wout (complain bs w) = wout w" "wfiles (complain bs w) = wfiles w"
  "wstdin (complain bs w) = wstdin w"
  by (simp_all add: complain_def)

lemma parse_error_exit: "st \<in> parse_errors \<union> {BENCODE_ERR_NOMEM} \<Longrightarrow> status_to_exit st = 1 \<and> st \<noteq> BENCODE_OK"
  by (auto simp: status_to_exit_def parse_errors_def scan_errors_def)

lemma bytes_borrowed:
  assumes "store m b = Some (Foreign, blk)" and "bytes_of blk = Some (map Some bs @ rest)"
  shows "borrowed m (BAt b 0) bs"
proof (cases blk)
  case (Raw n)
  have "bs = []"
  proof (rule ccontr)
    assume "bs \<noteq> []"
    then have "Some (hd bs) \<in> set (replicate n None)" using assms(2) Raw by (cases bs) auto
    then show False by simp
  qed
  then show ?thesis by (simp add: borrowed_def)
qed (use assms in \<open>simp_all add: borrowed_def slice_def\<close>)

text \<open>After the input was read into the buffer \<open>b\<close>: the parse, and the release of the buffer when it fails.\<close>

lemma load_parse:
  assumes "read_all path w = Some (0, Some b, n, w1)"
  shows "load prog path w = do {
      (st, out_value, consumed, m1) \<leftarrow> bencode_parse (BAt b 0) n (Some strict_options) True (wmem w1);
      if st \<noteq> BENCODE_OK then do {
        m2 \<leftarrow> app_free (Some b) m1;
        Some (status_to_exit st, None, n, out_value,
          (complain (diagnostic prog st consumed) (w1\<lparr>wmem := m1\<rparr>))\<lparr>wmem := m2\<rparr>)
      }
      else Some (0, Some b, n, out_value, w1\<lparr>wmem := m1\<rparr>)
    }"
  by (simp add: load_def assms Let_def cong: if_cong)

lemma load_failure:
  assumes "read_all path w = Some (0, Some b, n, w1)" and "buffered (wmem w) (wmem w1) b bs cap" and "world_read w w1"
    and "bencode_parse (BAt b 0) n (Some strict_options) True (wmem w1) = Some (st, None, c, m1)"
    and "st \<in> parse_errors \<union> {BENCODE_ERR_NOMEM}" and "moves (wmem w1) {} m1 {}"
  obtains w2 where "load prog path w = Some (1, None, n, None, w2)" and "moves (wmem w) {} (wmem w2) {}"
    and "wout w2 = wout w" and "werr w2 = werr (complain (diagnostic prog st c) w)"
proof -
  from assms(2) obtain blk where mv: "moves (wmem w) {} (wmem w1) {b}" and blk: "store (wmem w1) b = Some (Foreign, blk)"
    by (auto simp: buffered_def)
  have "moves (wmem w) {} m1 {b}" using moves_step [OF mv assms(6)] by simp
  moreover have "store m1 b = Some (Foreign, blk)" using movesD(11) [OF assms(6) blk] .
  ultimately obtain m2 where m2: "free_to Foreign b m1 = Some m2" "moves (wmem w) {} m2 {}" by (rule moves_free_own)
  let ?w2 = "(complain (diagnostic prog st c) (w1\<lparr>wmem := m1\<rparr>))\<lparr>wmem := m2\<rparr>"
  show thesis
  proof (rule that)
    show "load prog path w = Some (1, None, n, None, ?w2)"
      using parse_error_exit [OF assms(5)] m2(1) by (simp add: load_parse [OF assms(1)] assms(4) app_free_def)
    show "werr ?w2 = werr (complain (diagnostic prog st c) w)" using assms(3) by (simp add: complain_def world_read_def)
  qed (use assms(3) m2(2) in \<open>simp_all add: world_read_def\<close>)
qed

lemma load_success:
  assumes "buffered (wmem w) m b bs cap" and "moves m {} m' (set (blocks t))" and "owned m' t"
  shows "loaded w m' b bs t"
proof -
  from assms(1) obtain blk rest where mv: "moves (wmem w) {} m {b}" and blk: "store m b = Some (Foreign, blk)"
    "bytes_of blk = Some (map Some bs @ rest)" by (auto simp: buffered_def)
  have b: "{b} \<subseteq> {..<next_addr m}" using movesD(4) [OF mv] .
  have own: "store m' b = Some (Foreign, blk)" using movesD(11) [OF assms(2) blk(1)] .
  have "moves m ({} \<union> {b}) m' (set (blocks t) \<union> {b})" by (rule moves_frame [OF assms(2) b]) simp
  then have "moves (wmem w) {} m' (insert b (set (blocks t)))" using moves_trans [OF mv] by simp
  moreover have "b \<notin> set (blocks t)" using moves_apart [OF assms(2) b] by simp
  moreover have "read_bytes (BAt b 0) (length bs) m' = Some bs" using own blk(2) by (simp add: read_bytes_def slice_def)
  ultimately show ?thesis using assms(3) own by (simp add: loaded_def)
qed

lemma buffered_parse_ready:
  assumes "buffered m0 m b bs cap" and "length bs \<le> SIZE_MAX"
  shows "parse_ready (Some strict_options) (BAt b 0) bs m"
proof -
  from assms(1) obtain blk rest where "moves m0 {} m {b}" "store m b = Some (Foreign, blk)"
    "bytes_of blk = Some (map Some bs @ rest)" by (auto simp: buffered_def)
  then show ?thesis using bytes_borrowed [of m b blk bs rest] movesD(2) [of m0 "{}" m "{b}"] assms(2)
    by (simp add: parse_ready_def options_allocator_def strict_options_def alloc_ok_def)
qed

lemma load_cases:
  assumes "wf_mem (wmem w)"
  obtains (unreadable) w1 where "load prog path w = Some (2, None, 0, None, w1)"
      and "moves (wmem w) {} (wmem w1) {}" and "wout w1 = wout w"
      and "\<And>fp. granting (wmem w) \<Longrightarrow> input_stream path w = Some fp \<Longrightarrow> broken fp \<or> SIZE_MAX div 2 < length (pending fp)"
  | (rejected) fp st c w1 where "load prog path w = Some (1, None, length (pending fp), None, w1)"
      and "input_stream path w = Some fp" and "\<not> broken fp"
      and "moves (wmem w) {} (wmem w1) {}" and "wout w1 = wout w"
      and "werr w1 = werr (complain (diagnostic prog st c) w)"
      and "granting (wmem w) \<Longrightarrow> length (pending fp) \<le> 2 ^ 58 \<Longrightarrow>
        \<not> valid_input (pending fp) \<and> c \<le> length (pending fp) \<and> rejected_as (Some strict_options) (pending fp) st c"
  | (loaded) fp b t w1 where "load prog path w = Some (0, Some b, length (pending fp), Some (root t), w1)"
      and "input_stream path w = Some fp" and "\<not> broken fp" and "loaded w (wmem w1) b (pending fp) t"
      and "canonical BENCODE_DEFAULT_MAX_DEPTH (tree_val t)" and "pending fp = encode (tree_val t)"
      and "length (pending fp) \<le> SIZE_MAX" and "wout w1 = wout w" and "werr w1 = werr w"
  using assms
proof (cases rule: read_all_cases [where path = path])
  case (failed w1)
  then show thesis using that(1) [of "complain _ w1"] by (simp add: load_def world_read_def)
next
  case (all fp b cap w1)
  note failure = load_failure [OF all(3,4,6), of _ _ _ prog]
  have grant: "granting (wmem w1) \<longleftrightarrow> granting (wmem w)" using all(4) moves_granting by (auto simp: buffered_def)
  from buffered_parse_ready [OF all(4,5)] show thesis
  proof (cases rule: bencode_parse_cases)
    case (parsed v rest t m')
    have v: "canonical BENCODE_DEFAULT_MAX_DEPTH v" "pending fp = encode v"
      using parsed(1) by (simp_all add: parses_as_strict)
    have "load prog path w = Some (0, Some b, length (pending fp), Some (root t), w1\<lparr>wmem := m'\<rparr>)"
      using parsed(3) by (simp add: load_parse [OF all(3)])
    then show thesis using that(3) [of b fp t "w1\<lparr>wmem := m'\<rparr>"] load_success [OF all(4) parsed(6,4)] all(1,2,5,6) parsed(5) v
      by (simp add: world_read_def)
  next
    case (rejected st c m')
    have no: "\<not> valid_input (pending fp) \<and> c \<le> length (pending fp) \<and> rejected_as (Some strict_options) (pending fp) st c"
      using rejected(1,3,6) by (auto simp: parses_as_strict valid_input_def)
    obtain w2 where w2: "load prog path w = Some (1, None, length (pending fp), None, w2)"
      "moves (wmem w) {} (wmem w2) {}" "wout w2 = wout w" "werr w2 = werr (complain (diagnostic prog st c) w)"
      by (rule failure [OF rejected(2) UnI1 [OF rejected(4)] rejected(5)])
    show thesis by (rule that(2) [OF w2(1) all(1,2) w2(2-4) no])
  next
    case (nomem c m')
    have "BENCODE_ERR_NOMEM \<in> parse_errors \<union> {BENCODE_ERR_NOMEM}" by simp
    then obtain w2 where w2: "load prog path w = Some (1, None, length (pending fp), None, w2)"
      "moves (wmem w) {} (wmem w2) {}" "wout w2 = wout w" "werr w2 = werr (complain (diagnostic prog BENCODE_ERR_NOMEM c) w)"
      by (rule failure [OF nomem(1) _ nomem(3)])
    show thesis by (rule that(2) [OF w2(1) all(1,2) w2(2-4)]) (use nomem(4) grant in simp_all)
  qed
qed

lemma finish_spec:
  assumes "loaded w m b bs t" and "wmem w1 = m"
  obtains m' where "finish rc (Some b) (Some (root t)) w1 = Some (rc, w1\<lparr>wmem := m'\<rparr>)" and "moves (wmem w) {} m' {}"
proof -
  have l: "owned m t" "b \<notin> set (blocks t)" "moves (wmem w) {} m (insert b (set (blocks t)))"
    using assms(1) by (simp_all add: loaded_def)
  obtain blk where blk: "store m b = Some (Foreign, blk)" using assms(1) by (auto simp: loaded_def)
  obtain m2 where m2: "bencode_value_free (Some (root t)) m = Some m2" "moves m (set (blocks t)) m2 {}"
    by (rule bencode_value_free_spec [OF movesD(2) [OF l(3)] l(1)])
  have "moves (wmem w) {} m2 ({} \<union> (insert b (set (blocks t)) - set (blocks t)))"
    by (rule moves_step [OF l(3) m2(2)]) blast
  moreover have "{} \<union> (insert b (set (blocks t)) - set (blocks t)) = {b}" using l(2) by blast
  ultimately have "moves (wmem w) {} m2 {b}" by simp
  moreover have "store m2 b = Some (Foreign, blk)" using movesD(11) [OF m2(2) blk] .
  ultimately obtain m3 where "free_to Foreign b m2 = Some m3" "moves (wmem w) {} m3 {}" by (rule moves_free_own)
  then show thesis using that m2(1) assms(2) by (simp add: finish_def app_free_def)
qed

end
