(* ===== verification/Cli_Print.thy ===== *)
theory Cli_Print
  imports Cli Owned_Access Emit_Sinks
begin

text \<open>
  The printer of \<open>src/main.c\<close> writes the rendering of the value that the tree stands for, given here as a
  function of the value alone.
\<close>

section \<open>The rendering\<close>

definition quoted :: "byte list \<Rightarrow> byte list" where
  "quoted b = [34] @ concat (map print_byte b) @ [34]"

definition indented :: "nat \<Rightarrow> byte list" where
  "indented d = concat (replicate d [32, 32])"

text \<open>One line per element, with commas between them.\<close>

fun lined :: "byte list list \<Rightarrow> byte list" where
  "lined [] = []"
| "lined [x] = x @ [10]"
| "lined (x # xs) = x @ [44, 10] @ lined xs"

fun render :: "nat \<Rightarrow> bval \<Rightarrow> byte list" where
  "render d (BInt i) = enc_int i"
| "render d (BStr b) = quoted b"
| "render d (BList vs) =
     (if vs = [] then [91, 93]
      else [91, 10] @ lined (map (\<lambda>v. indented (Suc d) @ render (Suc d) v) vs) @ indented d @ [93])"
| "render d (BDict es) =
     (if es = [] then [123, 125]
      else [123, 10] @ lined (map (\<lambda>(k, v). indented (Suc d) @ quoted k @ [58, 32] @ render (Suc d) v) es)
        @ indented d @ [125])"

lemma lined_chunks:
  "lined xs = concat (map (\<lambda>i. xs ! i @ (if Suc i < length xs then [44, 10] else [10])) [0..<length xs])"
proof (induction xs rule: lined.induct)
  case (3 x y xs)
  have "[0..<length (x # y # xs)] = 0 # map Suc [0..<length (y # xs)]"
    by (simp add: upt_conv_Cons map_Suc_upt del: upt_Suc)
  then show ?case using 3 by (simp add: comp_def del: upt_Suc)
qed simp_all

section \<open>Printing\<close>

text \<open>\<open>prints bs p\<close>: the function \<open>p\<close> writes \<open>bs\<close> and returns zero, or a prefix of it and minus one.\<close>

definition prints :: "byte list \<Rightarrow> (file_stream \<Rightarrow> printed) \<Rightarrow> bool" where
  "prints bs p \<longleftrightarrow> (\<forall>fp. \<exists>rc fp'. p fp = Some (rc, fp') \<and> same_stream fp fp'
     \<and> (if rc = 0 then written fp' = written fp @ bs
        else rc = -1 \<and> \<not> reliable fp \<and> (\<exists>q. prefix q bs \<and> written fp' = written fp @ q)))"

lemma same_stream_refl [simp]: "same_stream fp fp"
  by (simp add: same_stream_def)

lemma same_stream_trans: "same_stream a b \<Longrightarrow> same_stream b c \<Longrightarrow> same_stream a c"
  by (simp add: same_stream_def)

lemma same_stream_reliable: "same_stream a b \<Longrightarrow> reliable b = reliable a"
  by (simp add: same_stream_def reliable_def)

lemma prints_cases:
  assumes "prints bs p"
  obtains (all) fp' where "p fp = Some (0, fp')" and "same_stream fp fp'" and "written fp' = written fp @ bs"
  | (part) fp' q where "p fp = Some (-1, fp')" and "same_stream fp fp'" and "\<not> reliable fp" and "prefix q bs"
      and "written fp' = written fp @ q"
proof -
  from assms obtain rc fp' where p: "p fp = Some (rc, fp')" "same_stream fp fp'"
    and r: "if rc = 0 then written fp' = written fp @ bs
        else rc = -1 \<and> \<not> reliable fp \<and> (\<exists>q. prefix q bs \<and> written fp' = written fp @ q)"
    unfolding prints_def by blast
  show thesis
  proof (cases "rc = 0")
    case True
    then show thesis using all p r by simp
  next
    case False
    then show thesis using part p r by auto
  qed
qed

lemma printsI:
  assumes "\<And>fp. (\<exists>fp'. p fp = Some (0, fp') \<and> same_stream fp fp' \<and> written fp' = written fp @ bs)
    \<or> (\<exists>fp' q. p fp = Some (-1, fp') \<and> same_stream fp fp' \<and> \<not> reliable fp \<and> prefix q bs
         \<and> written fp' = written fp @ q)"
  shows "prints bs p"
  unfolding prints_def
proof
  fix fp
  from assms [of fp] show "\<exists>rc fp'. p fp = Some (rc, fp') \<and> same_stream fp fp'
     \<and> (if rc = 0 then written fp' = written fp @ bs
        else rc = -1 \<and> \<not> reliable fp \<and> (\<exists>q. prefix q bs \<and> written fp' = written fp @ q))"
    by (elim disjE exE) (rule exI [of _ 0], simp, rule exI [of _ "-1"], auto)
qed

lemma prints_text: "prints bs (print_text bs)"
proof (rule printsI)
  fix fp :: file_stream
  define n where "n = min (fwrite_answers fp (fcalls fp) (length bs)) (length bs)"
  let ?fp = "fp\<lparr>written := written fp @ take n bs, fcalls := fcalls fp + 1\<rparr>"
  have run: "print_text bs fp = Some (if n = length bs then 0 else -1, ?fp)"
    by (simp add: print_text_def fwrite_def Let_def n_def)
  have same: "same_stream fp ?fp" by (simp add: same_stream_def)
  show "(\<exists>fp'. print_text bs fp = Some (0, fp') \<and> same_stream fp fp' \<and> written fp' = written fp @ bs)
    \<or> (\<exists>fp' q. print_text bs fp = Some (-1, fp') \<and> same_stream fp fp' \<and> \<not> reliable fp \<and> prefix q bs
         \<and> written fp' = written fp @ q)"
  proof (cases "n = length bs")
    case True
    then show ?thesis using run same by simp
  next
    case False
    then have "\<not> length bs \<le> fwrite_answers fp (fcalls fp) (length bs)" by (simp add: n_def)
    then have "\<not> reliable fp" unfolding reliable_def by blast
    then show ?thesis using run same False take_is_prefix [of n bs]
      by (intro disjI2 exI [of _ ?fp] exI [of _ "take n bs"]) simp
  qed
qed

lemma prints_then:
  assumes "prints xs p" and "prints ys q"
  shows "prints (xs @ ys) (and_then p q)"
proof (rule printsI)
  fix fp :: file_stream
  show "(\<exists>fp'. and_then p q fp = Some (0, fp') \<and> same_stream fp fp' \<and> written fp' = written fp @ xs @ ys)
    \<or> (\<exists>fp' r. and_then p q fp = Some (-1, fp') \<and> same_stream fp fp' \<and> \<not> reliable fp \<and> prefix r (xs @ ys)
         \<and> written fp' = written fp @ r)"
    using assms(1)
  proof (cases rule: prints_cases [where fp = fp])
    case (all fp1)
    from assms(2) show ?thesis
    proof (cases rule: prints_cases [where fp = fp1])
      case all2: (all fp2)
      have "and_then p q fp = Some (0, fp2)" using all(1) all2(1) by (simp add: and_then_def)
      then show ?thesis using all(3) all2(3) same_stream_trans [OF all(2) all2(2)] by simp
    next
      case (part fp2 r)
      have "prefix (xs @ r) (xs @ ys)" using part(4) by simp
      moreover have "and_then p q fp = Some (-1, fp2)" using all(1) part(1) by (simp add: and_then_def)
      moreover have "\<not> reliable fp" using part(3) same_stream_reliable [OF all(2)] by simp
      ultimately show ?thesis using all(3) part(5) same_stream_trans [OF all(2) part(2)]
        by (intro disjI2 exI [of _ fp2] exI [of _ "xs @ r"]) simp
    qed
  next
    case (part fp1 r)
    then have "and_then p q fp = Some (-1, fp1)" "prefix r (xs @ ys)"
      by (simp_all add: and_then_def prefix_prefix)
    then show ?thesis using part(2,3,5) by blast
  qed
qed

lemma prints_nothing: "prints [] (\<lambda>fp. Some (0, fp))"
  by (rule printsI) simp

lemma prints_for:
  "(\<And>i. lo \<le> i \<Longrightarrow> i < lo + n \<Longrightarrow> prints (chunk i) (body i)) \<Longrightarrow>
     prints (concat (map chunk [lo..<lo + n])) (print_for body lo n)"
proof (induction n arbitrary: lo)
  case 0
  have "print_for body lo 0 = (\<lambda>fp. Some (0, fp))" by (rule ext) simp
  then show ?case using prints_nothing by simp
next
  case (Suc n)
  have eq: "print_for body lo (Suc n) = and_then (body lo) (print_for body (Suc lo) n)"
    by (rule ext) (simp add: and_then_def)
  have "prints (concat (map chunk [Suc lo..<Suc lo + n])) (print_for body (Suc lo) n)"
    using Suc.prems by (intro Suc.IH) simp_all
  moreover have "prints (chunk lo) (body lo)" using Suc.prems by simp
  ultimately have "prints (chunk lo @ concat (map chunk [Suc lo..<Suc lo + n])) (print_for body lo (Suc n))"
    unfolding eq by (rule prints_then [rotated])
  then show ?case by (simp add: upt_conv_Cons del: upt_Suc print_for.simps)
qed

lemma prints_cong: "prints bs p \<Longrightarrow> (\<And>fp. q fp = p fp) \<Longrightarrow> prints bs q"
  by (simp add: prints_def)

section \<open>Strings and indentation\<close>

lemma prints_string:
  assumes "read_bytes ptr (length bs) m = Some bs"
  shows "prints (quoted bs) (print_string ptr (length bs) m)"
proof -
  have "prints (concat (map (\<lambda>i. print_byte (bs ! i)) [0..<0 + length bs]))
      (print_for (\<lambda>i fp. do { bs \<leftarrow> read_bytes ptr (length bs) m; print_text (print_byte (bs ! i)) fp }) 0 (length bs))"
    by (rule prints_for) (simp add: assms prints_text)
  moreover have "map (\<lambda>i. print_byte (bs ! i)) [0..<0 + length bs] = map print_byte bs"
    by (rule map_upt_eqI) simp_all
  ultimately show ?thesis unfolding quoted_def print_string_def
    by (intro prints_then prints_text) simp
qed

lemma prints_indent: "prints (indented d) (print_indent d)"
proof -
  have "prints (concat (map (\<lambda>i. [32, 32]) [0..<0 + d])) (print_for (\<lambda>i. print_text [32, 32]) 0 d)"
    by (rule prints_for) (rule prints_text)
  moreover have "map (\<lambda>i. [32, 32 :: byte]) [0..<0 + d] = replicate d [32, 32]"
    by (simp add: map_replicate_const)
  ultimately show ?thesis by (simp add: indented_def print_indent_def)
qed

section \<open>Values\<close>

lemma prints_lined:
  assumes "n = length xs" and "n \<le> SIZE_MAX"
    and "\<And>i. i < n \<Longrightarrow> prints (xs ! i @ (if sz (i + 1) < n then [44, 10] else [10])) (body i)"
  shows "prints (lined xs) (print_for body 0 n)"
proof -
  have "prints (concat (map (\<lambda>i. xs ! i @ (if Suc i < length xs then [44, 10] else [10])) [0..<0 + n]))
      (print_for body 0 n)"
  proof (rule prints_for)
    fix i
    assume i: "0 \<le> i" "i < 0 + n"
    then have "sz (i + 1) = Suc i" using assms(2) by (simp add: sz_id)
    then show "prints (xs ! i @ (if Suc i < length xs then [44, 10] else [10])) (body i)"
      using assms(3) [of i] i assms(1) by simp
  qed
  then show ?thesis using assms(1) by (simp add: lined_chunks)
qed

lemma prints_list:
  assumes h: "holds m (GList a al arr cap ts)" and d: "Suc d \<le> SIZE_MAX"
    and child: "\<And>t. t \<in> set ts \<Longrightarrow> prints (render (Suc d) (tree_val t)) (f (Some (root t)) (Suc d))"
  shows "prints (render d (BList (map tree_val ts))) (print_list f m (Some a) d)"
proof (cases "ts = []")
  case True
  then show ?thesis using holds_list_size [OF h] by (intro prints_cong [OF prints_text]) (simp add: print_list_def)
next
  case False
  let ?body = "\<lambda>i. and_then (print_indent (Suc d))
      (and_then (\<lambda>fp. do { x \<leftarrow> bencode_list_at (Some a) i m; f x (Suc d) fp })
        (print_text (if sz (i + 1) < length ts then [44, 10] else [10])))"
  let ?items = "map (\<lambda>v. indented (Suc d) @ render (Suc d) v) (map tree_val ts)"
  have "prints (lined ?items) (print_for ?body 0 (length ts))"
  proof (rule prints_lined)
    fix i
    assume i: "i < length ts"
    have "prints (render (Suc d) (tree_val (ts ! i))) (\<lambda>fp. do { x \<leftarrow> bencode_list_at (Some a) i m; f x (Suc d) fp })"
      by (rule prints_cong [OF child]) (use i holds_list_at [OF h i] in simp_all)
    from prints_then [OF prints_indent prints_then [OF this prints_text]]
    show "prints (?items ! i @ (if sz (i + 1) < length ts then [44, 10] else [10])) (?body i)" using i by simp
  qed (use holds_counts(1) [OF h] in simp_all)
  from prints_then [OF prints_text prints_then [OF this prints_then [OF prints_indent prints_text]]]
  have "prints ([91, 10] @ lined ?items @ indented d @ [93])
      (and_then (print_text [91, 10]) (and_then (print_for ?body 0 (length ts)) (and_then (print_indent d) (print_text [93]))))" .
  then have "prints ([91, 10] @ lined ?items @ indented d @ [93]) (print_list f m (Some a) d)"
    by (rule prints_cong) (use False holds_list_size [OF h] d in \<open>simp add: print_list_def sz_id cong: if_cong\<close>)
  then show ?thesis using False by simp
qed

lemma prints_dict:
  assumes h: "holds m (GDict a al arr cap es)" and d: "Suc d \<le> SIZE_MAX"
    and child: "\<And>ka k t. (ka, k, t) \<in> set es \<Longrightarrow> prints (render (Suc d) (tree_val t)) (f (Some (root t)) (Suc d))"
  shows "prints (render d (BDict (entry_vals es))) (print_dict f m (Some a) d)"
proof (cases "es = []")
  case True
  then show ?thesis using holds_dict_size [OF h] by (intro prints_cong [OF prints_text]) (simp add: print_dict_def)
next
  case False
  let ?body = "\<lambda>i fp. do {
            (st, r) \<leftarrow> bencode_dict_at (Some a) i m;
            if st \<noteq> BENCODE_OK then Some (-1, fp)
            else do {
              (k, klen, child) \<leftarrow> r;
              and_then (print_indent (Suc d))
                (and_then (print_string (key_ptr k) klen m)
                  (and_then (print_text [58, 32])
                    (and_then (f (Some child) (Suc d))
                      (print_text (if sz (i + 1) < length es then [44, 10] else [10]))))) fp
            } }"
  let ?items = "map (\<lambda>(k, v). indented (Suc d) @ quoted k @ [58, 32] @ render (Suc d) v) (entry_vals es)"
  have "prints (lined ?items) (print_for ?body 0 (length es))"
  proof (rule prints_lined)
    fix i
    assume i: "i < length es"
    obtain ka k u where e: "es ! i = (ka, k, u)" by (cases "es ! i")
    note at = holds_dict_at [OF h i e]
    from prints_then [OF prints_indent prints_then [OF prints_string [OF at(2)]
        prints_then [OF prints_text prints_then [OF child [OF at(5)] prints_text]]]]
    have "prints (indented (Suc d) @ quoted k @ [58, 32] @ render (Suc d) (tree_val u)
          @ (if sz (i + 1) < length es then [44, 10] else [10]))
        (and_then (print_indent (Suc d)) (and_then (print_string (key_ptr ka) (length k) m)
          (and_then (print_text [58, 32]) (and_then (f (Some (root u)) (Suc d))
            (print_text (if sz (i + 1) < length es then [44, 10] else [10]))))))" .
    then have "prints (indented (Suc d) @ quoted k @ [58, 32] @ render (Suc d) (tree_val u)
          @ (if sz (i + 1) < length es then [44, 10] else [10])) (?body i)"
      by (rule prints_cong) (simp add: at(1))
    then show "prints (?items ! i @ (if sz (i + 1) < length es then [44, 10] else [10])) (?body i)"
      using i e by simp
  qed (use holds_counts(2) [OF h] in simp_all)
  from prints_then [OF prints_text prints_then [OF this prints_then [OF prints_indent prints_text]]]
  have "prints ([123, 10] @ lined ?items @ indented d @ [125])
      (and_then (print_text [123, 10]) (and_then (print_for ?body 0 (length es)) (and_then (print_indent d) (print_text [125]))))" .
  then have "prints ([123, 10] @ lined ?items @ indented d @ [125]) (print_dict f m (Some a) d)"
    by (rule prints_cong) (use False holds_dict_size [OF h] d in \<open>simp add: print_dict_def sz_id cong: if_cong\<close>)
  then show ?thesis using False by simp
qed

lemma print_value_spec:
  assumes "holds m t" and "height t \<le> n" and "d + height t \<le> SIZE_MAX"
  shows "prints (render d (tree_val t)) (print_value n m (Some (root t)) d)"
  using assms
proof (induction n arbitrary: t d)
  case 0
  then show ?case by (cases t) simp_all
next
  case (Suc n)
  note ty = holds_value_type [OF Suc.prems(1)]
  have str: ?case if v: "tree_val t = BStr bs" for bs
  proof -
    obtain ptr where p: "bencode_value_string (Some (root t)) True True m = Some (BENCODE_OK, Some (ptr, length bs))"
      "read_bytes ptr (length bs) m = Some bs"
      by (rule holds_value_string [OF Suc.prems(1) v])
    have "prints (quoted bs) (print_value (Suc n) m (Some (root t)) d)"
      by (rule prints_cong [OF prints_string [OF p(2)]])
        (use ty p(1) v in \<open>cases t; simp\<close>)
    then show ?case using v by (simp del: print_value.simps)
  qed
  have inner: "prints (render (Suc d) (tree_val u)) (print_value n m (Some (root u)) (Suc d))"
    if "holds m u" "height u < height t" for u
    using Suc.IH [of u "Suc d"] Suc.prems(2,3) that by simp
  have room: "Suc d \<le> SIZE_MAX" if "0 < height t" using Suc.prems(3) that by simp
  show ?case
  proof (cases t)
    case (GInt a al i)
    then have h: "holds m (GInt a al i)" using Suc.prems(1) by simp
    have "prints (print_lld i) (print_value (Suc n) m (Some (root t)) d)"
      by (rule prints_cong [OF prints_text]) (use ty holds_value_int [OF h] GInt in simp)
    then show ?thesis using GInt by (simp add: print_lld_def enc_int_def Let_def del: print_value.simps)
  next
    case (GList a al arr cap ts)
    have h: "holds m (GList a al arr cap ts)" using Suc.prems(1) GList by simp
    have "prints (render (Suc d) (tree_val u)) (print_value n m (Some (root u)) (Suc d))" if "u \<in> set ts" for u
      by (rule inner) (use h that list_children(1) [OF that] in \<open>simp_all add: GList del: height.simps\<close>)
    then have "prints (render d (BList (map tree_val ts))) (print_list (print_value n m) m (Some a) d)"
      by (intro prints_list [OF h]) (use room GList in simp_all)
    then have "prints (render d (BList (map tree_val ts))) (print_value (Suc n) m (Some (root t)) d)"
      by (rule prints_cong) (use ty GList in simp)
    then show ?thesis using GList by (simp del: print_value.simps render.simps)
  next
    case (GDict a al arr cap es)
    have h: "holds m (GDict a al arr cap es)" using Suc.prems(1) GDict by simp
    have "prints (render (Suc d) (tree_val u)) (print_value n m (Some (root u)) (Suc d))" if "(ka, k, u) \<in> set es" for ka k u
      by (rule inner) (use h that dict_children(1) [OF that] in \<open>auto simp add: GDict simp del: height.simps\<close>)
    then have "prints (render d (BDict (entry_vals es))) (print_dict (print_value n m) m (Some a) d)"
      by (intro prints_dict [OF h]) (use room GDict in simp_all)
    then have "prints (render d (BDict (entry_vals es))) (print_value (Suc n) m (Some (root t)) d)"
      by (rule prints_cong) (use ty GDict in simp)
    then show ?thesis using GDict by (simp del: print_value.simps render.simps)
  qed (use str in simp_all)
qed

end
