(* ===== verification/Cli_Walk.thy ===== *)
theory Cli_Walk
  imports Cli Owned_Access
begin

text \<open>
  The tally of \<open>src/main.c\<close> (\<open>walk\<close>) counts what the value contains: its sub-values with the depth each
  stands at, and its strings, the keys of dictionaries among them.
\<close>

section \<open>What a value contains\<close>

text \<open>The sub-values, each with its depth, and the byte strings.\<close>

fun nodes :: "nat \<Rightarrow> bval \<Rightarrow> (nat \<times> bval) list" where
  "nodes d (BInt i) = [(d, BInt i)]"
| "nodes d (BStr b) = [(d, BStr b)]"
| "nodes d (BList vs) = (d, BList vs) # concat (map (nodes (Suc d)) vs)"
| "nodes d (BDict es) = (d, BDict es) # concat (map (\<lambda>(k, v). nodes (Suc d) v) es)"

fun texts :: "bval \<Rightarrow> byte list list" where
  "texts (BInt i) = []"
| "texts (BStr b) = [b]"
| "texts (BList vs) = concat (map texts vs)"
| "texts (BDict es) = concat (map (\<lambda>(k, v). k # texts v) es)"

fun is_int :: "bval \<Rightarrow> bool" where
  "is_int (BInt i) \<longleftrightarrow> True" | "is_int v \<longleftrightarrow> False"

fun is_list :: "bval \<Rightarrow> bool" where
  "is_list (BList vs) \<longleftrightarrow> True" | "is_list v \<longleftrightarrow> False"

fun is_dict :: "bval \<Rightarrow> bool" where
  "is_dict (BDict es) \<longleftrightarrow> True" | "is_dict v \<longleftrightarrow> False"

definition tally :: "(nat \<times> bval) list \<Rightarrow> byte list list \<Rightarrow> stats" where
  "tally ns ts = \<lparr>total_values = length ns,
     ints = length (filter (is_int \<circ> snd) ns), strings = length ts,
     lists = length (filter (is_list \<circ> snd) ns), dicts = length (filter (is_dict \<circ> snd) ns),
     max_depth_seen = foldr max (map fst ns) 0, total_string_bytes = sum_list (map length ts)\<rparr>"

definition statistics :: "bval \<Rightarrow> stats" where
  "statistics v = tally (nodes 0 v) (texts v)"

section \<open>Adding up\<close>

text \<open>The counters wrap around at \<open>2 ^ 64\<close>.\<close>

definition add_stats :: "stats \<Rightarrow> stats \<Rightarrow> stats" where
  "add_stats a b = \<lparr>total_values = sz (total_values a + total_values b), ints = sz (ints a + ints b),
     strings = sz (strings a + strings b), lists = sz (lists a + lists b), dicts = sz (dicts a + dicts b),
     max_depth_seen = max (max_depth_seen a) (max_depth_seen b),
     total_string_bytes = sz (total_string_bytes a + total_string_bytes b)\<rparr>"

definition counted :: "stats \<Rightarrow> bool" where
  "counted st \<longleftrightarrow> total_values st \<le> SIZE_MAX \<and> ints st \<le> SIZE_MAX \<and> strings st \<le> SIZE_MAX \<and> lists st \<le> SIZE_MAX
     \<and> dicts st \<le> SIZE_MAX \<and> total_string_bytes st \<le> SIZE_MAX"

lemma counted_add [simp]: "counted (add_stats a b)"
  by (simp add: counted_def add_stats_def sz_le)

lemma foldr_max_append: "foldr max (xs @ ys) (0 :: nat) = max (foldr max xs 0) (foldr max ys 0)"
  by (induction xs) (simp_all add: max.assoc)

lemma sz_add_sz: "sz (sz a + b) = sz (a + b)"
  by (simp add: sz_def mod_add_left_eq)

lemma add_tally_append:
  "add_stats (add_stats st (tally ns ts)) (tally ns' ts') = add_stats st (tally (ns @ ns') (ts @ ts'))"
  by (simp add: add_stats_def tally_def sz_add_sz foldr_max_append max.assoc add.assoc del: foldr_append)

lemma add_tally_Nil: "counted st \<Longrightarrow> add_stats st (tally [] []) = st"
  by (simp add: add_stats_def tally_def counted_def sz_id)

section \<open>The walk\<close>

text \<open>\<open>tallies ns ts f\<close>: the step \<open>f\<close> of the walk adds these sub-values and strings to the tally.\<close>

definition tallies :: "(nat \<times> bval) list \<Rightarrow> byte list list \<Rightarrow> (stats \<Rightarrow> stats option) \<Rightarrow> bool" where
  "tallies ns ts f \<longleftrightarrow> (\<forall>st. counted st \<longrightarrow> f st = Some (add_stats st (tally ns ts)))"

lemma talliesD: "tallies ns ts f \<Longrightarrow> counted st \<Longrightarrow> f st = Some (add_stats st (tally ns ts))"
  by (simp add: tallies_def)

lemma tallies_for:
  "(\<And>i. lo \<le> i \<Longrightarrow> i < lo + n \<Longrightarrow> tallies (ns i) (ts i) (body i)) \<Longrightarrow>
     tallies (concat (map ns [lo..<lo + n])) (concat (map ts [lo..<lo + n])) (walk_for body lo n)"
proof (induction n arbitrary: lo)
  case 0
  then show ?case by (simp add: tallies_def add_tally_Nil)
next
  case (Suc n)
  have rest: "tallies (concat (map ns [Suc lo..<Suc lo + n])) (concat (map ts [Suc lo..<Suc lo + n])) (walk_for body (Suc lo) n)"
    using Suc.prems by (intro Suc.IH) simp_all
  have "tallies (ns lo) (ts lo) (body lo)" using Suc.prems by simp
  then show ?case unfolding tallies_def
    by (auto simp: talliesD talliesD [OF rest] add_tally_append upt_conv_Cons simp del: upt_Suc)
qed

text \<open>The counter of the kind of the value itself.\<close>

lemma visit_tally:
  assumes "counted st"
  shows "(visit d st)\<lparr>ints := sz (ints (visit d st) + 1)\<rparr> = add_stats st (tally [(d, BInt i)] [])"
    and "(visit d st)\<lparr>lists := sz (lists (visit d st) + 1)\<rparr> = add_stats st (tally [(d, BList vs)] [])"
    and "(visit d st)\<lparr>dicts := sz (dicts (visit d st) + 1)\<rparr> = add_stats st (tally [(d, BDict es)] [])"
    and "(visit d st)\<lparr>strings := sz (strings (visit d st) + 1),
        total_string_bytes := sz (total_string_bytes (visit d st) + length b)\<rparr>
      = add_stats st (tally [(d, BStr b)] [b])"
  using assms by (simp_all add: visit_def Let_def add_stats_def tally_def counted_def sz_id)

lemma key_tally:
  "counted st \<Longrightarrow> st\<lparr>strings := sz (strings st + 1), total_string_bytes := sz (total_string_bytes st + length k)\<rparr>
     = add_stats st (tally [] [k])"
  by (simp add: add_stats_def tally_def counted_def sz_id)

lemma concat_upt_map: "n = length xs \<Longrightarrow> concat (map (\<lambda>i. f (xs ! i)) [0..<0 + n]) = concat (map f xs)"
  using map_nth [of xs] by (metis (no_types, lifting) add_0 map_map comp_def map_eq_conv)

lemma walk_list:
  assumes h: "holds m (GList a al arr cap ts)"
    and child: "\<And>t. t \<in> set ts \<Longrightarrow> tallies (nodes d (tree_val t)) (texts (tree_val t)) (f (Some (root t)))"
  shows "tallies (concat (map (nodes d) (map tree_val ts))) (concat (map texts (map tree_val ts)))
    (walk_for (\<lambda>i st. do { x \<leftarrow> bencode_list_at (Some a) i m; f x st }) 0 (length ts))"
proof -
  let ?body = "\<lambda>i st. do { x \<leftarrow> bencode_list_at (Some a) i m; f x st }"
  have "tallies (concat (map (\<lambda>i. nodes d (tree_val (ts ! i))) [0..<0 + length ts]))
      (concat (map (\<lambda>i. texts (tree_val (ts ! i))) [0..<0 + length ts])) (walk_for ?body 0 (length ts))"
    by (rule tallies_for) (use child holds_list_at [OF h] in \<open>simp add: tallies_def\<close>)
  then show ?thesis by (simp add: concat_upt_map [OF refl, where f = "\<lambda>t. nodes d (tree_val t)", unfolded add_0]
      concat_upt_map [OF refl, where f = "\<lambda>t. texts (tree_val t)", unfolded add_0] comp_def)
qed

lemma walk_dict:
  assumes h: "holds m (GDict a al arr cap es)"
    and child: "\<And>ka k t. (ka, k, t) \<in> set es \<Longrightarrow> tallies (nodes d (tree_val t)) (texts (tree_val t)) (f (Some (root t)))"
  shows "tallies (concat (map (\<lambda>(k, v). nodes d v) (entry_vals es))) (concat (map (\<lambda>(k, v). k # texts v) (entry_vals es)))
    (walk_for (\<lambda>i st. do {
               (s, r) \<leftarrow> bencode_dict_at (Some a) i m;
               if s = BENCODE_OK
               then do {
                 (key, klen, child) \<leftarrow> r;
                 let st3 = st\<lparr>strings := sz (strings st + 1)\<rparr>;
                 let st4 = st3\<lparr>total_string_bytes := sz (total_string_bytes st3 + klen)\<rparr>;
                 f (Some child) st4
               }
               else Some st }) 0 (length es))" (is "tallies _ _ (walk_for ?body 0 _)")
proof -
  have "tallies (concat (map (\<lambda>i. case es ! i of (ka, k, t) \<Rightarrow> nodes d (tree_val t)) [0..<0 + length es]))
      (concat (map (\<lambda>i. case es ! i of (ka, k, t) \<Rightarrow> k # texts (tree_val t)) [0..<0 + length es]))
      (walk_for ?body 0 (length es))"
  proof (rule tallies_for)
    fix i assume i: "0 \<le> i" "i < 0 + length es"
    obtain ka k t where e: "es ! i = (ka, k, t)" by (cases "es ! i")
    have len: "i < length es" using i by simp
    note at = holds_dict_at [OF h len e]
    have "?body i st = Some (add_stats st (tally (nodes d (tree_val t)) (k # texts (tree_val t))))" if st: "counted st" for st
    proof -
      have "?body i st = f (Some (root t)) (add_stats st (tally [] [k]))"
        using at(1) key_tally [OF st, of k] by (simp add: Let_def)
      also have "\<dots> = Some (add_stats st (tally (nodes d (tree_val t)) (k # texts (tree_val t))))"
        using talliesD [OF child [OF at(5)], of "add_stats st (tally [] [k])"]
        by (simp add: add_tally_append)
      finally show ?thesis .
    qed
    then show "tallies (case es ! i of (ka, k, t) \<Rightarrow> nodes d (tree_val t))
        (case es ! i of (ka, k, t) \<Rightarrow> k # texts (tree_val t)) (?body i)"
      by (simp only: tallies_def e prod.case) blast
  qed
  moreover have "concat (map (\<lambda>i. case es ! i of (ka, k, t) \<Rightarrow> nodes d (tree_val t)) [0..<0 + length es])
      = concat (map (\<lambda>(k, v). nodes d v) (entry_vals es))"
    using concat_upt_map [OF refl, of "\<lambda>e. case e of (ka, k, t) \<Rightarrow> nodes d (tree_val t)" es]
    by (simp add: comp_def case_prod_unfold)
  moreover have "concat (map (\<lambda>i. case es ! i of (ka, k, t) \<Rightarrow> k # texts (tree_val t)) [0..<0 + length es])
      = concat (map (\<lambda>(k, v). k # texts v) (entry_vals es))"
    using concat_upt_map [OF refl, of "\<lambda>e. case e of (ka, k, t) \<Rightarrow> k # texts (tree_val t)" es]
    by (simp add: comp_def case_prod_unfold)
  ultimately show ?thesis by simp
qed

lemma tallies_cong: "tallies ns ts f \<Longrightarrow> (\<And>st. counted st \<Longrightarrow> g st = f st) \<Longrightarrow> tallies ns ts g"
  by (simp add: tallies_def)

lemma tallies_after:
  assumes "tallies ns ts f"
  shows "tallies (n # ns) ts (\<lambda>st. f (add_stats st (tally [n] [])))"
  unfolding tallies_def
  using talliesD [OF assms counted_add] by (simp add: add_tally_append)

lemma walk_value_spec:
  assumes "holds m t" and "height t \<le> n" and "d + height t \<le> SIZE_MAX"
  shows "tallies (nodes d (tree_val t)) (texts (tree_val t)) (walk n m (Some (root t)) d)"
  using assms
proof (induction n arbitrary: t d)
  case 0
  then show ?case by (cases t) simp_all
next
  case (Suc n)
  note ty = holds_value_type [OF Suc.prems(1)]
  have str: ?case if v: "tree_val t = BStr bs" for bs
  proof -
    obtain ptr where p: "bencode_value_string (Some (root t)) True True m = Some (BENCODE_OK, Some (ptr, length bs))"
      by (rule holds_value_string [OF Suc.prems(1) v])
    have "bencode_value_type (Some (root t)) m = Some BENCODE_STRING" using ty v by (cases t) simp_all
    then show ?case using p v visit_tally(4) by (simp add: tallies_def Let_def)
  qed
  have inner: "tallies (nodes (Suc d) (tree_val u)) (texts (tree_val u)) (walk n m (Some (root u)) (sz (d + 1)))"
    if u: "holds m u" "height u < height t" for u
  proof -
    have "sz (d + 1) = Suc d" using Suc.prems(3) u(2) by (simp add: sz_id)
    then show ?thesis using Suc.IH [OF u(1), of "Suc d"] Suc.prems(2,3) u(2) by simp
  qed
  show ?case
  proof (cases t)
    case (GInt a al i)
    then show ?thesis using ty visit_tally(1) by (simp add: tallies_def Let_def)
  next
    case (GList a al arr cap ts)
    have h: "holds m (GList a al arr cap ts)" using Suc.prems(1) GList by simp
    have "tallies (nodes (Suc d) (tree_val u)) (texts (tree_val u)) (walk n m (Some (root u)) (sz (d + 1)))"
      if "u \<in> set ts" for u
      by (rule inner) (use h that list_children(1) [OF that] in \<open>simp_all add: GList del: height.simps\<close>)
    from tallies_after [where n = "(d, BList (map tree_val ts))", OF walk_list [OF h this]]
    have "tallies (nodes d (BList (map tree_val ts))) (texts (BList (map tree_val ts))) (walk (Suc n) m (Some a) d)"
      unfolding nodes.simps texts.simps
      by (rule tallies_cong) (use ty GList visit_tally(2) [where vs = "map tree_val ts"] holds_list_size [OF h] in \<open>simp_all add: Let_def\<close>)
    then show ?thesis using GList by (simp del: walk.simps nodes.simps texts.simps)
  next
    case (GDict a al arr cap es)
    have h: "holds m (GDict a al arr cap es)" using Suc.prems(1) GDict by simp
    have "tallies (nodes (Suc d) (tree_val u)) (texts (tree_val u)) (walk n m (Some (root u)) (sz (d + 1)))"
      if "(ka, k, u) \<in> set es" for ka k u
      by (rule inner) (use h that dict_children(1) [OF that] in \<open>auto simp add: GDict simp del: height.simps\<close>)
    from tallies_after [where n = "(d, BDict (entry_vals es))", OF walk_dict [OF h this]]
    have "tallies (nodes d (BDict (entry_vals es))) (texts (BDict (entry_vals es))) (walk (Suc n) m (Some a) d)"
      unfolding nodes.simps texts.simps
      by (rule tallies_cong) (use ty GDict visit_tally(3) [where es = "entry_vals es"] holds_dict_size [OF h] in \<open>simp_all add: Let_def\<close>)
    then show ?thesis using GDict by (simp del: walk.simps nodes.simps texts.simps)
  qed (use str in simp_all)
qed

section \<open>Bounds\<close>

text \<open>No counter of a value's statistics exceeds the length of its encoding, so none of them wraps around.\<close>

lemma enc_str_length: "Suc (length b) < length (enc_str b)"
  using dec_Cons [of "length b"] by (auto simp: enc_str_def)

lemma nodes_length: "length (nodes d v) \<le> length (encode v)"
proof (induction d v rule: nodes.induct)
  case (2 d b)
  then show ?case using enc_str_length [of b] by simp
next
  case (3 d vs)
  have "length (concat (map (nodes (Suc d)) vs)) \<le> length (encode_items vs)"
    using "3.IH" by (induction vs) (auto intro: add_mono)
  then show ?case by simp
next
  case (4 d es)
  have "length (nodes (Suc d) v) \<le> length (encode v)" if "(k, v) \<in> set es" for k v
    using "4.IH" [OF that refl] .
  then have "length (concat (map (\<lambda>(k, v). nodes (Suc d) v) es)) \<le> length (encode_entries es)"
  proof (induction es)
    case (Cons e es)
    obtain k v where e: "e = (k, v)" by (cases e)
    have "length (nodes (Suc d) v) \<le> length (encode v)" by (rule Cons.prems [of k v]) (simp add: e)
    moreover have "length (concat (map (\<lambda>(k, v). nodes (Suc d) v) es)) \<le> length (encode_entries es)"
      by (rule Cons.IH) (rule Cons.prems, erule list.set_intros(2))
    ultimately show ?case by (simp add: e)
  qed simp
  then show ?case by simp
qed simp_all

lemma texts_length: "length (texts v) + sum_list (map length (texts v)) \<le> length (encode v)"
proof (induction v rule: texts.induct)
  case (2 b)
  then show ?case using enc_str_length [of b] by simp
next
  case (3 vs)
  have "length (concat (map texts vs)) + sum_list (map length (concat (map texts vs))) \<le> length (encode_items vs)"
    using "3.IH"
  proof (induction vs)
    case (Cons v vs)
    then have "length (texts v) + sum_list (map length (texts v)) \<le> length (encode v)" by simp
    moreover have "length (concat (map texts vs)) + sum_list (map length (concat (map texts vs))) \<le> length (encode_items vs)"
      using Cons by simp
    ultimately show ?case by simp
  qed simp
  then show ?case by simp
next
  case (4 es)
  have "length (texts v) + sum_list (map length (texts v)) \<le> length (encode v)" if "(k, v) \<in> set es" for k v
    using "4.IH" [OF that refl] .
  then have "length (concat (map (\<lambda>(k, v). k # texts v) es)) + sum_list (map length (concat (map (\<lambda>(k, v). k # texts v) es)))
      \<le> length (encode_entries es)"
  proof (induction es)
    case (Cons e es)
    obtain k v where e: "e = (k, v)" by (cases e)
    have "length (texts v) + sum_list (map length (texts v)) \<le> length (encode v)" by (rule Cons.prems [of k v]) (simp add: e)
    moreover have "length (concat (map (\<lambda>(k, v). k # texts v) es)) + sum_list (map length (concat (map (\<lambda>(k, v). k # texts v) es)))
      \<le> length (encode_entries es)" by (rule Cons.IH) (rule Cons.prems, erule list.set_intros(2))
    ultimately show ?case using enc_str_length [of k] e by simp
  qed simp
  then show ?case by simp
qed simp

lemma filter_nodes_length: "length (filter P (nodes d v)) \<le> length (encode v)"
  using le_trans [OF length_filter_le nodes_length] .

text \<open>Starting from zero, the walk of a value that fits into memory counts exactly.\<close>

lemma add_statistics:
  assumes "length (encode v) \<le> SIZE_MAX"
  shows "add_stats \<lparr>total_values = 0, ints = 0, strings = 0, lists = 0, dicts = 0, max_depth_seen = 0,
     total_string_bytes = 0\<rparr> (statistics v) = statistics v"
  using assms nodes_length [of 0 v] texts_length [of v] filter_nodes_length [of _ 0 v]
  by (simp add: add_stats_def statistics_def tally_def sz_id order_trans [OF _ assms])

end
