(* ===== verification/Cli_Command.thy ===== *)
theory Cli_Command
  imports Cli_Load Cli_Print Cli_Walk Emit_Props
begin

text \<open>
  The subcommands of \<open>src/main.c\<close> share one contract, the locale \<open>command\<close>: a failed load ends them with
  the code of the load, and a loaded value with its output and the release of everything.  What the exit
  code says about the input is proved once from it; the four commands are its instances.
\<close>

section \<open>The contract\<close>

text \<open>\<open>ends w n out res\<close>: a command that has loaded an input of \<open>n\<close> bytes ends with its output written and
  exit code zero, or fails to write (two) or to allocate (one).  The memory is as it was.\<close>

definition ends :: "world \<Rightarrow> nat \<Rightarrow> byte list \<Rightarrow> (int \<times> world) option \<Rightarrow> bool" where
  "ends w n out res \<longleftrightarrow> (\<exists>rc w'. res = Some (rc, w') \<and> moves (wmem w) {} (wmem w') {}
     \<and> (rc = 0 \<and> written (wout w') = written (wout w) @ out
        \<or> rc = 1 \<and> \<not> (granting (wmem w) \<and> n \<le> 2 ^ 58)
        \<or> rc = 2 \<and> \<not> reliable (wout w)))"

locale command =
  fixes run :: "string \<Rightarrow> string option \<Rightarrow> world \<Rightarrow> (int \<times> world) option"
    and shown :: "bval \<Rightarrow> byte list"
  assumes run_unloaded: "load prog path w = Some (rc, None, n, None, w1) \<Longrightarrow> rc \<noteq> 0 \<Longrightarrow> run prog path w = Some (rc, w1)"
    and run_loaded: "load prog path w = Some (0, Some b, length (encode (tree_val t)), Some (root t), w1) \<Longrightarrow>
      loaded w (wmem w1) b (encode (tree_val t)) t \<Longrightarrow> canonical BENCODE_DEFAULT_MAX_DEPTH (tree_val t) \<Longrightarrow>
      length (encode (tree_val t)) \<le> SIZE_MAX \<Longrightarrow> wout w1 = wout w \<Longrightarrow>
      ends w (length (encode (tree_val t))) (shown (tree_val t)) (run prog path w)"

text \<open>What the documented exit codes say about the input, when nothing else goes wrong.\<close>

definition verdict :: "string option \<Rightarrow> world \<Rightarrow> int" where
  "verdict path w = (case input_stream path w of
      None \<Rightarrow> 2
    | Some fp \<Rightarrow> if broken fp then 2 else if valid_input (pending fp) then 0 else 1)"

text \<open>Memory for everything, a standard output that takes everything, and an input of realistic size.\<close>

definition plenty :: "string option \<Rightarrow> world \<Rightarrow> bool" where
  "plenty path w \<longleftrightarrow> wf_mem (wmem w) \<and> granting (wmem w) \<and> reliable (wout w)
     \<and> (\<forall>fp. input_stream path w = Some fp \<longrightarrow> length (pending fp) \<le> 2 ^ 58)"

text \<open>The input was reported as rejected: with the status that the library has for it, at an offset in the input.\<close>

definition diagnosed :: "string \<Rightarrow> string option \<Rightarrow> world \<Rightarrow> world \<Rightarrow> bool" where
  "diagnosed prog path w w' \<longleftrightarrow> (\<exists>fp st c. input_stream path w = Some fp \<and> c \<le> length (pending fp)
     \<and> rejected_as (Some strict_options) (pending fp) st c \<and> werr w' = werr (complain (diagnostic prog st c) w))"

context command
begin

lemma run_cases:
  assumes "wf_mem (wmem w)"
  obtains (unreadable) w' where "run prog path w = Some (2, w')" and "moves (wmem w) {} (wmem w') {}"
      and "wout w' = wout w" and "plenty path w \<Longrightarrow> verdict path w = 2"
  | (rejected) w' where "run prog path w = Some (1, w')" and "moves (wmem w) {} (wmem w') {}"
      and "wout w' = wout w" and "plenty path w \<Longrightarrow> verdict path w = 1 \<and> diagnosed prog path w w'"
  | (ended) fp v where "input_stream path w = Some fp" and "\<not> broken fp" and "pending fp = encode v"
      and "canonical BENCODE_DEFAULT_MAX_DEPTH v" and "verdict path w = 0"
      and "ends w (length (encode v)) (shown v) (run prog path w)"
  using assms
proof (cases rule: load_cases [where prog = prog and path = path])
  case (unreadable w1)
  have "verdict path w = 2" if p: "plenty path w"
  proof (cases "input_stream path w")
    case (Some fp)
    then have "broken fp" using unreadable(4) [OF _ Some] p by (auto simp: plenty_def SIZE_MAX_def)
    then show ?thesis using Some by (simp add: verdict_def)
  qed (simp add: verdict_def)
  then show thesis using that(1) run_unloaded [OF unreadable(1)] unreadable(2,3) by simp
next
  case (rejected fp st c w1)
  have "verdict path w = 1 \<and> diagnosed prog path w w1" if "plenty path w"
    using rejected(2,3,6,7) that by (auto simp: plenty_def verdict_def diagnosed_def)
  then show thesis using that(2) run_unloaded [OF rejected(1)] rejected(4,5) by simp
next
  case (loaded fp b t w1)
  have "verdict path w = 0" using loaded(2,3,5,6) by (auto simp: verdict_def valid_input_def)
  moreover have "ends w (length (encode (tree_val t))) (shown (tree_val t)) (run prog path w)"
    by (rule run_loaded [OF _ _ loaded(5) _ loaded(8)]) (use loaded(1,4,6,7) in simp_all)
  ultimately show thesis by (rule that(3) [OF loaded(2,3,6,5)])
qed

text \<open>Every command returns one of the documented codes and gives back all memory.\<close>

lemma run_returns:
  assumes "wf_mem (wmem w)"
  shows "\<exists>rc w'. run prog path w = Some (rc, w') \<and> rc \<in> {0, 1, 2} \<and> moves (wmem w) {} (wmem w') {}"
  using assms by (cases rule: run_cases [where prog = prog and path = path]) (auto simp: ends_def)

text \<open>Success means that the input was valid and that the output was written.\<close>

lemma run_success:
  assumes "wf_mem (wmem w)" and "run prog path w = Some (0, w')"
  shows "\<exists>fp v. input_stream path w = Some fp \<and> \<not> broken fp \<and> pending fp = encode v
    \<and> canonical BENCODE_DEFAULT_MAX_DEPTH v \<and> written (wout w') = written (wout w) @ shown v"
  using assms(1)
proof (cases rule: run_cases [where prog = prog and path = path])
  case (ended fp v)
  have "written (wout w') = written (wout w) @ shown v" using ended(6) assms(2) by (auto simp: ends_def)
  then show ?thesis using ended(1-4) by blast
qed (use assms(2) in simp_all)

text \<open>With plenty of everything the exit code is the verdict on the input.\<close>

lemma run_verdict:
  assumes "plenty path w"
  shows "\<exists>w'. run prog path w = Some (verdict path w, w') \<and> moves (wmem w) {} (wmem w') {}
    \<and> (verdict path w \<noteq> 0 \<longrightarrow> wout w' = wout w)"
proof -
  have "wf_mem (wmem w)" using assms by (simp add: plenty_def)
  then show ?thesis
  proof (cases rule: run_cases [where prog = prog and path = path])
    case (ended fp v)
    have "length (encode v) \<le> 2 ^ 58" using assms ended(1,3) by (auto simp: plenty_def)
    then show ?thesis using ended(5,6) assms by (auto simp: ends_def plenty_def)
  qed (use assms in auto)
qed

lemma run_diagnosis:
  assumes "plenty path w" and "verdict path w = 1"
  shows "\<exists>w'. run prog path w = Some (1, w') \<and> moves (wmem w) {} (wmem w') {} \<and> wout w' = wout w
    \<and> diagnosed prog path w w'"
proof -
  have "wf_mem (wmem w)" using assms by (simp add: plenty_def)
  then show ?thesis by (cases rule: run_cases [where prog = prog and path = path]) (use assms in auto)
qed

lemma run_output:
  assumes "plenty path w" and "input_stream path w = Some fp" and "\<not> broken fp" and "pending fp = encode v"
    and "canonical BENCODE_DEFAULT_MAX_DEPTH v"
  shows "\<exists>w'. run prog path w = Some (0, w') \<and> written (wout w') = written (wout w) @ shown v
    \<and> moves (wmem w) {} (wmem w') {}"
proof -
  have wf: "wf_mem (wmem w)" using assms by (simp add: plenty_def)
  have "verdict path w = 0" using assms(2-5) by (auto simp: verdict_def valid_input_def)
  with run_verdict [OF assms(1), of prog] obtain w' where run: "run prog path w = Some (0, w')"
    and mv: "moves (wmem w) {} (wmem w') {}" by auto
  from run_success [OF wf run] obtain v' where "encode v' = encode v" "written (wout w') = written (wout w) @ shown v'"
    using assms(2,4) by auto
  then show ?thesis using run mv encode_inject by auto
qed

end

section \<open>The end of a command\<close>

lemma put_stdout_cases:
  obtains (all) fp1 where "put_stdout bs w = (True, w\<lparr>wout := fp1\<rparr>)" and "written fp1 = written (wout w) @ bs"
  | (part) fp1 where "put_stdout bs w = (False, w\<lparr>wout := fp1\<rparr>)" and "\<not> reliable (wout w)"
proof -
  let ?fp = "wout w"
  define n where "n = min (fwrite_answers ?fp (fcalls ?fp) (length bs)) (length bs)"
  have run: "put_stdout bs w = (n = length bs, w\<lparr>wout := ?fp\<lparr>written := written ?fp @ take n bs, fcalls := fcalls ?fp + 1\<rparr>\<rparr>)"
    by (simp add: put_stdout_def fwrite_def Let_def n_def)
  show thesis
  proof (cases "n = length bs")
    case True
    then show thesis using all run by simp
  next
    case False
    then have "\<not> length bs \<le> fwrite_answers ?fp (fcalls ?fp) (length bs)" by (simp add: n_def)
    then have "\<not> reliable ?fp" unfolding reliable_def by blast
    then show thesis using part run False by simp
  qed
qed

lemma complain_reliable: "reliable (werr w) \<Longrightarrow> written (werr (complain bs w)) = written (werr w) @ bs"
  by (simp add: complain_def fwrite_def Let_def reliable_def min_absorb2)

lemma loaded_moves:
  assumes "loaded w m b bs t" and "moves m {} m' {}"
  shows "loaded w m' b bs t"
proof -
  have l: "owned m t" "moves (wmem w) {} m (insert b (set (blocks t)))" "read_bytes (BAt b 0) (length bs) m = Some bs"
    using assms(1) by (simp_all add: loaded_def)
  obtain blk where blk: "store m b = Some (Foreign, blk)" using assms(1) by (auto simp: loaded_def)
  have "moves (wmem w) {} m' (insert b (set (blocks t)))" using moves_step [OF l(2) assms(2)] by simp
  moreover have "store m' b = Some (Foreign, blk)" by (rule movesD(11) [OF assms(2) blk])
  moreover have "read_bytes (BAt b 0) (length bs) m' = Some bs" by (rule read_bytes_moves [OF l(3) assms(2)])
  moreover have "owned m' t" by (rule owned_moves [OF l(1) assms(2)]) simp
  ultimately show ?thesis using assms(1) by (simp add: loaded_def)
qed

text \<open>Writing the output and then releasing everything is an end in the sense of the contract.\<close>

lemma ends_output:
  assumes "loaded w m b bs t" and "wmem w1 = m" and "wout w1 = wout w"
  shows "ends w n out (case put_stdout out w1 of (good, w2) \<Rightarrow> finish (if good then 0 else 2) (Some b) (Some (root t)) w2)"
proof (cases rule: put_stdout_cases [of out w1])
  case (all fp1)
  obtain m' where "finish 0 (Some b) (Some (root t)) (w1\<lparr>wout := fp1\<rparr>) = Some (0, w1\<lparr>wout := fp1, wmem := m'\<rparr>)" "moves (wmem w) {} m' {}"
    by (rule finish_spec [OF assms(1), of "w1\<lparr>wout := fp1\<rparr>" 0]) (use assms(2) in simp_all)
  then show ?thesis using all assms(3) by (simp add: ends_def)
next
  case (part fp1)
  obtain m' where "finish 2 (Some b) (Some (root t)) (w1\<lparr>wout := fp1\<rparr>) = Some (2, w1\<lparr>wout := fp1, wmem := m'\<rparr>)" "moves (wmem w) {} m' {}"
    by (rule finish_spec [OF assms(1), of "w1\<lparr>wout := fp1\<rparr>" 2]) (use assms(2) in simp_all)
  then show ?thesis using part assms(3) by (simp add: ends_def)
qed

lemma loaded_wf: "loaded w m b bs t \<Longrightarrow> wf_mem m \<and> owned m t"
  using movesD(2) by (auto simp: loaded_def)

text \<open>A tree that stands for a value within the nesting limit is not higher than that.\<close>

lemma canonical_height: "canonical d (tree_val t) \<Longrightarrow> height t \<le> Suc d"
proof (induction t arbitrary: d rule: height.induct)
  case (1 a al arr cap ts)
  have "height t \<le> d" if t: "t \<in> set ts" for t
    using "1.IH" [OF t, of "d - 1"] "1.prems" t by simp
  then show ?case by simp
next
  case (2 a al arr cap es)
  have "height t \<le> d" if e: "(ka, k, t) \<in> set es" for ka k t
    using "2.IH" [OF e refl refl, of "d - 1"] "2.prems" e by fastforce
  then show ?case by auto
qed simp_all

section \<open>The four commands\<close>

interpretation validate: command cmd_validate "\<lambda>v. line ''ok''"
proof
  fix prog path w b t w1
  assume load: "load prog path w = Some (0, Some b, length (encode (tree_val t)), Some (root t), w1)"
    and own: "loaded w (wmem w1) b (encode (tree_val t)) t" and out: "wout w1 = wout w"
  show "ends w (length (encode (tree_val t))) (line ''ok'') (cmd_validate prog path w)"
    using ends_output [OF own refl out, of _ "line ''ok''"] by (simp add: cmd_validate_def load cong: prod.case_cong)
qed (simp add: cmd_validate_def)

interpretation size: command cmd_size "\<lambda>v. stats_text (length (encode v)) (statistics v)"
proof
  fix prog path w b t w1
  assume load: "load prog path w = Some (0, Some b, length (encode (tree_val t)), Some (root t), w1)"
    and own: "loaded w (wmem w1) b (encode (tree_val t)) t" and out: "wout w1 = wout w"
    and can: "canonical BENCODE_DEFAULT_MAX_DEPTH (tree_val t)" and len: "length (encode (tree_val t)) \<le> SIZE_MAX"
  have wf: "wf_mem (wmem w1)" "owned (wmem w1) t" using loaded_wf [OF own] by simp_all
  have "tallies (nodes 0 (tree_val t)) (texts (tree_val t))
      (walk (Suc (emit_depth (wmem w1))) (wmem w1) (Some (root t)) 0)"
  proof (rule walk_value_spec)
    show "holds (wmem w1) t" using wf(2) by (simp add: owned_def)
    show "height t \<le> Suc (emit_depth (wmem w1))" using emit_depth_enough [OF wf] by simp
    show "0 + height t \<le> SIZE_MAX"
      using canonical_height [OF can] by (simp add: BENCODE_DEFAULT_MAX_DEPTH_def SIZE_MAX_def)
  qed
  then have "walk (Suc (emit_depth (wmem w1))) (wmem w1) (Some (root t)) 0 empty_stats = Some (statistics (tree_val t))"
    using add_statistics [OF len] by (simp add: tallies_def counted_def empty_stats_def statistics_def)
  then show "ends w (length (encode (tree_val t))) (stats_text (length (encode (tree_val t))) (statistics (tree_val t)))
      (cmd_size prog path w)"
    using ends_output [OF own refl out]
    by (simp add: cmd_size_def load cong: prod.case_cong del: walk.simps)
qed (simp add: cmd_size_def)

text \<open>The printer, with the newline and the flush that follow it.\<close>

lemma print_run:
  assumes "prints bs p"
  obtains failed fp2 where "do {
       (prc, fp1) \<leftarrow> p fp;
         (if prc \<noteq> 0 then Some (True, fp1)
          else do {
            (nl, fp3) \<leftarrow> print_text [10] fp1;
            if nl \<noteq> 0 then Some (True, fp3)
            else (case fflush fp3 of (good, fp4) \<Rightarrow> Some (\<not> good, fp4))
          })
     } = Some (failed, fp2)" and "if failed then \<not> reliable fp else written fp2 = written fp @ bs @ [10]"
proof -
  let ?both = "and_then p (print_text [10])"
  have "prints (bs @ [10]) ?both" by (rule prints_then [OF assms prints_text])
  then show thesis
  proof (cases rule: prints_cases [where fp = fp])
    case (all fp')
    then obtain fp1 where p: "p fp = Some (0, fp1)" "print_text [10] fp1 = Some (0, fp')"
      by (auto simp: and_then_def split: Option.bind_splits if_splits)
    show thesis
    proof (rule that)
      show "if \<not> fflush_answers fp' (fcalls fp') then \<not> reliable fp
          else written (fp'\<lparr>fcalls := fcalls fp' + 1\<rparr>) = written fp @ bs @ [10]"
        using all(2,3) by (auto simp: reliable_def same_stream_def)
    qed (simp add: p fflush_def)
  next
    case (part fp' q)
    from assms show thesis
    proof (cases rule: prints_cases [where fp = fp])
      case first: (all fp1)
      then have "print_text [10] fp1 = Some (-1, fp')"
        using part(1) by (auto simp: and_then_def print_text_def split: prod.splits if_splits)
      then show thesis using that [of True fp'] first(1) part(3) by simp
    next
      case first: (part fp1 q')
      then show thesis using that [of True fp1] by simp
    qed
  qed
qed

lemma finish_ends:
  assumes "loaded w m b bs t" and "wmem w1 = m" and "rc \<in> {0, 1, 2}"
    and "rc = 0 \<Longrightarrow> written (wout w1) = written (wout w) @ out"
    and "rc = 1 \<Longrightarrow> \<not> (granting (wmem w) \<and> n \<le> 2 ^ 58)" and "rc = 2 \<Longrightarrow> \<not> reliable (wout w)"
  shows "ends w n out (finish rc (Some b) (Some (root t)) w1)"
proof -
  obtain m' where "finish rc (Some b) (Some (root t)) w1 = Some (rc, w1\<lparr>wmem := m'\<rparr>)" "moves (wmem w) {} m' {}"
    by (rule finish_spec [OF assms(1,2)])
  then show ?thesis using assms(3-6) by (auto simp: ends_def)
qed

interpretation print: command cmd_print "\<lambda>v. render 0 v @ [10]"
proof
  fix prog path w b t w1
  assume load: "load prog path w = Some (0, Some b, length (encode (tree_val t)), Some (root t), w1)"
    and own: "loaded w (wmem w1) b (encode (tree_val t)) t" and out: "wout w1 = wout w"
    and can: "canonical BENCODE_DEFAULT_MAX_DEPTH (tree_val t)"
  have wf: "wf_mem (wmem w1)" "owned (wmem w1) t" using loaded_wf [OF own] by simp_all
  have "prints (render 0 (tree_val t)) (print_value (emit_depth (wmem w1)) (wmem w1) (Some (root t)) 0)"
  proof (rule print_value_spec)
    show "holds (wmem w1) t" using wf(2) by (simp add: owned_def)
    show "height t \<le> emit_depth (wmem w1)" by (rule emit_depth_enough [OF wf])
    show "0 + height t \<le> SIZE_MAX"
      using canonical_height [OF can] by (simp add: BENCODE_DEFAULT_MAX_DEPTH_def SIZE_MAX_def)
  qed
  then obtain failed fp2 where run: "do {
       (prc, fp1) \<leftarrow> print_value (emit_depth (wmem w1)) (wmem w1) (Some (root t)) 0 (wout w1);
         (if prc \<noteq> 0 then Some (True, fp1)
          else do {
            (nl, fp3) \<leftarrow> print_text [10] fp1;
            if nl \<noteq> 0 then Some (True, fp3)
            else (case fflush fp3 of (good, fp4) \<Rightarrow> Some (\<not> good, fp4))
          })
     } = Some (failed, fp2)"
    and post: "if failed then \<not> reliable (wout w1) else written fp2 = written (wout w1) @ render 0 (tree_val t) @ [10]"
    by (rule print_run)
  have "cmd_print prog path w = finish (if failed then 2 else 0) (Some b) (Some (root t)) (w1\<lparr>wout := fp2\<rparr>)"
    using run by (auto simp: cmd_print_def load split: Option.bind_splits)
  then show "ends w (length (encode (tree_val t))) (render 0 (tree_val t) @ [10]) (cmd_print prog path w)"
    using finish_ends [OF own] post out by (simp split: if_splits)
qed (simp add: cmd_print_def)

lemma memcmp_refl: "memcmp xs xs (length xs) = 0"
  using memcmp_min_zero [of xs xs] by simp

interpretation roundtrip: command cmd_roundtrip "\<lambda>v. line ''ok''"
proof
  fix prog path w b t w1
  assume load: "load prog path w = Some (0, Some b, length (encode (tree_val t)), Some (root t), w1)"
    and own: "loaded w (wmem w1) b (encode (tree_val t)) t" and out: "wout w1 = wout w"
  let ?bs = "encode (tree_val t)"
  have wf: "wf_mem (wmem w1)" "owned (wmem w1) t" using loaded_wf [OF own] by simp_all
  have al: "alloc_ok None" by (simp add: alloc_ok_def)
  have gr: "granting (wmem w1) = granting (wmem w)" using own moves_granting by (auto simp: loaded_def)
  from wf al show "ends w (length ?bs) (line ''ok'') (cmd_roundtrip prog path w)"
  proof (cases rule: emit_to_alloc_cases)
    case (emitted e m1 cap)
    have rd: "read_bytes (BAt e 0) (length ?bs) m1 = Some ?bs" "read_bytes (BAt b 0) (length ?bs) m1 = Some ?bs"
      using filled_read [OF emitted(2)] read_bytes_moves [OF _ emitted(3)] own by (simp_all add: loaded_def)
    obtain blk where blk: "store m1 e = Some (Platform, blk)" using emitted(2) by (auto simp: filled_def pool_of_def)
    obtain m2 where m2: "free_to Platform e m1 = Some m2" "moves m1 {e} m2 {}"
      by (rule free_to_moves [OF movesD(2) [OF emitted(3)] blk]) simp
    have own2: "loaded w m2 b ?bs t" by (rule loaded_moves [OF own moves_trans [OF emitted(3) m2(2)]])
    have fr: "bencode_buffer_free None (Some e) m1 = Some m2"
      using m2(1) by (simp add: bencode_buffer_free_def bencode_free_def)
    have go: "cmd_roundtrip prog path w = (case put_stdout (line ''ok'') (w1\<lparr>wmem := m1\<rparr>) of (good, w3) \<Rightarrow> do {
        m2 \<leftarrow> bencode_buffer_free None (Some e) (wmem w3);
        finish (if good then 0 else 2) (Some b) (Some (root t)) (w3\<lparr>wmem := m2\<rparr>)
      })"
      by (simp add: cmd_roundtrip_def load emitted(1) rd memcmp_refl split: prod.split)
    show ?thesis
    proof (cases rule: put_stdout_cases [of "line ''ok''" "w1\<lparr>wmem := m1\<rparr>"])
      case (all fp1)
      then have "cmd_roundtrip prog path w = finish 0 (Some b) (Some (root t)) (w1\<lparr>wout := fp1, wmem := m2\<rparr>)"
        by (simp add: go fr)
      then show ?thesis using finish_ends [OF own2, of "w1\<lparr>wout := fp1, wmem := m2\<rparr>" 0] all(2) out by simp
    next
      case (part fp1)
      then have "cmd_roundtrip prog path w = finish 2 (Some b) (Some (root t)) (w1\<lparr>wout := fp1, wmem := m2\<rparr>)"
        by (simp add: go fr)
      then show ?thesis using finish_ends [OF own2, of "w1\<lparr>wout := fp1, wmem := m2\<rparr>" 2] part(2) out by simp
    qed
  next
    case (nomem m1)
    have "loaded w m1 b ?bs t" by (rule loaded_moves [OF own nomem(2)])
    then have "ends w (length ?bs) (line ''ok'') (finish 1 (Some b) (Some (root t))
        (complain (ascii (prog @ '': emit failed: '' @ bencode_status_string (status_code BENCODE_ERR_NOMEM)) @ [10]) (w1\<lparr>wmem := m1\<rparr>)))"
      using nomem(3) gr by (intro finish_ends) (auto simp: SIZE_MAX_def)
    then show ?thesis using nomem(1) by (simp add: cmd_roundtrip_def load status_to_exit_def)
  qed
qed (simp add: cmd_roundtrip_def)

end
