(* ===== verification/Cli_Render.thy ===== *)
theory Cli_Render
  imports Cli_Print
begin

text \<open>
  The output of \<open>bencode print\<close> (\<open>print_value\<close> and \<open>print_string\<close> of \<open>src/main.c\<close>) as a notation: it has only
  printable characters and line feeds, and it can be read in one way only.
\<close>

section \<open>Printable output\<close>

definition printable :: "byte \<Rightarrow> bool" where
  "printable b \<longleftrightarrow> b = 10 \<or> 32 \<le> b \<and> b < 127"

lemma unat_byte: "unat (b :: byte) < 256"
  using unsigned_less [of b] by simp

lemma printable_hex: "n < 16 \<Longrightarrow> printable (hex_digit n)"
proof -
  assume "n < 16"
  then have "n \<in> {0, 1, 2, 3, 4, 5, 6, 7, 8, 9, 10, 11, 12, 13, 14, 15}" by (simp only: insert_iff empty_iff) presburger
  then show ?thesis by (elim insertE emptyE) (simp_all add: hex_digit_def printable_def)
qed

lemma printable_byte: "c \<in> set (print_byte b) \<Longrightarrow> printable c"
  using printable_hex [of "unat b div 16"] printable_hex [of "unat b mod 16"] unat_byte [of b]
  by (auto simp: print_byte_def printable_def split: if_splits)

lemma printable_digit: "is_digit b \<Longrightarrow> printable b"
  by (simp add: is_digit_def printable_def word_le_nat_alt word_less_nat_alt)

lemma printable_int: "c \<in> set (enc_int i) \<Longrightarrow> printable c"
  using dec_digits printable_digit by (auto simp: enc_int_def printable_def split: if_splits)

lemma printable_quoted: "c \<in> set (quoted b) \<Longrightarrow> printable c"
  using printable_byte by (auto simp: quoted_def printable_def)

lemma printable_indented: "c \<in> set (indented d) \<Longrightarrow> printable c"
  by (induction d) (auto simp: indented_def printable_def)

lemma printable_lined: "c \<in> set (lined xs) \<Longrightarrow> (\<And>x b. x \<in> set xs \<Longrightarrow> b \<in> set x \<Longrightarrow> printable b) \<Longrightarrow> printable c"
  by (induction xs rule: lined.induct) (auto simp: printable_def)

lemma printable_render: "c \<in> set (render d v) \<Longrightarrow> printable c"
proof (induction d v arbitrary: c rule: render.induct)
  case (3 d vs)
  then show ?case
    using printable_lined [of c "map (\<lambda>v. indented (Suc d) @ render (Suc d) v) vs"] printable_indented
    by (fastforce simp: printable_def split: if_splits)
next
  case (4 d es)
  then show ?case
    using printable_lined [of c "map (\<lambda>(k, v). indented (Suc d) @ quoted k @ [58, 32] @ render (Suc d) v) es"]
      printable_indented printable_quoted
    by (fastforce simp: printable_def split: if_splits)
qed (simp_all add: printable_int printable_quoted)

section \<open>Escaped strings\<close>

lemma hex_digit_inject:
  assumes "m < 16" and "n < 16" and "hex_digit m = hex_digit n"
  shows "m = n"
proof -
  have code: "unat (hex_digit k) = (if k < 10 then 48 + k else 87 + k)" if "k < 16" for k
    using that by (simp add: hex_digit_def unat_of_nat del: of_nat_add)
  have "(if m < 10 then 48 + m else 87 + m) = (if n < 10 then 48 + n else 87 + n)"
    using arg_cong [OF assms(3), of unat] unfolding code [OF assms(1)] code [OF assms(2)] .
  then show ?thesis by (simp split: if_splits)
qed

lemma print_byte_split:
  assumes "print_byte a @ xs = print_byte b @ ys"
  shows "a = b \<and> xs = ys"
proof -
  have hex: "a = b" if "hex_digit (unat a div 16) = hex_digit (unat b div 16)"
    "hex_digit (unat a mod 16) = hex_digit (unat b mod 16)"
  proof -
    have "unat a div 16 = unat b div 16"
      by (rule hex_digit_inject [OF _ _ that(1)]) (use unat_byte [of a] unat_byte [of b] in auto)
    moreover have "unat a mod 16 = unat b mod 16" by (rule hex_digit_inject [OF _ _ that(2)]) simp_all
    ultimately show ?thesis by (metis div_mult_mod_eq word_unat_eq_iff)
  qed
  show ?thesis using assms hex by (auto simp: print_byte_def split: if_splits)
qed

lemma print_byte_not_quote: "print_byte a @ xs \<noteq> 34 # ys"
  by (auto simp: print_byte_def)

interpretation escaped: marked_code print_byte UNIV 34
  by unfold_locales (erule print_byte_split, rule print_byte_not_quote)

lemma quoted_split: "quoted a @ xs = quoted b @ ys \<Longrightarrow> a = b \<and> xs = ys"
  using escaped.sequence.code_split [of a xs b ys] by (simp add: quoted_def)

section \<open>Reading the output back\<close>

text \<open>A value is rendered up to a byte that is not a digit, which is where a reader would see the end of an integer.\<close>

definition separable :: "('v \<Rightarrow> byte list) \<Rightarrow> 'v \<Rightarrow> bool" where
  "separable f v \<longleftrightarrow> (\<forall>w b xs c ys. \<not> is_digit b \<longrightarrow> \<not> is_digit c \<longrightarrow> f v @ b # xs = f w @ c # ys
     \<longrightarrow> v = w \<and> b = c \<and> xs = ys)"

lemma separableD:
  "separable f v \<Longrightarrow> f v @ b # xs = f w @ c # ys \<Longrightarrow> \<not> is_digit b \<Longrightarrow> \<not> is_digit c \<Longrightarrow> v = w \<and> b = c \<and> xs = ys"
  unfolding separable_def by blast

lemma separableI:
  "(\<And>w b xs c ys. \<not> is_digit b \<Longrightarrow> \<not> is_digit c \<Longrightarrow> f v @ b # xs = f w @ c # ys \<Longrightarrow> v = w \<and> b = c \<and> xs = ys)
     \<Longrightarrow> separable f v"
  unfolding separable_def by blast

lemma separable_int: "separable enc_int i"
proof (rule separableI)
  fix j b xs c ys
  assume d: "\<not> is_digit b" "\<not> is_digit c" and eq: "enc_int i @ b # xs = enc_int j @ c # ys"
  show "i = j \<and> b = c \<and> xs = ys"
  proof (cases "i < 0"; cases "j < 0")
    assume "i < 0" "j < 0"
    then show ?thesis using eq dec_split [of "nat (- i)" b xs "nat (- j)" c ys] d by (auto simp: enc_int_def)
  next
    assume "\<not> i < 0" "\<not> j < 0"
    then show ?thesis using eq dec_split [of "nat i" b xs "nat j" c ys] d by (auto simp: enc_int_def nat_eq_iff)
  qed (use eq dec_not_minus dec_not_minus [symmetric] in \<open>auto simp: enc_int_def\<close>)
qed

lemma lined_Cons: "lined (x # xs) = x @ (if xs = [] then [10] else 44 # 10 # lined xs)"
  by (cases xs) simp_all

lemma separators: "\<not> is_digit 10" "\<not> is_digit 44"
  by (simp_all add: is_digit_def)

lemma lined_split:
  assumes "\<And>v. v \<in> set vs \<Longrightarrow> separable f v" and "lined (map f vs) @ xs = lined (map f ws) @ ys" and "vs \<noteq> []" and "ws \<noteq> []"
  shows "vs = ws \<and> xs = ys"
  using assms
proof (induction vs arbitrary: ws)
  case (Cons v vs)
  obtain w ws' where ws: "ws = w # ws'" using Cons.prems(4) by (cases ws) auto
  let ?c = "\<lambda>us. if us = [] then 10 else 44 :: byte" and ?r = "\<lambda>us zs. if us = [] then zs else 10 # lined (map f us) @ zs"
  have eq: "f v @ ?c vs # ?r vs xs = f w @ ?c ws' # ?r ws' ys"
    using Cons.prems(2) ws by (auto simp: lined_Cons)
  have "v = w \<and> ?c vs = ?c ws' \<and> ?r vs xs = ?r ws' ys"
    by (rule separableD [of f v "?c vs" "?r vs xs" w "?c ws'" "?r ws' ys", OF _ eq]) (use Cons.prems(1) separators in auto)
  then have v: "v = w" and c: "?c vs = ?c ws'" and r: "?r vs xs = ?r ws' ys" by blast+
  show ?case
  proof (cases "vs = []")
    case True
    then have "ws' = []" using c by (auto split: if_splits)
    then show ?thesis using True r v ws by simp
  next
    case False
    then have "ws' \<noteq> []" using c by (auto split: if_splits)
    then show ?thesis using Cons.IH [OF _ _ False, of ws'] Cons.prems(1) r v ws False by simp
  qed
qed simp

text \<open>The first byte of a rendering tells the kind of the value.\<close>

fun kind_mark :: "bval \<Rightarrow> byte \<Rightarrow> bool" where
  "kind_mark (BInt _) b \<longleftrightarrow> b = 45 \<or> is_digit b"
| "kind_mark (BStr _) b \<longleftrightarrow> b = 34"
| "kind_mark (BList _) b \<longleftrightarrow> b = 91"
| "kind_mark (BDict _) b \<longleftrightarrow> b = 123"

lemma render_mark: "\<exists>b bs. render d v = b # bs \<and> kind_mark v b"
proof (cases v)
  case (BInt i)
  then show ?thesis using dec_Cons [of "nat i"] by (auto simp: enc_int_def)
qed (auto simp: quoted_def)

lemma render_same_mark: "render d v @ xs = render d w @ ys \<Longrightarrow> \<exists>b. kind_mark v b \<and> kind_mark w b"
  using render_mark [of d v] render_mark [of d w] by auto

lemma kind_mark_kind:
  assumes "kind_mark v b" and "kind_mark w b"
  shows "(\<exists>i. v = BInt i) \<longleftrightarrow> (\<exists>i. w = BInt i)" "(\<exists>x. v = BStr x) \<longleftrightarrow> (\<exists>x. w = BStr x)"
    "(\<exists>x. v = BList x) \<longleftrightarrow> (\<exists>x. w = BList x)" "(\<exists>x. v = BDict x) \<longleftrightarrow> (\<exists>x. w = BDict x)"
  using assms by (cases v; cases w; auto simp: is_digit_def)+

abbreviation item_text :: "nat \<Rightarrow> bval \<Rightarrow> byte list" where
  "item_text d \<equiv> \<lambda>v. indented (Suc d) @ render (Suc d) v"

abbreviation entry_text :: "nat \<Rightarrow> byte list \<times> bval \<Rightarrow> byte list" where
  "entry_text d \<equiv> \<lambda>(k, v). indented (Suc d) @ quoted k @ [58, 32] @ render (Suc d) v"

lemma separable_item: "separable (render (Suc d)) v \<Longrightarrow> separable (item_text d) v"
  unfolding separable_def append_assoc same_append_eq .

lemma separable_entry:
  assumes "separable (render (Suc d)) v"
  shows "separable (entry_text d) (k, v)"
proof (rule separableI)
  fix w :: "byte list \<times> bval" and b xs c ys
  assume d: "\<not> is_digit b" "\<not> is_digit c" and eq: "entry_text d (k, v) @ b # xs = entry_text d w @ c # ys"
  obtain k' u where w: "w = (k', u)" by (cases w)
  have s: "k = k' \<and> 58 # 32 # render (Suc d) v @ b # xs = 58 # 32 # render (Suc d) u @ c # ys"
    by (rule quoted_split) (use eq w in simp)
  then have "render (Suc d) v @ b # xs = render (Suc d) u @ c # ys" by simp
  from separableD [OF assms this d] show "(k, v) = w \<and> b = c \<and> xs = ys" using s w by simp
qed

lemma separable_list:
  assumes "\<And>v. v \<in> set vs \<Longrightarrow> separable (render (Suc d)) v"
  shows "separable (render d) (BList vs)"
proof (rule separableI)
  fix w b xs c ys
  assume eq: "render d (BList vs) @ b # xs = render d w @ c # ys"
  obtain ws where w: "w = BList ws" using render_same_mark [OF eq] kind_mark_kind(3) [of "BList vs" _ w] by blast
  have "vs = [] \<longleftrightarrow> ws = []" using eq w by (auto split: if_splits)
  then show "BList vs = w \<and> b = c \<and> xs = ys"
    using lined_split [of vs "item_text d" "indented d @ 93 # b # xs" ws "indented d @ 93 # c # ys"] separable_item [OF assms] eq w
    by (cases "vs = []") auto
qed

lemma separable_dict:
  assumes "\<And>k v. (k, v) \<in> set es \<Longrightarrow> separable (render (Suc d)) v"
  shows "separable (render d) (BDict es)"
proof (rule separableI)
  fix w b xs c ys
  assume eq: "render d (BDict es) @ b # xs = render d w @ c # ys"
  obtain fs where w: "w = BDict fs" using render_same_mark [OF eq] kind_mark_kind(4) [of "BDict es" _ w] by blast
  have entries: "separable (entry_text d) e" if "e \<in> set es" for e
    using separable_entry assms that by (cases e) blast
  have "es = [] \<longleftrightarrow> fs = []" using eq w by (auto split: if_splits)
  then show "BDict es = w \<and> b = c \<and> xs = ys"
    using lined_split [of es "entry_text d" "indented d @ 125 # b # xs" fs "indented d @ 125 # c # ys", OF entries] eq w
    by (cases "es = []") auto
qed

lemma separable_render: "separable (render d) v"
proof (induction d v rule: render.induct)
  case (1 d i)
  show ?case
  proof (rule separableI)
    fix w b xs c ys
    assume d: "\<not> is_digit b" "\<not> is_digit c" and eq: "render d (BInt i) @ b # xs = render d w @ c # ys"
    obtain j where w: "w = BInt j" using render_same_mark [OF eq] kind_mark_kind(1) [of "BInt i" _ w] by blast
    show "BInt i = w \<and> b = c \<and> xs = ys" using separableD [OF separable_int _ d] eq w by simp
  qed
next
  case (2 d x)
  show ?case
  proof (rule separableI)
    fix w b xs c ys
    assume eq: "render d (BStr x) @ b # xs = render d w @ c # ys"
    obtain y where w: "w = BStr y" using render_same_mark [OF eq] kind_mark_kind(2) [of "BStr x" _ w] by blast
    show "BStr x = w \<and> b = c \<and> xs = ys" using quoted_split [of x "b # xs" y "c # ys"] eq w by simp
  qed
next
  case (3 d vs)
  show ?case by (rule separable_list) (use "3.IH" in \<open>cases "vs = []"; auto\<close>)
next
  case (4 d es)
  show ?case by (rule separable_dict) (use "4.IH" in \<open>cases "es = []"; fastforce\<close>)
qed

lemma render_inject: "render d v @ [10] = render d w @ [10] \<longleftrightarrow> v = w"
  using separableD [OF separable_render _ separators(1) separators(1), of d v "[]" w "[]"] by auto

end
