(* ===== verification/Cli_Props.thy ===== *)
theory Cli_Props
  imports Cli_Command Cli_Render
begin

text \<open>
  The contract of the command-line tool (\<open>src/main.c\<close>): its exit codes, its output, and that it gives back
  all memory.
\<close>

section \<open>Sample worlds\<close>

text \<open>Nothing allocated; the sample text on the standard input, the same text cut short in the file \<open>cut\<close>, and a
  file \<open>torn\<close> that cannot be read to its end.\<close>

definition empty_mem :: mem where
  "empty_mem = \<lparr>store = (\<lambda>a. None), next_addr = 0, requests = 0, answers = (\<lambda>p n nbytes. True)\<rparr>"

definition sample_files :: "string \<Rightarrow> in_stream option" where
  "sample_files p =
     (if p = ''cut'' then Some \<lparr>pending = butlast sample_text, broken = False\<rparr>
      else if p = ''torn'' then Some \<lparr>pending = sample_text, broken = True\<rparr> else None)"

definition sample_world :: world where
  "sample_world = \<lparr>wmem = empty_mem, wstdin = \<lparr>pending = sample_text, broken = False\<rparr>, wfiles = sample_files,
     wout = good_disk, werr = good_disk\<rparr>"

lemma sample_world_wf: "wf_mem (wmem sample_world)"
  by (simp add: sample_world_def empty_mem_def wf_mem_def)

lemma sample_plenty: "plenty path sample_world"
  using sample_text_length good_disk
  by (auto simp: plenty_def sample_world_wf) (auto simp: sample_world_def empty_mem_def granting_def
      input_stream_def open_input_def Let_def sample_files_def split: option.splits if_splits)

lemma sample_stdin: "input_stream None sample_world = Some \<lparr>pending = sample_text, broken = False\<rparr>"
  by (simp add: input_stream_def open_input_def sample_world_def)

lemma sample_cut: "input_stream (Some ''cut'') sample_world = Some \<lparr>pending = butlast sample_text, broken = False\<rparr>"
  by (simp add: input_stream_def open_input_def sample_world_def sample_files_def)

lemma sample_limit: "canonical BENCODE_DEFAULT_MAX_DEPTH sample"
  by (simp add: canonical_sample BENCODE_DEFAULT_MAX_DEPTH_def)

lemma cut_invalid: "\<not> valid_input (butlast sample_text)"
proof
  assume "valid_input (butlast sample_text)"
  then obtain v where "butlast sample_text = encode v" by (auto simp: valid_input_def)
  moreover have "butlast sample_text @ [101] = encode sample"
    by (simp add: encode_sample) (simp add: sample_text_def)
  ultimately have "encode v @ [101] = encode sample @ []" by simp
  then have "[101 :: byte] = []" using encode_split by blast
  then show False by simp
qed

lemma sample_verdicts:
  "verdict None sample_world = 0" "verdict (Some ''cut'') sample_world = 1"
  "verdict (Some ''torn'') sample_world = 2" "verdict (Some ''missing'') sample_world = 2"
proof -
  have "valid_input sample_text" using sample_limit encode_sample by (auto simp: valid_input_def)
  then show "verdict None sample_world = 0" by (simp add: verdict_def sample_stdin)
  show "verdict (Some ''cut'') sample_world = 1" by (simp add: verdict_def sample_cut cut_invalid)
qed (simp_all add: verdict_def input_stream_def open_input_def sample_world_def sample_files_def)

lemma sample_out: "written (wout sample_world) = []"
  by (simp add: sample_world_def good_disk_def)

section \<open>Exit codes\<close>

text \<open>C19: \<open>bencode validate\<close> exits with zero exactly on the canonical encodings of values within the default
  nesting limit, with one on other input, and with two when the input cannot be read; it prints \<open>ok\<close> in the
  first case only and gives back all memory.\<close>

theorem validate_verdict:
  assumes "plenty path w"
  shows "\<exists>w'. cmd_validate prog path w = Some (verdict path w, w') \<and> moves (wmem w) {} (wmem w') {}
    \<and> (if verdict path w = 0 then written (wout w') = written (wout w) @ line ''ok'' else wout w' = wout w)"
proof -
  have wf: "wf_mem (wmem w)" using assms by (simp add: plenty_def)
  obtain w' where w': "cmd_validate prog path w = Some (verdict path w, w')" "moves (wmem w) {} (wmem w') {}"
    "verdict path w \<noteq> 0 \<longrightarrow> wout w' = wout w"
    using validate.run_verdict [OF assms] by blast
  then show ?thesis using validate.run_success [OF wf] by fastforce
qed

theorem validate_verdict_witness:
  "\<exists>w1 w2 w3. cmd_validate ''bencode'' None sample_world = Some (0, w1) \<and> written (wout w1) = [111, 107, 10]
    \<and> cmd_validate ''bencode'' (Some ''cut'') sample_world = Some (1, w2)
    \<and> cmd_validate ''bencode'' (Some ''missing'') sample_world = Some (2, w3)"
proof -
  have ok: "line ''ok'' = [111, 107, 10]" by (simp add: line_def ascii_def)
  show ?thesis
    using validate_verdict [OF sample_plenty, of "''bencode''" None] validate_verdict [OF sample_plenty, of "''bencode''" "Some ''cut''"]
      validate_verdict [OF sample_plenty, of "''bencode''" "Some ''missing''"]
    unfolding sample_verdicts sample_out ok by auto
qed

text \<open>C20: \<open>bencode roundtrip\<close> gives the same exit code as \<open>bencode validate\<close> and never reports a mismatch for
  valid input: what the library parses it emits bit for bit.\<close>

theorem roundtrip_verdict:
  assumes "plenty path w"
  shows "\<exists>w'. cmd_roundtrip prog path w = Some (verdict path w, w') \<and> moves (wmem w) {} (wmem w') {}"
  using roundtrip.run_verdict [OF assms] by blast

theorem roundtrip_verdict_witness:
  "\<exists>w1 w2. cmd_roundtrip ''bencode'' None sample_world = Some (0, w1)
    \<and> cmd_roundtrip ''bencode'' (Some ''torn'') sample_world = Some (2, w2)"
  using roundtrip_verdict [OF sample_plenty, of "''bencode''" None] roundtrip_verdict [OF sample_plenty, of "''bencode''" "Some ''torn''"]
  unfolding sample_verdicts by blast

section \<open>Output\<close>

text \<open>C36: \<open>bencode print\<close> writes the rendering of the value and a newline, and exits with zero.\<close>

theorem print_renders:
  assumes "plenty path w" and "input_stream path w = Some fp" and "\<not> broken fp" and "pending fp = encode v"
    and "canonical BENCODE_DEFAULT_MAX_DEPTH v"
  shows "\<exists>w'. cmd_print prog path w = Some (0, w') \<and> written (wout w') = written (wout w) @ render 0 v @ [10]
    \<and> moves (wmem w) {} (wmem w') {}"
  by (rule print.run_output [OF assms])

lemma sample_rendered:
  "render 0 sample @ [10] = ascii ''{'' @ [10] @ ascii ''  '' @ [34] @ ascii ''a'' @ [34] @ ascii '': -7,'' @ [10]
     @ ascii ''  '' @ [34] @ ascii ''bc'' @ [34] @ ascii '': ['' @ [10]
     @ ascii ''    '' @ [34, 34, 10] @ ascii ''  ]'' @ [10] @ ascii ''}'' @ [10]"
  by (simp add: sample_def quoted_def print_byte_def indented_def ascii_def enc_int_def dec_digit digit_byte_def)

theorem print_renders_witness:
  "\<exists>w'. cmd_print ''bencode'' None sample_world = Some (0, w')
    \<and> written (wout w') = ascii ''{'' @ [10] @ ascii ''  '' @ [34] @ ascii ''a'' @ [34] @ ascii '': -7,'' @ [10]
     @ ascii ''  '' @ [34] @ ascii ''bc'' @ [34] @ ascii '': ['' @ [10]
     @ ascii ''    '' @ [34, 34, 10] @ ascii ''  ]'' @ [10] @ ascii ''}'' @ [10]"
  using print_renders [OF sample_plenty sample_stdin, of sample "''bencode''"] sample_limit
  unfolding sample_rendered sample_out by (simp add: encode_sample) blast

text \<open>C23: what \<open>bencode print\<close> writes when it exits with zero has only printable characters and line feeds, and
  determines the input: two runs write the same text exactly when they read the same bytes.\<close>

theorem print_unambiguous:
  assumes "wf_mem (wmem w1)" and "input_stream path1 w1 = Some fp1" and "cmd_print prog path1 w1 = Some (0, w1')"
    and "wf_mem (wmem w2)" and "input_stream path2 w2 = Some fp2" and "cmd_print prog path2 w2 = Some (0, w2')"
  shows "\<exists>text1 text2. written (wout w1') = written (wout w1) @ text1 \<and> written (wout w2') = written (wout w2) @ text2
    \<and> (text1 = text2 \<longleftrightarrow> pending fp1 = pending fp2)
    \<and> (\<forall>b\<in>set text1. b = 10 \<or> 32 \<le> b \<and> b < 127)"
proof -
  obtain v1 v2 where v: "pending fp1 = encode v1" "pending fp2 = encode v2"
    and out: "written (wout w1') = written (wout w1) @ render 0 v1 @ [10]" "written (wout w2') = written (wout w2) @ render 0 v2 @ [10]"
    using print.run_success [OF assms(1,3)] print.run_success [OF assms(4,6)] assms(2,5) by auto
  have "render 0 v1 @ [10] = render 0 v2 @ [10] \<longleftrightarrow> pending fp1 = pending fp2"
    unfolding render_inject v encode_inject ..
  moreover have "\<forall>b\<in>set (render 0 v1 @ [10]). b = 10 \<or> 32 \<le> b \<and> b < 127"
    using printable_render [of _ 0 v1] by (auto simp: printable_def)
  ultimately show ?thesis using out by blast
qed

theorem print_unambiguous_witness:
  "\<exists>w'. cmd_print ''bencode'' None sample_world = Some (0, w')
    \<and> (\<forall>b\<in>set (written (wout w')). b = 10 \<or> 32 \<le> b \<and> b < 127)"
proof -
  obtain w' where w': "cmd_print ''bencode'' None sample_world = Some (0, w')"
    using print.run_verdict [OF sample_plenty, of "''bencode''" None] sample_verdicts(1) by auto
  from print_unambiguous [OF sample_world_wf sample_stdin w' sample_world_wf sample_stdin w'] w'
  show ?thesis unfolding sample_out by auto
qed

text \<open>C37: \<open>bencode size\<close> prints the statistics of the value: the number of its sub-values of each kind, of its
  strings (keys included) and their bytes, and the deepest nesting.  No counter wraps around.\<close>

theorem size_counts:
  assumes "plenty path w" and "input_stream path w = Some fp" and "\<not> broken fp" and "pending fp = encode v"
    and "canonical BENCODE_DEFAULT_MAX_DEPTH v"
  shows "\<exists>w'. cmd_size prog path w = Some (0, w')
    \<and> written (wout w') = written (wout w) @ stats_text (length (encode v)) (statistics v)
    \<and> moves (wmem w) {} (wmem w') {}"
  by (rule size.run_output [OF assms])

lemma sample_statistics:
  "statistics sample = \<lparr>total_values = 4, ints = 1, strings = 3, lists = 1, dicts = 1, max_depth_seen = 2,
     total_string_bytes = 3\<rparr>"
  by (simp add: statistics_def tally_def sample_def)

theorem size_counts_witness:
  "\<exists>w'. cmd_size ''bencode'' None sample_world = Some (0, w')
    \<and> written (wout w') = stats_text 17 \<lparr>total_values = 4, ints = 1, strings = 3, lists = 1, dicts = 1,
        max_depth_seen = 2, total_string_bytes = 3\<rparr>"
  using size_counts [OF sample_plenty sample_stdin, of sample "''bencode''"] sample_limit sample_text_length
  unfolding sample_statistics sample_out by (simp add: encode_sample) blast

text \<open>\<open>print_value\<close> on any tree the memory holds writes the rendering of its value, indented for the level it
  is called with; on a stream that fails it stops, returns minus one and has written a prefix of it.\<close>

theorem print_value_renders:
  assumes "owned m t" and "wf_mem m" and "level + height t \<le> SIZE_MAX"
  shows "\<exists>rc fp'. print_value (emit_depth m) m (Some (root t)) level fp = Some (rc, fp')
    \<and> (if rc = 0 then written fp' = written fp @ render level (tree_val t)
       else rc = -1 \<and> \<not> reliable fp \<and> (\<exists>q. prefix q (render level (tree_val t)) \<and> written fp' = written fp @ q))"
proof -
  have "holds m t" using assms(1) by (simp add: owned_def)
  from print_value_spec [OF this emit_depth_enough [OF assms(2,1)] assms(3)]
  show ?thesis by (cases rule: prints_cases [where fp = fp]) auto
qed

theorem print_value_renders_witness:
  "\<exists>rc fp'. print_value (emit_depth sample_mem) sample_mem (Some 1) 3 (full_disk 5) = Some (rc, fp')
    \<and> (if rc = 0 then written fp' = render 3 (tree_val sample_dict)
       else rc = -1 \<and> (\<exists>q. prefix q (render 3 (tree_val sample_dict)) \<and> written fp' = q))"
proof -
  have "root sample_dict = 1" "written (full_disk 5) = []" "3 + height sample_dict \<le> SIZE_MAX"
    by (simp_all add: sample_dict_def full_disk_def sample_list_def sample_int_def SIZE_MAX_def)
  with print_value_renders [OF sample_dict_owned sample_wf, of 3 "full_disk 5"] show ?thesis
    by (auto split: if_splits)
qed

section \<open>Any world\<close>

text \<open>The file that \<open>main\<close> hands to a command.\<close>

definition operand :: "string list \<Rightarrow> string option" where
  "operand argv = (let next_arg = (if 2 < length argv \<and> argv ! 2 = ''--'' then 3 else 2)
     in if next_arg < length argv then Some (argv ! next_arg) else None)"

definition extra_argument :: "string list \<Rightarrow> bool" where
  "extra_argument argv \<longleftrightarrow> (if 2 < length argv \<and> argv ! 2 = ''--'' then 4 else 3) < length argv"

lemma main_dispatch:
  assumes "2 \<le> length argv"
  shows "main version argv w =
    (let prog = argv ! 0; cmd = argv ! 1 in
     if cmd = ''--help'' \<or> cmd = ''-h'' then
       (case print_usage (wout w) prog of (rc, fp1) \<Rightarrow> Some (rc, w\<lparr>wout := fp1\<rparr>))
     else if cmd = ''--version'' \<or> cmd = ''-V'' then
       (case put_stdout (line (''bencode '' @ bencode_version version)) w of (good, w1) \<Rightarrow> Some (if good then 0 else 2, w1))
     else if extra_argument argv then
       Some (usage_error prog (complain (line (prog @ '': extra argument: ''
         @ argv ! ((if 2 < length argv \<and> argv ! 2 = ''--'' then 3 else 2) + 1))) w))
     else if cmd = ''validate'' then cmd_validate prog (operand argv) w
     else if cmd = ''print'' then cmd_print prog (operand argv) w
     else if cmd = ''roundtrip'' then cmd_roundtrip prog (operand argv) w
     else if cmd = ''size'' then cmd_size prog (operand argv) w
     else Some (usage_error prog (complain (line (prog @ '': unknown subcommand: '' @ cmd)) w)))"
proof -
  have argc: "0 < length argv" "\<not> length argv < 2" using assms by linarith+
  have next_arg: "(if 2 < length argv \<and> argv ! 2 = ''--'' then 3 else 2) + 1 < length argv \<longleftrightarrow> extra_argument argv"
    by (simp add: extra_argument_def)
  show ?thesis unfolding main_def operand_def Let_def next_arg using argc by simp
qed

lemma main_no_command: "length argv < 2 \<Longrightarrow> \<exists>prog. main version argv w = Some (usage_error prog w)"
  unfolding main_def Let_def by auto

definition subcommands :: "string set" where
  "subcommands = {''validate'', ''print'', ''roundtrip'', ''size''}"

text \<open>Every subcommand keeps the contract of the commands.\<close>

lemma main_runs_command:
  assumes "2 \<le> length argv" and "argv ! 1 \<in> subcommands" and "\<not> extra_argument argv"
  obtains run out where "command run out" and "main version argv w = run (argv ! 0) (operand argv) w"
proof -
  note go = main_dispatch [OF assms(1), of version w]
  consider "argv ! 1 = ''validate''" | "argv ! 1 = ''print''" | "argv ! 1 = ''roundtrip''" | "argv ! 1 = ''size''"
    using assms(2) by (auto simp: subcommands_def)
  then show thesis
  proof cases
    case 1
    show thesis by (rule that [OF validate.command_axioms]) (use 1 assms(3) in \<open>simp add: go Let_def\<close>)
  next
    case 2
    show thesis by (rule that [OF print.command_axioms]) (use 2 assms(3) in \<open>simp add: go Let_def\<close>)
  next
    case 3
    show thesis by (rule that [OF roundtrip.command_axioms]) (use 3 assms(3) in \<open>simp add: go Let_def\<close>)
  next
    case 4
    show thesis by (rule that [OF size.command_axioms]) (use 4 assms(3) in \<open>simp add: go Let_def\<close>)
  qed
qed

lemma main_subcommand:
  assumes "wf_mem (wmem w)" and "2 \<le> length argv" and "argv ! 1 \<in> subcommands" and "\<not> extra_argument argv"
  shows "\<exists>rc w'. main version argv w = Some (rc, w') \<and> rc \<in> {0, 1, 2} \<and> moves (wmem w) {} (wmem w') {}
    \<and> (rc = 0 \<longrightarrow> (\<exists>fp. input_stream (operand argv) w = Some fp \<and> \<not> broken fp \<and> valid_input (pending fp)))"
proof -
  obtain run out where c: "command run out" and go: "main version argv w = run (argv ! 0) (operand argv) w"
    by (rule main_runs_command [OF assms(2-4)])
  obtain rc w' where r: "run (argv ! 0) (operand argv) w = Some (rc, w')" "rc \<in> {0, 1, 2}" "moves (wmem w) {} (wmem w') {}"
    using command.run_returns [OF c assms(1)] by blast
  have "\<exists>fp. input_stream (operand argv) w = Some fp \<and> \<not> broken fp \<and> valid_input (pending fp)" if "rc = 0"
    using command.run_success [OF c assms(1)] r(1) that unfolding valid_input_def by blast
  then show ?thesis using r unfolding go by blast
qed

lemma main_errors:
  assumes "length argv < 2 \<or> argv ! 1 \<notin> {''--help'', ''-h'', ''--version'', ''-V''}
      \<and> (extra_argument argv \<or> argv ! 1 \<notin> subcommands)"
  shows "\<exists>fp. main version argv w = Some (2, w\<lparr>werr := fp\<rparr>)"
proof (cases "length argv < 2")
  case True
  then obtain prog where "main version argv w = Some (usage_error prog w)" using main_no_command by blast
  then show ?thesis by (auto simp: usage_error_def)
next
  case False
  then have two: "2 \<le> length argv" by simp
  obtain msg where "main version argv w = Some (usage_error (argv ! 0) (complain msg w))"
  proof (cases "extra_argument argv")
    case True
    show thesis by (rule that) (use False True assms in \<open>simp add: main_dispatch [OF two] Let_def\<close>)
  next
    case ok: False
    show thesis by (rule that) (use False ok assms in \<open>simp add: main_dispatch [OF two] Let_def subcommands_def\<close>)
  qed
  then show ?thesis by (auto simp: usage_error_def complain_def)
qed

text \<open>C21: whatever the arguments, the input, the memory that is left and the state of the output streams,
  \<open>main\<close> returns one of the documented exit codes, and every block it took is given back.\<close>

theorem main_returns:
  assumes "wf_mem (wmem w)"
  shows "\<exists>rc w'. main version argv w = Some (rc, w') \<and> rc \<in> {0, 1, 2} \<and> moves (wmem w) {} (wmem w') {}"
proof -
  have same: "moves (wmem w) {} (wmem w) {}" using moves_refl [OF assms, of "{}"] by simp
  consider (sub) "2 \<le> length argv" "argv ! 1 \<in> subcommands" "\<not> extra_argument argv"
    | (usage) "2 \<le> length argv" "argv ! 1 = ''--help'' \<or> argv ! 1 = ''-h''"
    | (vers) "2 \<le> length argv" "argv ! 1 = ''--version'' \<or> argv ! 1 = ''-V''"
    | (bad) "length argv < 2 \<or> argv ! 1 \<notin> {''--help'', ''-h'', ''--version'', ''-V''}
      \<and> (extra_argument argv \<or> argv ! 1 \<notin> subcommands)" by fastforce
  then show ?thesis
  proof cases
    case sub
    then show ?thesis using main_subcommand [OF assms] by blast
  next
    case usage
    obtain rc fp1 where u: "print_usage (wout w) (argv ! 0) = (rc, fp1)" "rc \<in> {0, 2}"
      by (cases "fwrite (usage_text (argv ! 0)) (wout w)") (auto simp: print_usage_def)
    have "main version argv w = Some (rc, w\<lparr>wout := fp1\<rparr>)"
      unfolding main_dispatch [OF usage(1)] Let_def if_P [OF usage(2)] u(1) by simp
    then show ?thesis using u(2) same by auto
  next
    case vers
    have no: "\<not> (argv ! 1 = ''--help'' \<or> argv ! 1 = ''-h'')" using vers(2) by auto
    obtain good fp1 where u: "put_stdout (line (''bencode '' @ bencode_version version)) w = (good, w\<lparr>wout := fp1\<rparr>)"
      by (rule put_stdout_cases) blast+
    have "main version argv w = Some (if good then 0 else 2, w\<lparr>wout := fp1\<rparr>)"
      unfolding main_dispatch [OF vers(1)] Let_def if_P [OF vers(2)] if_not_P [OF no] u by simp
    then show ?thesis using same by auto
  next
    case bad
    then show ?thesis using main_errors [of argv version w] same by auto
  qed
qed

definition starved :: world where
  "starved = sample_world\<lparr>wmem := empty_mem\<lparr>answers := (\<lambda>p n nbytes. n < 4)\<rparr>, wout := full_disk 0\<rparr>"

theorem main_returns_witness:
  "\<exists>rc w'. main ''1.0'' [''bencode'', ''roundtrip''] starved = Some (rc, w') \<and> rc \<in> {0, 1, 2}
    \<and> moves (wmem starved) {} (wmem w') {}"
  by (rule main_returns) (simp add: starved_def empty_mem_def wf_mem_def)

text \<open>C38: exit code zero of a subcommand means that the whole input was read and is the canonical encoding of a
  value, even when memory or the output streams fail along the way.\<close>

theorem main_success_valid:
  assumes "wf_mem (wmem w)" and "2 \<le> length argv" and "argv ! 1 \<in> subcommands"
    and "main version argv w = Some (0, w')"
  shows "\<exists>fp. input_stream (operand argv) w = Some fp \<and> \<not> broken fp \<and> valid_input (pending fp)"
proof (cases "extra_argument argv")
  case True
  then have "argv ! 1 \<notin> {''--help'', ''-h'', ''--version'', ''-V''} \<and> (extra_argument argv \<or> argv ! 1 \<notin> subcommands)"
    using assms(3) by (auto simp: subcommands_def)
  then show ?thesis using main_errors [of argv version w] assms(4) by auto
next
  case False
  then show ?thesis using main_subcommand [OF assms(1-3) False, of version] assms(4) by simp
qed

theorem main_success_valid_witness:
  "\<exists>w' fp. main ''1.0'' [''bencode'', ''validate'', ''-''] sample_world = Some (0, w')
    \<and> input_stream (Some ''-'') sample_world = Some fp \<and> valid_input (pending fp)"
proof -
  have "verdict (Some ''-'') sample_world = verdict None sample_world"
    by (simp add: verdict_def input_stream_def open_input_def)
  then obtain w' where "cmd_validate ''bencode'' (Some ''-'') sample_world = Some (0, w')"
    using validate.run_verdict [OF sample_plenty, of "''bencode''" "Some ''-''"] sample_verdicts(1) by auto
  moreover have "main ''1.0'' [''bencode'', ''validate'', ''-''] sample_world = cmd_validate ''bencode'' (Some ''-'') sample_world"
    by (simp add: main_def)
  ultimately have run: "main ''1.0'' [''bencode'', ''validate'', ''-''] sample_world = Some (0, w')" by simp
  from main_success_valid [OF sample_world_wf _ _ run] run show ?thesis
    by (simp add: subcommands_def operand_def) blast
qed

text \<open>C22: input that does not parse is diagnosed: every subcommand exits with one, leaves the standard output
  alone, gives back all memory, and writes to the standard error the text of the status that the library has for the
  input, with an offset in the input at which that status applies.\<close>

theorem main_diagnoses:
  assumes "plenty (operand argv) w" and "2 \<le> length argv" and "argv ! 1 \<in> subcommands" and "\<not> extra_argument argv"
    and "input_stream (operand argv) w = Some fp" and "\<not> broken fp" and "\<not> valid_input (pending fp)" and "reliable (werr w)"
  shows "\<exists>st c w'. main version argv w = Some (1, w') \<and> moves (wmem w) {} (wmem w') {} \<and> wout w' = wout w
    \<and> written (werr w') = written (werr w) @ ascii (argv ! 0 @ '': '' @ bencode_status_string (status_code st)
        @ '' at byte offset '') @ dec c @ [10]
    \<and> c \<le> length (pending fp) \<and> rejected_as (Some strict_options) (pending fp) st c"
proof -
  have v: "verdict (operand argv) w = 1" using assms(5-7) by (simp add: verdict_def)
  obtain run out where c: "command run out" and go: "main version argv w = run (argv ! 0) (operand argv) w"
    by (rule main_runs_command [OF assms(2-4)])
  obtain w' where r: "main version argv w = Some (1, w')" "moves (wmem w) {} (wmem w') {}" "wout w' = wout w"
    and d: "diagnosed (argv ! 0) (operand argv) w w'"
    using command.run_diagnosis [OF c assms(1) v] unfolding go by blast
  obtain st c where st: "c \<le> length (pending fp)" "rejected_as (Some strict_options) (pending fp) st c"
    "werr w' = werr (complain (diagnostic (argv ! 0) st c) w)"
    using d assms(5) by (auto simp: diagnosed_def)
  have "written (werr w') = written (werr w) @ diagnostic (argv ! 0) st c"
    unfolding st(3) by (rule complain_reliable [OF assms(8)])
  then show ?thesis using r st(1,2) unfolding diagnostic_def by blast
qed

theorem main_diagnoses_witness:
  "\<exists>st c w'. main ''1.0'' [''bencode'', ''print'', ''cut''] sample_world = Some (1, w')
    \<and> written (werr w') = ascii (''bencode: '' @ bencode_status_string (status_code st) @ '' at byte offset '') @ dec c @ [10]
    \<and> c \<le> 16 \<and> rejected_as (Some strict_options) (butlast sample_text) st c"
proof -
  have op: "operand [''bencode'', ''print'', ''cut''] = Some ''cut''" by (simp add: operand_def)
  have err: "reliable (werr sample_world)" "written (werr sample_world) = []"
    using good_disk by (simp_all add: sample_world_def good_disk_def)
  show ?thesis
    using main_diagnoses [of "[''bencode'', ''print'', ''cut'']" sample_world "\<lparr>pending = butlast sample_text, broken = False\<rparr>"
        "''1.0''"]
    by (simp add: op sample_plenty sample_cut subcommands_def extra_argument_def cut_invalid err sample_text_length) blast
qed

text \<open>Without a subcommand, with an unknown one, or with more than one operand, \<open>main\<close> exits with two, having
  written to the standard error only.\<close>

theorem main_usage_errors:
  assumes "length argv < 2 \<or> argv ! 1 \<notin> {''--help'', ''-h'', ''--version'', ''-V''}
      \<and> (extra_argument argv \<or> argv ! 1 \<notin> subcommands)"
  shows "\<exists>fp. main version argv w = Some (2, w\<lparr>werr := fp\<rparr>)"
  by (rule main_errors [OF assms])

theorem main_usage_errors_witness:
  "\<exists>fp1 fp2. main ''1.0'' [''bencode'', ''size'', ''--'', ''a'', ''b''] sample_world = Some (2, sample_world\<lparr>werr := fp1\<rparr>)
    \<and> main ''1.0'' [''bencode'', ''frobnicate''] sample_world = Some (2, sample_world\<lparr>werr := fp2\<rparr>)"
  using main_usage_errors [of "[''bencode'', ''size'', ''--'', ''a'', ''b'']" "''1.0''" sample_world]
    main_usage_errors [of "[''bencode'', ''frobnicate'']" "''1.0''" sample_world]
  by (simp add: extra_argument_def subcommands_def)

section \<open>Reading\<close>

text \<open>\<open>read_all\<close> returns the bytes of the stream, however many there are, in a buffer that is the only block
  it leaves; a stream that fails, or memory that runs out, gives one and leaves nothing.\<close>

theorem read_all_reads:
  assumes "wf_mem (wmem w)"
  shows "\<exists>rc r n w'. read_all path w = Some (rc, r, n, w') \<and> wout w' = wout w
    \<and> (if rc = 0
       then \<exists>fp b. input_stream path w = Some fp \<and> \<not> broken fp \<and> r = Some b \<and> n = length (pending fp)
              \<and> read_bytes (BAt b 0) n (wmem w') = Some (pending fp) \<and> moves (wmem w) {} (wmem w') {b}
       else rc = 1 \<and> moves (wmem w) {} (wmem w') {} \<and> (plenty path w \<longrightarrow> verdict path w = 2))"
  using assms
proof (cases rule: read_all_cases [where path = path])
  case (all fp b cap w1)
  then show ?thesis using buffered_borrowed [OF all(4)] by (auto simp: world_read_def buffered_def)
next
  case (failed w1)
  have "verdict path w = 2" if p: "plenty path w"
  proof (cases "input_stream path w")
    case (Some fp)
    then have "broken fp" using failed(4) [OF _ Some] p by (auto simp: plenty_def SIZE_MAX_def)
    then show ?thesis using Some by (simp add: verdict_def)
  qed (simp add: verdict_def)
  then show ?thesis using failed by (simp add: world_read_def)
qed

theorem read_all_reads_witness:
  "(\<exists>b w'. read_all None sample_world = Some (0, Some b, 17, w') \<and> read_bytes (BAt b 0) 17 (wmem w') = Some sample_text)
    \<and> (\<exists>r n w'. read_all (Some ''torn'') sample_world = Some (1, r, n, w') \<and> moves (wmem sample_world) {} (wmem w') {})"
proof
  obtain rc r n w' where all: "read_all None sample_world = Some (rc, r, n, w')"
    and post: "if rc = 0
       then \<exists>fp b. input_stream None sample_world = Some fp \<and> \<not> broken fp \<and> r = Some b \<and> n = length (pending fp)
              \<and> read_bytes (BAt b 0) n (wmem w') = Some (pending fp) \<and> moves (wmem sample_world) {} (wmem w') {b}
       else rc = 1 \<and> moves (wmem sample_world) {} (wmem w') {} \<and> (plenty None sample_world \<longrightarrow> verdict None sample_world = 2)"
    using read_all_reads [OF sample_world_wf, of None] by blast
  then have "rc = 0" using sample_plenty sample_verdicts(1) by (auto split: if_splits)
  then show "\<exists>b w'. read_all None sample_world = Some (0, Some b, 17, w') \<and> read_bytes (BAt b 0) 17 (wmem w') = Some sample_text"
    using all post sample_text_length by (auto simp: sample_stdin)
next
  have "input_stream (Some ''torn'') sample_world = Some \<lparr>pending = sample_text, broken = True\<rparr>"
    by (simp add: input_stream_def open_input_def sample_world_def sample_files_def)
  then show "\<exists>r n w'. read_all (Some ''torn'') sample_world = Some (1, r, n, w') \<and> moves (wmem sample_world) {} (wmem w') {}"
    using read_all_reads [OF sample_world_wf, of "Some ''torn''"] by (auto split: if_splits)
qed

section \<open>Flushing\<close>

text \<open>A standard output whose buffer takes every write but whose bytes never reach their destination, such as a
  full device behind a buffered stream.\<close>

definition lossy :: "file_stream \<Rightarrow> bool" where
  "lossy fp \<longleftrightarrow> (\<forall>n len. len \<le> fwrite_answers fp n len) \<and> (\<forall>n. \<not> fflush_answers fp n)"

lemma load_valid:
  assumes "wf_mem (wmem w)" and "granting (wmem w)" and "input_stream path w = Some fp" and "\<not> broken fp"
    and "valid_input (pending fp)" and "length (pending fp) \<le> 2 ^ 58"
  obtains b t w1 where "load prog path w = Some (0, Some b, length (pending fp), Some (root t), w1)"
    and "loaded w (wmem w1) b (pending fp) t" and "canonical BENCODE_DEFAULT_MAX_DEPTH (tree_val t)" and "wout w1 = wout w"
  using assms(1)
proof (cases rule: load_cases [where prog = prog and path = path])
  case (unreadable w1)
  then show thesis using unreadable(4) [OF assms(2,3)] assms(4,6) by (simp add: SIZE_MAX_def)
next
  case (rejected fp' w1)
  then show thesis using assms by simp
next
  case (loaded fp' b t w1)
  then show thesis using that assms(3) by simp
qed

text \<open>C40: a failed flush is noticed by \<open>print\<close> only: on an output stream that buffers every write and then fails
  to flush, \<open>print\<close> exits with two and \<open>validate\<close> with zero.\<close>

theorem flush_failure_exit_codes:
  assumes "wf_mem (wmem w)" and "granting (wmem w)" and "input_stream path w = Some fp" and "\<not> broken fp"
    and "valid_input (pending fp)" and "length (pending fp) \<le> 2 ^ 58" and "lossy (wout w)"
  shows "(\<exists>w'. cmd_validate prog path w = Some (0, w')) \<and> (\<exists>w'. cmd_print prog path w = Some (2, w'))"
proof -
  obtain b t w1 where load: "load prog path w = Some (0, Some b, length (pending fp), Some (root t), w1)"
    and own: "loaded w (wmem w1) b (pending fp) t" and can: "canonical BENCODE_DEFAULT_MAX_DEPTH (tree_val t)"
    and out: "wout w1 = wout w"
    by (rule load_valid [OF assms(1-6)])
  have fin: "\<exists>w'. finish rc (Some b) (Some (root t)) (w1\<lparr>wout := fp'\<rparr>) = Some (rc, w')" for rc fp'
    using finish_spec [OF own, of "w1\<lparr>wout := fp'\<rparr>" rc] by (auto elim: meta_allE)
  have full: "min (fwrite_answers (wout w) n len) len = len" for n len
    using assms(7) by (simp add: lossy_def min_absorb2)
  have "\<exists>fp'. put_stdout (line ''ok'') w1 = (True, w1\<lparr>wout := fp'\<rparr>)"
    by (auto simp: put_stdout_def fwrite_def Let_def out full)
  then have validate: "\<exists>w'. cmd_validate prog path w = Some (0, w')"
    using fin by (auto simp: cmd_validate_def load)
  have wf: "wf_mem (wmem w1)" "owned (wmem w1) t" using loaded_wf [OF own] by simp_all
  have "prints (render 0 (tree_val t)) (print_value (emit_depth (wmem w1)) (wmem w1) (Some (root t)) 0)"
  proof (rule print_value_spec)
    show "holds (wmem w1) t" using wf(2) by (simp add: owned_def)
    show "height t \<le> emit_depth (wmem w1)" by (rule emit_depth_enough [OF wf])
    show "0 + height t \<le> SIZE_MAX"
      using canonical_height [OF can] by (simp add: BENCODE_DEFAULT_MAX_DEPTH_def SIZE_MAX_def)
  qed
  then obtain rc fp1 where pv: "print_value (emit_depth (wmem w1)) (wmem w1) (Some (root t)) 0 (wout w1) = Some (rc, fp1)"
    "same_stream (wout w1) fp1"
    by (cases rule: prints_cases [where fp = "wout w1"]) auto
  obtain nl fp3 where newline: "print_text [10] fp1 = Some (nl, fp3)" "same_stream fp1 fp3"
    by (cases rule: prints_cases [OF prints_text, of "[10]" fp1]) auto
  have "\<not> fflush_answers fp3 n" for n
    using assms(7) same_stream_trans [OF pv(2) newline(2)] out by (simp add: lossy_def same_stream_def)
  then have "\<exists>w'. cmd_print prog path w = Some (2, w')"
    using fin [of 2] by (auto simp: cmd_print_def load pv(1) newline(1) fflush_def)
  with validate show ?thesis by blast
qed

definition buffered_disk :: file_stream where
  "buffered_disk = \<lparr>written = [], fcalls = 0, fwrite_answers = (\<lambda>k len. len), fflush_answers = (\<lambda>k. False)\<rparr>"

theorem flush_failure_exit_codes_witness:
  "(\<exists>w'. cmd_validate ''bencode'' None (sample_world\<lparr>wout := buffered_disk\<rparr>) = Some (0, w'))
    \<and> (\<exists>w'. cmd_print ''bencode'' None (sample_world\<lparr>wout := buffered_disk\<rparr>) = Some (2, w'))"
proof (rule flush_failure_exit_codes)
  show "input_stream None (sample_world\<lparr>wout := buffered_disk\<rparr>) = Some \<lparr>pending = sample_text, broken = False\<rparr>"
    by (simp add: input_stream_def open_input_def sample_world_def)
  show "valid_input (pending \<lparr>pending = sample_text, broken = False\<rparr>)"
    using sample_limit encode_sample by (auto simp: valid_input_def)
qed (use sample_text_length in \<open>simp_all add: sample_world_def empty_mem_def wf_mem_def granting_def lossy_def buffered_disk_def\<close>)

end
