(* ===== verification/Example.thy ===== *)
theory Example
  imports Cli_Props
begin

text \<open>
  \<open>examples/decode_example.c\<close>: a program that parses a literal, prints the type of the value, looks up a key
  and releases the tree.  The two string literals lie in static storage, where \<open>input\<close> and \<open>cow_key\<close> point.
\<close>

section \<open>The program\<close>

definition example_literal :: "byte list" where
  "example_literal = ascii ''d3:cow3:moo4:spaml1:a1:bee''"

text \<open>\<open>printf(...)\<close> with its result ignored.\<close>

definition say :: "byte list \<Rightarrow> world \<Rightarrow> world" where
  "say bs w = snd (put_stdout bs w)"

text \<open>\<open>%.*s\<close> with the precision \<open>(int)len\<close>: the bytes up to the precision or a terminator.  A negative precision
  would make \<open>printf\<close> read on to a terminator, which the bytes of a value do not have.\<close>

definition printed_bytes :: "bptr \<Rightarrow> nat \<Rightarrow> mem \<Rightarrow> byte list option" where
  "printed_bytes bytes len m =
     (let precision = sint (word_of_nat len :: 32 word) in
      if precision < 0 then None
      else do { bs \<leftarrow> read_bytes bytes (nat precision) m; Some (takeWhile (\<lambda>b. b \<noteq> 0) bs) })"

definition example_main :: "bptr \<Rightarrow> bptr \<Rightarrow> world \<Rightarrow> (int \<times> world) option" where
  "example_main input cow_key w = do {
     (st, root, consumed, m1) \<leftarrow> bencode_parse input (length example_literal) None True (wmem w);
     let w1 = w\<lparr>wmem := m1\<rparr>;
     if st \<noteq> BENCODE_OK then
       Some (1, complain (ascii ''parse failed at offset '' @ dec consumed @
         line ('': '' @ bencode_status_string (status_code st))) w1)
     else do {
       let w2 = say (ascii ''parsed '' @ dec consumed @ line '' bytes into bencode tree'') w1;
       ty \<leftarrow> bencode_value_type root m1;
       let w3 = say (ascii ''top-level type: '' @ dec (type_code ty) @ line '' (4 = dict)'') w2;
       cow_val \<leftarrow> bencode_dict_get root cow_key 3 m1;
       w4 \<leftarrow>
         (if cow_val = None then Some w3
          else do {
            (st1, r) \<leftarrow> bencode_value_string cow_val True True m1;
            if st1 \<noteq> BENCODE_OK then Some w3
            else do {
              (bytes, len) \<leftarrow> r;
              bs \<leftarrow> printed_bytes bytes len m1;
              Some (say (ascii ''cow -> '' @ [34] @ bs @ [34, 10]) w3)
            }
          });
       m2 \<leftarrow> bencode_value_free root m1;
       Some (0, w4\<lparr>wmem := m2\<rparr>)
     }
   }"

section \<open>The literal\<close>

definition example_value :: bval where
  "example_value = BDict [(ascii ''cow'', BStr (ascii ''moo'')), (ascii ''spam'', BList [BStr (ascii ''a''), BStr (ascii ''b'')])]"

lemma encode_example: "encode example_value = example_literal"
  by (simp add: example_value_def example_literal_def ascii_def enc_str_def dec_digit digit_byte_def)

lemma example_canonical: "canonical 2 example_value"
  by (simp add: example_value_def ascii_def SIZE_MAX_def)

lemma example_parses: "parses_as None example_literal example_value"
proof -
  have "canonical (effective_depth 0) example_value"
    by (rule canonical_mono [OF example_canonical])
      (simp add: effective_depth_def Let_def BENCODE_INTERNAL_MAX_DEPTH_def BENCODE_DEFAULT_MAX_DEPTH_def)
  then show ?thesis using encode_example by (simp add: parses_as_def options_depth_def)
qed

lemma example_length: "length example_literal = 26"
  by (simp add: example_literal_def ascii_def)

lemma cow_length: "length (ascii ''cow'') = 3" and moo_length: "length (ascii ''moo'') = 3"
  by (simp_all add: ascii_def)

section \<open>Its output\<close>

lemma say_simps [simp]: "wmem (say bs w) = wmem w" "werr (say bs w) = werr w"
  by (simp_all add: say_def put_stdout_def fwrite_def Let_def)

lemma say_reliable:
  "reliable (wout w) \<Longrightarrow> written (wout (say bs w)) = written (wout w) @ bs \<and> reliable (wout (say bs w))"
  by (simp add: say_def put_stdout_def fwrite_def Let_def reliable_def min_absorb2)

lemma printed_short:
  assumes "read_bytes ptr (length bs) m = Some bs" and "length bs < 2 ^ 31" and "0 \<notin> set bs"
  shows "printed_bytes ptr (length bs) m = Some bs"
proof -
  have "sint (word_of_nat (length bs) :: 32 word) = int (length bs)"
    using assms(2) by (simp add: signed_of_nat signed_take_bit_int_eq_self)
  moreover have "takeWhile (\<lambda>b. b \<noteq> 0) bs = bs" using assms(3) by (auto simp: takeWhile_eq_all_conv)
  ultimately show ?thesis using assms(1) by (simp add: printed_bytes_def)
qed

definition example_output :: "byte list" where
  "example_output = line ''parsed 26 bytes into bencode tree'' @ line ''top-level type: 4 (4 = dict)'' @
     ascii ''cow -> '' @ [34] @ ascii ''moo'' @ [34, 10]"

lemma example_accessors:
  assumes "owned m t" and "tree_val t = example_value" and "read_bytes cow_key 3 m = Some (ascii ''cow'')"
  obtains c ptr where "bencode_value_type (Some (root t)) m = Some BENCODE_DICT"
    and "bencode_dict_get (Some (root t)) cow_key 3 m = Some (Some c)"
    and "bencode_value_string (Some c) True True m = Some (BENCODE_OK, Some (ptr, 3))"
    and "printed_bytes ptr 3 m = Some (ascii ''moo'')"
proof -
  note val = assms(2) [unfolded example_value_def]
  obtain a al arr cap ts where t: "t = GDict a al arr cap ts" using dict_tree [OF val] by blast
  have h: "holds m t" using assms(1) by (simp add: owned_def)
  have ty: "bencode_value_type (Some (root t)) m = Some BENCODE_DICT" using holds_value_type [OF h] t by simp
  have cow: "map_of (entry_vals ts) (ascii ''cow'') = Some (BStr (ascii ''moo''))" using val unfolding t by simp
  from dict_get_lookup [OF h [unfolded t] assms(3)]
  obtain u where u: "bencode_dict_get (Some (root t)) cow_key 3 m = Some (Some (root u))" "map_of (entry_trees ts) (ascii ''cow'') = Some u"
    and v: "tree_val u = BStr (ascii ''moo'')"
    using cow unfolding map_of_entry_vals t by auto
  have "holds m u" using h map_of_SomeD [OF u(2)] unfolding t by auto
  from holds_value_string [OF this v, unfolded moo_length] obtain ptr where
    s: "bencode_value_string (Some (root u)) True True m = Some (BENCODE_OK, Some (ptr, 3))"
    and b: "read_bytes ptr 3 m = Some (ascii ''moo'')" by blast
  have "printed_bytes ptr 3 m = Some (ascii ''moo'')"
    by (rule printed_short [of ptr "ascii ''moo''" m, unfolded moo_length, OF b]) (simp_all add: ascii_def)
  then show thesis by (rule that [OF ty u(1) s])
qed

text \<open>What the program does with the tree.\<close>

lemma example_run:
  assumes run: "bencode_parse input 26 None True (wmem w) = Some (BENCODE_OK, Some (root t), 26, m)"
    and mv: "moves (wmem w) {} m (set (blocks t))" and t: "owned m t" "tree_val t = example_value"
    and key: "borrowed (wmem w) cow_key (ascii ''cow'')" and out: "reliable (wout w)"
  obtains w' where "example_main input cow_key w = Some (0, w')" and "moves (wmem w) {} (wmem w') {}"
    and "written (wout w') = written (wout w) @ example_output" and "werr w' = werr w"
proof -
  have "borrowed m cow_key (ascii ''cow'')" by (rule borrowed_frame [OF key moves_foreign [OF mv]])
  from read_borrowed [OF this] have k: "read_bytes cow_key 3 m = Some (ascii ''cow'')" unfolding cow_length .
  obtain m2 where m2: "bencode_value_free (Some (root t)) m = Some m2" "moves m (set (blocks t)) m2 {}"
    by (rule bencode_value_free_spec [OF movesD(2) [OF mv] t(1)])
  from example_accessors [OF t k] obtain c ptr where
    get: "bencode_value_type (Some (root t)) m = Some BENCODE_DICT"
      "bencode_dict_get (Some (root t)) cow_key 3 m = Some (Some c)"
      "bencode_value_string (Some c) True True m = Some (BENCODE_OK, Some (ptr, 3))"
      "printed_bytes ptr 3 m = Some (ascii ''moo'')" .
  let ?w = "say (ascii ''cow -> '' @ [34] @ ascii ''moo'' @ [34, 10]) (say (line ''top-level type: 4 (4 = dict)'')
    (say (line ''parsed 26 bytes into bencode tree'') (w\<lparr>wmem := m\<rparr>)))"
  have lines: "ascii ''parsed '' @ dec 26 @ line '' bytes into bencode tree'' = line ''parsed 26 bytes into bencode tree''"
    "ascii ''top-level type: '' @ dec (type_code BENCODE_DICT) @ line '' (4 = dict)'' = line ''top-level type: 4 (4 = dict)''"
    by (simp_all add: line_def ascii_def dec.simps [of 26] dec_digit digit_byte_def)
  show thesis
  proof (rule that)
    show "example_main input cow_key w = Some (0, ?w\<lparr>wmem := m2\<rparr>)"
      by (simp add: example_main_def example_length run get m2(1) lines Let_def del: type_code.simps)
    show "written (wout (?w\<lparr>wmem := m2\<rparr>)) = written (wout w) @ example_output"
      using out by (simp add: example_output_def say_reliable)
  qed (use moves_trans [OF mv m2(2)] in simp_all)
qed

section \<open>Properties\<close>

text \<open>C39: the example program runs to its end whatever the allocator does and gives back all memory.  With enough
  memory it prints the size and the type of the literal and the string under \<open>cow\<close>, and exits with zero; otherwise it
  exits with one, after the offset and the reason on the error stream.\<close>

theorem example_prints:
  assumes "wf_mem (wmem w)" and "borrowed (wmem w) input example_literal"
    and "borrowed (wmem w) cow_key (ascii ''cow'')" and "reliable (wout w)" and "reliable (werr w)"
  shows "\<exists>rc w'. example_main input cow_key w = Some (rc, w') \<and> moves (wmem w) {} (wmem w') {}
    \<and> (rc = 0 \<and> written (wout w') = written (wout w) @ example_output \<and> werr w' = werr w
       \<or> rc = 1 \<and> \<not> granting (wmem w) \<and> wout w' = wout w
         \<and> (\<exists>c\<le>26. written (werr w') = written (werr w) @ ascii ''parse failed at offset '' @ dec c
              @ line '': memory allocation failed''))"
proof -
  let ?m = "wmem w"
  have ready: "parse_ready None input example_literal ?m"
    using assms(1,2) by (simp add: parse_ready_def options_allocator_def alloc_ok_def example_length SIZE_MAX_def)
  then show ?thesis
  proof (cases rule: bencode_parse_cases)
    case (parsed v rest t m')
    have v: "tree_val t = example_value" using parses_as_unique [OF example_parses parsed(1)] parsed(5) by simp
    then have "length (encode v) = 26" using parsed(5) encode_example example_length by simp
    then have "bencode_parse input 26 None True ?m = Some (BENCODE_OK, Some (root t), 26, m')"
      using parsed(3) example_length by simp
    from example_run [OF this parsed(6,4) v assms(3,4)] obtain w' where
      "example_main input cow_key w = Some (0, w')" "moves ?m {} (wmem w') {}"
      "written (wout w') = written (wout w) @ example_output" "werr w' = werr w" .
    then show ?thesis by (intro exI [of _ 0] exI [of _ w']) simp
  next
    case (rejected st c m')
    then show ?thesis using example_parses by blast
  next
    case (nomem c m')
    have "\<not> granting ?m" using nomem(4) example_length by simp
    have err: "bencode_status_string (status_code BENCODE_ERR_NOMEM) = ''memory allocation failed''"
      by (simp add: bencode_status_string_def)
    let ?bs = "ascii ''parse failed at offset '' @ dec c @ line '': memory allocation failed''"
    have "example_main input cow_key w = Some (1, complain ?bs (w\<lparr>wmem := m'\<rparr>))"
      by (simp add: example_main_def nomem(1) err del: status_code.simps)
    moreover have "written (werr (complain ?bs (w\<lparr>wmem := m'\<rparr>))) = written (werr w) @ ?bs"
      using complain_reliable [of "w\<lparr>wmem := m'\<rparr>"] assms(5) by simp
    ultimately show ?thesis using nomem(2,3) \<open>\<not> granting ?m\<close> unfolding example_length
      by (intro exI [of _ 1] exI [of _ "complain ?bs (w\<lparr>wmem := m'\<rparr>)"]) auto
  qed
qed

text \<open>The two literals in static storage.\<close>

definition example_mem :: mem where
  "example_mem = \<lparr>store = [0 \<mapsto> (Foreign, Bytes (map Some example_literal)), 1 \<mapsto> (Foreign, Bytes (map Some (ascii ''cow'')))],
     next_addr = 2, requests = 0, answers = (\<lambda>p n nbytes. True)\<rparr>"

theorem example_prints_witness:
  "\<exists>w'. example_main (BAt 0 0) (BAt 1 0) (sample_world\<lparr>wmem := example_mem\<rparr>) = Some (0, w')
     \<and> written (wout w') = example_output \<and> written (werr w') = []"
proof -
  let ?w = "sample_world\<lparr>wmem := example_mem\<rparr>"
  have mem: "wf_mem (wmem ?w)" "granting (wmem ?w)"
    "borrowed (wmem ?w) (BAt 0 0) example_literal" "borrowed (wmem ?w) (BAt 1 0) (ascii ''cow'')"
    by (auto simp: example_mem_def wf_mem_def granting_def borrowed_def slice_def)
  have out: "reliable (wout ?w)" "reliable (werr ?w)" "written (wout ?w) = []" "written (werr ?w) = []"
    using good_disk by (simp_all add: sample_world_def) (simp_all add: good_disk_def)
  from example_prints [OF mem(1,3,4) out(1,2)] show ?thesis using mem(2) out(3,4) by auto
qed

end
