(* ===== verification/Spec2Isabelle.thy ===== *)
theory Spec2Isabelle
  imports Sax_Props Sax_Depth Dom_Props Value_Props Emit_Props Session Observe Cli_Props Example
begin

text \<open>
  A verification library for the bencode C library and its command-line tool: a strict parser and emitter
  for Bencode (BitTorrent's encoding) with a streaming layer, a value tree in memory, and an emitter.

  The program and its model

  \<open>include/bencode/bencode.h\<close>, \<open>src/status.c\<close>: status codes, type tags, message table: theory \<open>Status\<close>.

  \<open>src/parse_sax.c\<close>, the streaming parser: theory \<open>Sax\<close> has its state (cursor, depth limit, scope array with
  the last key of each open dictionary) as the record \<open>sax_state\<close> and one function per C function, up to
  \<open>bencode_parse_sax\<close>.  Callbacks are HOL functions on the caller's state that return a status.  The byte
  comparisons of the parser and of the dictionary search are in \<open>Bytes\<close>, where both interpret the locale
  \<open>key_order\<close>.

  \<open>src/bencode_internal.h\<close>, \<open>src/value.c\<close>, the value tree: \<open>Memory\<close> has the heap (a map from addresses to
  blocks, each with the pool it came from; allocators that grant or refuse arbitrarily; reads and writes
  that are undefined outside live blocks), \<open>Value\<close> every function of \<open>value.c\<close>: allocation, release,
  constructors, the growing arrays, the sorted dictionary, accessors and deep copies.

  \<open>src/parse_dom.c\<close>: theory \<open>Dom\<close>, the stack of frames, the callbacks that build the tree on the events of the
  streaming parser, and \<open>bencode_parse\<close>.

  \<open>src/emit.c\<close>: theory \<open>Emit\<close>, the recursive emitter over any sink, the sink that writes to a stream, and the
  sink that grows a buffer.

  \<open>src/main.c\<close>, \<open>src/version.c\<close>: \<open>Cli\<close> (reading the input, the printer, the statistics) and \<open>Cli_Main\<close> (loading,
  the four subcommands, usage and \<open>main\<close>).  A world has the memory, the standard streams and the files.

  \<open>examples/decode_example.c\<close>: theory \<open>Example\<close>, a program over the parser, the accessors and the same world.

  Conventions

  A C function is a HOL function into \<open>option\<close>; \<open>None\<close> means that the C program has no defined result: an
  access outside a live block, a release of something that is not owned or from another pool, a scope
  index outside its array, a signed overflow, or fuel used up.  Statements about results say that the
  result is \<open>Some\<close>.  Sizes are natural numbers with the wrap-around of a 64-bit \<open>size_t\<close> written as \<open>sz\<close>;
  \<open>int64_t\<close> and \<open>uint64_t\<close> are words.  Output pointers are results, with a flag where the caller may pass
  NULL.  Addresses are not reused, so a stale pointer never reads a new object.  Streams answer each
  \<open>fwrite\<close> with how much they took and each \<open>fflush\<close> with success or failure, arbitrarily.

  Fuel.  \<open>parse_value\<close> has one unit per level and its loops have one per round, as many as there are bytes and one
  more; \<open>Sax_Run\<close> proves that this suffices for every input.  \<open>Sax_Depth\<close> bounds the levels apart from the rounds: the
  nesting limit and one are enough (\<open>sax_bounded_stack\<close>), which bounds the C stack.  Recursions over the tree
  (\<open>value_free\<close>, \<open>value_clone\<close>, \<open>emit_value\<close>, \<open>print_value\<close>, \<open>walk\<close>) have one unit per level; as many as there
  are addresses (\<open>emit_depth\<close>) are enough, since a tree is no higher than its number of blocks
  (\<open>height_below\<close>).  The reading loop of the tool terminates because each round but the last takes bytes
  from the stream.

  Specifications

  \<open>Canonical\<close>: values, their encoding, which values are canonical within a nesting limit, that encodings are
  prefix-free (\<open>encode_split\<close>, an instance of the locales of \<open>Codes\<close>), the events of a value, and \<open>insert_key\<close>, the update of a sorted association
  list.  \<open>Owned\<close>: \<open>holds m t\<close> says that memory holds the tree \<open>t\<close>, an abstraction with the addresses of all
  blocks; \<open>tree_val t\<close> is the value it stands for; \<open>owned\<close> adds that no block is shared.  \<open>moves m F m' F'\<close> (in
  \<open>Memory\<close>) says that an operation gave back the blocks \<open>F\<close> and took \<open>F'\<close>, and touched nothing else: it
  composes (\<open>moves_trans\<close>, \<open>moves_step\<close>), frames (\<open>moves_frame\<close>) and states leak freedom.

  The lemmas

  \<open>Sax_Lex\<close>, \<open>Sax_Scan\<close>: numerals, and which status the scanners of strings and integers return on which bytes.
  \<open>Sax_Outcome\<close>: a run as the replay of events to any callback table and as an outcome, with the rules that compose
  them; \<open>Sax_Loops\<close>: the loops over items and entries; \<open>Sax_Run\<close>: the parser follows the grammar of canonical values
  and reports the events of the value; \<open>Sax_Props\<close>: acceptance, rejection, totality, propagation of callback statuses.
  \<open>Sax_Path\<close>: runs up to a place inside open containers; \<open>Sax_Errors\<close>: the table of statuses
  (\<open>value_verdict\<close>, \<open>key_verdict\<close>), that every input either starts with a canonical value or has a place that the
  table rejects (\<open>rejects\<close>), that the parser returns the status of the table with an offset at or after that place,
  and that input that is cut off is told apart from malformed input.  \<open>Sax_Depth\<close>: successful calls leave the depth
  as it was, so a parser whose stack is bounded by the nesting limit agrees with the parser everywhere.
  \<open>Sax_Transfer\<close>: the locale \<open>client_map\<close>, two clients related by a map of their user states, under which every
  function of the parser commutes; its instances are the two halves of a pair of user states, through which
  \<open>Sax_Props\<close> compares any client, on any input, with one that records the events.
  \<open>Sax_Client\<close>: the locale \<open>sax_client\<close>, what a client of the events relies on; its instance is the tree
  builder (\<open>Dom_Events\<close>), whose abstract steps (\<open>Dom_Abs\<close>, \<open>Dom_Zipper\<close>) the callbacks refine (\<open>Dom_Step\<close>,
  \<open>Dom_Run\<close>); \<open>Dom_Props\<close>: \<open>bencode_parse\<close> succeeds on canonical input only, returns its tree, and releases
  everything otherwise.
  \<open>Owned_Free\<close>, \<open>Owned_Build\<close>, \<open>Owned_Array\<close>, \<open>Owned_Dict\<close>, \<open>Owned_Trees\<close>, \<open>Owned_Clone\<close>, \<open>Owned_Access\<close>: each
  operation of \<open>value.c\<close> refines an operation on values; \<open>Value_Props\<close> has the resulting contracts.
  \<open>Emit_Spec\<close>: the locale \<open>byte_sink\<close> and the emitter over any sink; \<open>Emit_Sinks\<close>: its instances, a caller's
  callback, a stream and the growing buffer; \<open>Emit_Props\<close>: emission, and the round trips with the parser.
  \<open>Session\<close>: programs that use the library.  The inductive \<open>session\<close> has the states a client reaches with calls
  that follow the ownership rules (\<open>allowed\<close>), a finite map from the values it holds to what they stand for
  beside the memory; every such call returns with the \<open>effect\<close> the interface promises, the trees never share
  a block, and releasing all values gives back all memory.  \<open>Observe\<close>: what a client reads back through the accessors
  is what it expects.
  \<open>Cli_Load\<close>, \<open>Cli_Print\<close>, \<open>Cli_Walk\<close>: reading, printing and counting against \<open>render\<close> and \<open>statistics\<close>, functions
  of the value; \<open>Cli_Render\<close>: the rendering is printable and, like the encoding, can be read in one way only;
  \<open>Cli_Command\<close>: the locale \<open>command\<close>, the contract of a subcommand, with the four subcommands as
  instances; \<open>Cli_Props\<close>: exit codes, output and diagnostics of the tool.  \<open>Example\<close>: the output of the example
  program, and that it gives back all memory.

  Not modelled

  The symbol-visibility macros of \<open>export.h\<close>; the version string, which the build generates (a parameter of
  \<open>bencode_version\<close>); the disposition of \<open>SIGPIPE\<close>, the binary mode of the standard input on Windows and
  \<open>fclose\<close> of an input, which have no result that the program reads; the flush of the standard output when
  the process exits, whose failure the program does not see; concurrent calls (the library has no global
  state, so calls on separate arguments are the sequential calls modelled here); the ABI limits of \<open>int\<close> in
  the return value of \<open>printf\<close>.  Programs that break the ownership rules (a second release, a container put
  into itself or into two parents, input that changes while a tree points into it) are outside \<open>session\<close>, and
  no property covers them.
\<close>

end
